(* ===== verification/Prelude.thy ===== *)
theory Prelude
  imports Main "HOL-Library.Multiset" "HOL-Library.Monad_Syntax"
begin

text \<open>
  Prelude of the development: the fact collections the component theories fill and use,
  bounds-checked access to C arrays (\<open>aref\<close>, \<open>aset\<close>) with C's signed indices, and the generic
  lemmas on lists and options that the components share.  A computation of the C program that
  has no defined behaviour (an access outside an object, a string without its terminator, a
  division by zero) is the value \<open>None\<close>; every other outcome, an error code included, is
  \<open>Some\<close> of the result.
\<close>

named_theorems cmem \<open>rewrite rules for C memory accesses that are known to be in bounds\<close>
named_theorems absfn \<open>abstraction functions of the components, unfolded by the refinement proofs\<close>

section \<open>Bounds-checked arrays\<close>

text \<open>\<open>aref a i\<close> is the read \<open>a[i]\<close>; \<open>aset a i v\<close> is the assignment \<open>a[i] = v\<close>.\<close>

definition aref :: "'a list \<Rightarrow> int \<Rightarrow> 'a option" where
  "aref a i = (if 0 \<le> i \<and> i < int (length a) then Some (a ! nat i) else None)"

definition aset :: "'a list \<Rightarrow> int \<Rightarrow> 'a \<Rightarrow> 'a list option" where
  "aset a i v = (if 0 \<le> i \<and> i < int (length a) then Some (a[nat i := v]) else None)"

lemma aref_Some [cmem]: "0 \<le> i \<Longrightarrow> i < int (length a) \<Longrightarrow> aref a i = Some (a ! nat i)"
  by (simp add: aref_def)

lemma aset_Some [cmem]: "0 \<le> i \<Longrightarrow> i < int (length a) \<Longrightarrow> aset a i v = Some (a[nat i := v])"
  by (simp add: aset_def)

lemma aref_None_iff: "aref a i = None \<longleftrightarrow> i < 0 \<or> int (length a) \<le> i"
  by (auto simp: aref_def)

lemma aset_None_iff: "aset a i v = None \<longleftrightarrow> i < 0 \<or> int (length a) \<le> i"
  by (auto simp: aset_def)

lemma aset_length: "aset a i v = Some b \<Longrightarrow> length b = length a"
  by (auto simp: aset_def split: if_splits)

section \<open>Lists\<close>

text \<open>Exchange of two neighbouring elements, the step every bubbling loop makes.\<close>

definition swap :: "nat \<Rightarrow> 'a list \<Rightarrow> 'a list" where
  "swap i xs = xs[i := xs ! Suc i, Suc i := xs ! i]"

lemma length_swap [simp]: "length (swap i xs) = length xs"
  by (simp add: swap_def)

lemma swap_append: "swap (length xs) (xs @ a # b # ys) = xs @ b # a # ys"
  by (simp add: swap_def nth_append list_update_append)

lemma map_swap: "Suc i < length xs \<Longrightarrow> map f (swap i xs) = swap i (map f xs)"
  by (simp add: swap_def map_update)

lemma list_split_at:
  "i < length xs \<Longrightarrow> xs = take i xs @ xs ! i # drop (Suc i) xs"
  by (rule id_take_nth_drop)

lemma take_append_length [simp]: "take (length xs) (xs @ ys) = xs"
  by simp

lemma drop_append_length [simp]: "drop (length xs) (xs @ ys) = ys"
  by simp

lemma bind_eq_Some_conv': "Option.bind m f = Some y \<longleftrightarrow> (\<exists>x. m = Some x \<and> f x = Some y)"
  by (cases m) auto

lemma nat_int_less_iff: "0 \<le> i \<Longrightarrow> nat i < n \<longleftrightarrow> i < int n"
  by auto

text \<open>Removal of the first element that satisfies a predicate.\<close>

fun remove_first :: "('a \<Rightarrow> bool) \<Rightarrow> 'a list \<Rightarrow> 'a list" where
  "remove_first p [] = []"
| "remove_first p (x # xs) = (if p x then xs else x # remove_first p xs)"

lemma remove_first_none: "\<forall>x \<in> set xs. \<not> p x \<Longrightarrow> remove_first p xs = xs"
  by (induction xs) auto

lemma remove_first_at:
  "k < length xs \<Longrightarrow> p (xs ! k) \<Longrightarrow> \<forall>i < k. \<not> p (xs ! i) \<Longrightarrow>
   remove_first p xs = take k xs @ drop (Suc k) xs"
proof (induction xs arbitrary: k)
  case (Cons x xs)
  show ?case
  proof (cases k)
    case (Suc l)
    with Cons.prems have "\<not> p x" "\<forall>i < l. \<not> p (xs ! i)" by force+
    with Suc Cons show ?thesis by simp
  qed (use Cons.prems in simp)
qed simp

lemma filter_remove_first: "filter (\<lambda>x. \<not> p x) (remove_first p xs) = filter (\<lambda>x. \<not> p x) xs"
  by (induction xs) auto

lemma sorted_remove_first: "sorted (map f xs) \<Longrightarrow> sorted (map f (remove_first p xs))"
proof (induction xs)
  case (Cons x xs)
  moreover have "set (remove_first p xs) \<subseteq> set xs" by (induction xs) auto
  ultimately show ?case by auto
qed simp

section \<open>Total correctness of fallible computations\<close>

text \<open>
  \<open>returns m Q\<close>: the computation \<open>m\<close> has defined behaviour and its result satisfies \<open>Q\<close>.  The
  proofs about the programs compose their steps with \<open>returns_bind\<close>.
\<close>

definition returns :: "'a option \<Rightarrow> ('a \<Rightarrow> bool) \<Rightarrow> bool" where
  "returns m Q = (\<exists>x. m = Some x \<and> Q x)"

lemma returns_Some [simp]: "returns (Some x) Q = Q x"
  by (simp add: returns_def)

lemma returns_None [simp]: "\<not> returns None Q"
  by (simp add: returns_def)

lemma returns_bind: "returns m P \<Longrightarrow> (\<And>x. P x \<Longrightarrow> returns (f x) Q) \<Longrightarrow> returns (m \<bind> f) Q"
  by (auto simp: returns_def)

lemma returns_mono: "returns m P \<Longrightarrow> (\<And>x. P x \<Longrightarrow> Q x) \<Longrightarrow> returns m Q"
  by (auto simp: returns_def)

lemma returnsE: "returns m Q \<Longrightarrow> (\<And>x. m = Some x \<Longrightarrow> Q x \<Longrightarrow> R) \<Longrightarrow> R"
  by (auto simp: returns_def)

lemma returns_aref: "0 \<le> i \<Longrightarrow> i < int (length a) \<Longrightarrow> returns (aref a i) Q = Q (a ! nat i)"
  by (simp add: aref_def)

lemma returns_aset:
  "0 \<le> i \<Longrightarrow> i < int (length a) \<Longrightarrow> returns (aset a i v) Q = Q (a[nat i := v])"
  by (simp add: aset_def)

end
