(* ===== verification/CLib.thy ===== *)
theory CLib
  imports Prelude "HOL-Library.Char_ord" "HOL-Library.List_Lexorder"
begin

text \<open>
  The part of the C standard library the programs use: NUL-terminated strings in fixed-size
  character arrays (\<open>strlen\<close>, \<open>strcpy\<close>, \<open>strcat\<close>, \<open>strcmp\<close>, \<open>memset\<close>), formatted and line input
  (\<open>scanf\<close>, \<open>fgets\<close>), decimal conversion (\<open>atoi\<close>, \<open>%d\<close>).  A character array is the list of all
  its bytes, junk after the terminator included; writing past its end or reading a string that
  has no terminator inside its array is undefined behaviour, \<open>None\<close>.
\<close>

section \<open>Strings in character arrays\<close>

definition NUL :: char where "NUL = CHR 0x00"

definition NL :: char where "NL = CHR 0x0A"

text \<open>The string stored at the start of an array, and the array that a literal denotes.\<close>

definition cstr :: "char list \<Rightarrow> string" where
  "cstr b = takeWhile (\<lambda>c. c \<noteq> NUL) b"

definition lit :: "string \<Rightarrow> char list" where
  "lit s = s @ [NUL]"

definition rd_str :: "char list \<Rightarrow> string option" where
  "rd_str b = (if NUL \<in> set b then Some (cstr b) else None)"

definition wr_at :: "'a list \<Rightarrow> nat \<Rightarrow> 'a list \<Rightarrow> 'a list option" where
  "wr_at b off bs =
     (if off + length bs \<le> length b
      then Some (take off b @ bs @ drop (off + length bs) b) else None)"

definition strlen :: "char list \<Rightarrow> nat option" where
  "strlen b = map_option length (rd_str b)"

definition strcpy :: "char list \<Rightarrow> char list \<Rightarrow> char list option" where
  "strcpy dst src = do { s \<leftarrow> rd_str src; wr_at dst 0 (s @ [NUL]) }"

definition strcat :: "char list \<Rightarrow> char list \<Rightarrow> char list option" where
  "strcat dst src =
     do { d \<leftarrow> rd_str dst; s \<leftarrow> rd_str src; wr_at dst (length d) (s @ [NUL]) }"

text \<open>\<open>strcmp\<close> compares bytes as unsigned characters; only the sign of its result is specified.\<close>

fun strcmp_bytes :: "string \<Rightarrow> string \<Rightarrow> int" where
  "strcmp_bytes [] [] = 0"
| "strcmp_bytes [] (y # ys) = -1"
| "strcmp_bytes (x # xs) [] = 1"
| "strcmp_bytes (x # xs) (y # ys) =
     (if x = y then strcmp_bytes xs ys
      else if (of_char x :: nat) < of_char y then -1 else 1)"

definition strcmp :: "char list \<Rightarrow> char list \<Rightarrow> int option" where
  "strcmp a b = do { x \<leftarrow> rd_str a; y \<leftarrow> rd_str b; Some (strcmp_bytes x y) }"

lemma cstr_lit: "NUL \<notin> set s \<Longrightarrow> cstr (s @ NUL # r) = s"
  by (induction s) (auto simp: cstr_def)

lemma NUL_notin_cstr [simp]: "NUL \<notin> set (cstr b)"
  by (auto simp: cstr_def dest: set_takeWhileD)

lemma cstr_decomp: "NUL \<in> set b \<Longrightarrow> \<exists>r. b = cstr b @ NUL # r"
proof (induction b)
  case (Cons a b)
  then show ?case by (cases "a = NUL") (auto simp: cstr_def)
qed simp

lemma length_cstr: "NUL \<in> set b \<Longrightarrow> length (cstr b) < length b"
  using cstr_decomp by (metis length_append less_add_same_cancel1 length_greater_0_conv list.distinct(1))

lemma cstr_id: "NUL \<notin> set s \<Longrightarrow> cstr s = s"
  by (simp add: cstr_def takeWhile_eq_all_conv) (metis)

lemma rd_str_Some [cmem]: "NUL \<in> set b \<Longrightarrow> rd_str b = Some (cstr b)"
  by (simp add: rd_str_def)

lemma rd_str_lit [cmem]: "NUL \<notin> set s \<Longrightarrow> rd_str (lit s) = Some s"
  by (simp add: rd_str_def lit_def cstr_lit)

lemma wr_at_Some [cmem]:
  "off + length bs \<le> length b \<Longrightarrow>
   wr_at b off bs = Some (take off b @ bs @ drop (off + length bs) b)"
  by (simp add: wr_at_def)

lemma wr_at_length: "wr_at b off bs = Some b' \<Longrightarrow> length b' = length b"
  by (auto simp: wr_at_def split: if_splits)

lemma strcmp_bytes_less: "strcmp_bytes x y < 0 \<longleftrightarrow> x < y"
  by (induction x y rule: strcmp_bytes.induct) (auto simp: less_char_def)

lemma strcmp_bytes_eq: "strcmp_bytes x y = 0 \<longleftrightarrow> x = y"
  by (induction x y rule: strcmp_bytes.induct) auto

text \<open>The string functions on arrays that hold strings.\<close>

lemma strlen_Some [cmem]: "NUL \<in> set b \<Longrightarrow> strlen b = Some (length (cstr b))"
  by (simp add: strlen_def cmem)

lemma strcmp_Some [cmem]:
  "NUL \<in> set a \<Longrightarrow> NUL \<in> set b \<Longrightarrow> strcmp a b = Some (strcmp_bytes (cstr a) (cstr b))"
  by (simp add: strcmp_def cmem)

lemma strcpy_Some:
  assumes "NUL \<in> set src" "length (cstr src) < length dst"
  obtains d where "strcpy dst src = Some d" "length d = length dst" "NUL \<in> set d"
    "cstr d = cstr src"
proof
  let ?d = "cstr src @ NUL # drop (Suc (length (cstr src))) dst"
  show "strcpy dst src = Some ?d" using assms by (simp add: strcpy_def cmem)
  show "length ?d = length dst" using assms by simp
  show "NUL \<in> set ?d" by simp
  show "cstr ?d = cstr src" by (simp add: cstr_lit)
qed

lemma strcat_Some:
  assumes "NUL \<in> set src" "NUL \<in> set dst" "length (cstr dst) + length (cstr src) < length dst"
  obtains d where "strcat dst src = Some d" "length d = length dst" "NUL \<in> set d"
    "cstr d = cstr dst @ cstr src"
proof
  let ?n = "Suc (length (cstr dst) + length (cstr src))"
  let ?d = "(cstr dst @ cstr src) @ NUL # drop ?n dst"
  obtain r where r: "dst = cstr dst @ NUL # r" using cstr_decomp [OF assms(2)] by blast
  then have "take (length (cstr dst)) dst = cstr dst" by (metis append_eq_conv_conj)
  then show "strcat dst src = Some ?d" using assms by (simp add: strcat_def cmem)
  show "length ?d = length dst" using assms by simp
  show "NUL \<in> set ?d" by simp
  show "cstr ?d = cstr dst @ cstr src" by (rule cstr_lit) (auto dest: subsetD)
qed

lemma strcpy_returns:
  assumes "NUL \<in> set src" "length (cstr src) < length dst"
  shows "returns (strcpy dst src)
    (\<lambda>d. length d = length dst \<and> NUL \<in> set d \<and> cstr d = cstr src)"
  using strcpy_Some [OF assms] by (auto simp: returns_def)

lemma strcat_returns:
  assumes "NUL \<in> set src" "NUL \<in> set dst" "length (cstr dst) + length (cstr src) < length dst"
  shows "returns (strcat dst src)
    (\<lambda>d. length d = length dst \<and> NUL \<in> set d \<and> cstr d = cstr dst @ cstr src)"
  using strcat_Some [OF assms] by (auto simp: returns_def)

lemma strcpy_None: "NUL \<in> set src \<Longrightarrow> length dst \<le> length (cstr src) \<Longrightarrow> strcpy dst src = None"
  by (simp add: strcpy_def cmem wr_at_def)

text \<open>Writing a terminator inside a string cuts it.\<close>

lemma cstr_cut:
  assumes "NUL \<in> set b" "k \<le> length (cstr b)"
  shows "NUL \<in> set (b[k := NUL])" "cstr (b[k := NUL]) = take k (cstr b)"
proof -
  obtain r where r: "b = cstr b @ NUL # r" using cstr_decomp [OF assms(1)] by blast
  have k: "k < length b" using assms(2) length_cstr [OF assms(1)] by simp
  then show "NUL \<in> set (b[k := NUL])" by (metis in_set_conv_nth length_list_update nth_list_update_eq)
  have t: "take k b = take k (cstr b)" using assms(2) by (subst r) simp
  have "b[k := NUL] = take k (cstr b) @ NUL # drop (Suc k) b" using k t by (simp add: upd_conv_take_nth_drop)
  moreover have "NUL \<notin> set (take k (cstr b))" by (meson NUL_notin_cstr in_set_takeD)
  ultimately show "cstr (b[k := NUL]) = take k (cstr b)" by (simp add: cstr_lit)
qed

section \<open>Input\<close>

text \<open>
  \<open>isspace\<close> of the C locale; the conversion \<open>%s\<close> of \<open>scanf\<close> skips white space, then stores the
  longest run of other characters with a terminator, whatever the size of the array.  At end of
  input it stores nothing and the result is \<open>EOF\<close>.
\<close>

definition isspace :: "char \<Rightarrow> bool" where
  "isspace c = (c = CHR '' '' \<or> c = CHR 0x09 \<or> c = CHR 0x0A \<or> c = CHR 0x0B \<or> c = CHR 0x0C
     \<or> c = CHR 0x0D)"

definition scanf_s :: "char list \<Rightarrow> string \<Rightarrow> (int \<times> char list \<times> string) option" where
  "scanf_s buf inp =
     (let s = dropWhile isspace inp in
      if s = [] then Some (-1, buf, [])
      else do { b \<leftarrow> wr_at buf 0 (takeWhile (\<lambda>c. \<not> isspace c) s @ [NUL]);
                Some (1, b, dropWhile (\<lambda>c. \<not> isspace c) s) })"

text \<open>\<open>scanf("%s %s", a, b)\<close>: the second field is read only if the first was.\<close>

definition scanf_ss ::
  "char list \<Rightarrow> char list \<Rightarrow> string \<Rightarrow> (char list \<times> char list \<times> string) option" where
  "scanf_ss a b inp =
     do { (r, a', rest) \<leftarrow> scanf_s a inp;
          if r = 1 then do { (_, b', rest') \<leftarrow> scanf_s b rest; Some (a', b', rest') }
          else Some (a', b, rest) }"

text \<open>
  \<open>fgets\<close> reads up to and including the next newline, at most \<open>n - 1\<close> characters; the result is
  \<open>NULL\<close> (\<open>False\<close>) when there was nothing to read.
\<close>

definition next_line :: "nat \<Rightarrow> string \<Rightarrow> string" where
  "next_line m inp = take m (takeWhile (\<lambda>c. c \<noteq> NL) inp @ take 1 (dropWhile (\<lambda>c. c \<noteq> NL) inp))"

definition fgets ::
  "char list \<Rightarrow> nat \<Rightarrow> string \<Rightarrow> (bool \<times> char list \<times> string) option" where
  "fgets buf n inp =
     (let l = next_line (n - 1) inp in
      if l = [] then Some (False, buf, inp)
      else do { b \<leftarrow> wr_at buf 0 (l @ [NUL]); Some (True, b, drop (length l) inp) })"

lemma next_line_nonempty: "0 < m \<Longrightarrow> next_line m inp = [] \<longleftrightarrow> inp = []"
  by (cases inp) (auto simp: next_line_def take_Cons' split: if_splits)

lemma fgets_shorter:
  "fgets buf n inp = Some (True, b, rest) \<Longrightarrow> length rest < length inp"
proof -
  assume "fgets buf n inp = Some (True, b, rest)"
  then have ne: "next_line (n - 1) inp \<noteq> []" and "rest = drop (length (next_line (n - 1) inp)) inp"
    by (auto simp: fgets_def Let_def split: if_splits Option.bind_splits)
  moreover from ne have "inp \<noteq> []" by (auto simp: next_line_def)
  ultimately show ?thesis by simp
qed

lemma next_line_line:
  assumes "NL \<notin> set l" "length l < m"
  shows "next_line m (l @ NL # rest) = l @ [NL]"
proof -
  have "takeWhile (\<lambda>c. c \<noteq> NL) (l @ NL # rest) = l"
    and "dropWhile (\<lambda>c. c \<noteq> NL) (l @ NL # rest) = NL # rest"
    using assms(1) by (induction l) auto
  then show ?thesis using assms(2) by (simp add: next_line_def)
qed

lemma fgets_returns:
  assumes "NL \<notin> set l" "NUL \<notin> set l" "length l + 1 < n" "n \<le> length buf"
  shows "returns (fgets buf n (l @ NL # rest)) (\<lambda>(g, b, r). g \<and> r = rest \<and>
    length b = length buf \<and> NUL \<in> set b \<and> cstr b = l @ [NL])"
proof -
  have nl: "next_line (n - 1) (l @ NL # rest) = l @ [NL]"
    using assms by (intro next_line_line) auto
  have "cstr ((l @ [NL]) @ NUL # x) = l @ [NL]" for x
    using assms(2) by (intro cstr_lit) (auto simp: NL_def NUL_def)
  then show ?thesis using assms by (simp add: fgets_def Let_def nl [simplified] cmem)
qed

lemma fgets_eof: "fgets buf n [] = Some (False, buf, [])"
  by (simp add: fgets_def next_line_def)

lemma token_split:
  assumes "t \<noteq> []" "\<forall>c \<in> set t. \<not> isspace c" "isspace d"
  shows "dropWhile isspace (t @ d # rest) = t @ d # rest"
    and "takeWhile (\<lambda>c. \<not> isspace c) (t @ d # rest) = t"
    and "dropWhile (\<lambda>c. \<not> isspace c) (t @ d # rest) = d # rest"
proof -
  show "dropWhile isspace (t @ d # rest) = t @ d # rest" using assms by (cases t) auto
  show "takeWhile (\<lambda>c. \<not> isspace c) (t @ d # rest) = t"
    "dropWhile (\<lambda>c. \<not> isspace c) (t @ d # rest) = d # rest"
    using assms(2,3) by (induction t) auto
qed

lemma scanf_s_token:
  assumes "t \<noteq> []" "\<forall>c \<in> set t. \<not> isspace c" "isspace d" "length t < length buf" "NUL \<notin> set t"
  obtains b where "scanf_s buf (t @ d # rest) = Some (1, b, d # rest)"
    "length b = length buf" "NUL \<in> set b" "cstr b = t"
proof
  let ?b = "t @ NUL # drop (Suc (length t)) buf"
  show "scanf_s buf (t @ d # rest) = Some (1, ?b, d # rest)"
    using assms token_split [OF assms(1,2,3), of rest] by (simp add: scanf_s_def Let_def cmem)
  show "length ?b = length buf" using assms by simp
  show "NUL \<in> set ?b" by simp
  show "cstr ?b = t" by (rule cstr_lit) (rule assms(5))
qed

lemma scanf_s_returns:
  assumes "t \<noteq> []" "\<forall>c \<in> set t. \<not> isspace c" "isspace d" "length t < length buf" "NUL \<notin> set t"
  shows "returns (scanf_s buf (t @ d # rest))
    (\<lambda>(r, b, i). r = 1 \<and> i = d # rest \<and> length b = length buf \<and> NUL \<in> set b \<and> cstr b = t)"
  using scanf_s_token [OF assms, of rest] by (auto simp: returns_def)

lemma scanf_s_skip: "\<forall>c \<in> set pre. isspace c \<Longrightarrow> scanf_s buf (pre @ rest) = scanf_s buf rest"
  by (induction pre) (simp_all add: scanf_s_def)

section \<open>Decimal numbers\<close>

fun show_nat :: "nat \<Rightarrow> string" where
  "show_nat n = (if n < 10 then [char_of (48 + n)] else show_nat (n div 10) @ [char_of (48 + n mod 10)])"

declare show_nat.simps [simp del]

definition show_int :: "int \<Rightarrow> string" where
  "show_int i = (if i < 0 then CHR ''-'' # show_nat (nat (- i)) else show_nat (nat i))"

definition isdigit :: "char \<Rightarrow> bool" where
  "isdigit c = (48 \<le> (of_char c :: nat) \<and> of_char c \<le> (57 :: nat))"

definition digits_val :: "string \<Rightarrow> nat" where
  "digits_val s = foldl (\<lambda>v c. 10 * v + (of_char c - 48)) 0 s"

text \<open>
  \<open>atoi\<close> skips white space, takes an optional sign and the longest run of digits; the behaviour
  is undefined when the value does not fit in an \<open>int\<close>.
\<close>

definition atoi :: "char list \<Rightarrow> int option" where
  "atoi b =
     do { s \<leftarrow> rd_str b;
          let t = dropWhile isspace s;
          let neg = (t \<noteq> [] \<and> hd t = CHR ''-'');
          let u = (if t \<noteq> [] \<and> (hd t = CHR ''-'' \<or> hd t = CHR ''+'') then tl t else t);
          let v = int (digits_val (takeWhile isdigit u));
          let r = (if neg then - v else v);
          if - (2 ^ 31) \<le> r \<and> r < 2 ^ 31 then Some r else None }"

section \<open>Observable effects\<close>

text \<open>
  What a program shows to the outside, in order: text on the standard output, a command handed
  to the shell by \<open>system\<close>.
\<close>

datatype out = Print string | Shell string

section \<open>Splitting a string at a separator\<close>

text \<open>The reference for the programs' tokenisers: the fields of a string between separators.\<close>

fun split_on :: "char \<Rightarrow> string \<Rightarrow> string list" where
  "split_on c [] = [[]]"
| "split_on c (x # xs) =
     (if x = c then [] # split_on c xs
      else (x # hd (split_on c xs)) # tl (split_on c xs))"

fun join_with :: "char \<Rightarrow> string list \<Rightarrow> string" where
  "join_with c [] = []"
| "join_with c [w] = w"
| "join_with c (w # v # ws) = w @ c # join_with c (v # ws)"

lemma split_on_nonempty [simp]: "split_on c s \<noteq> []"
  by (cases s) auto

lemma length_split_on: "length (split_on c s) = Suc (count_list s c)"
  by (induction s) auto

lemma join_split: "join_with c (split_on c s) = s"
proof (induction s)
  case (Cons x xs)
  obtain w ws where "split_on c xs = w # ws" by (cases "split_on c xs") auto
  with Cons show ?case by (cases ws) auto
qed simp

lemma split_on_no_sep: "c \<notin> set s \<Longrightarrow> split_on c s = [s]"
  by (induction s) auto

lemma split_on_append: "c \<notin> set w \<Longrightarrow> split_on c (w @ c # s) = w # split_on c s"
  by (induction w) auto

lemma split_join:
  "ws \<noteq> [] \<Longrightarrow> \<forall>w \<in> set ws. c \<notin> set w \<Longrightarrow> split_on c (join_with c ws) = ws"
  by (induction c ws rule: join_with.induct) (auto simp: split_on_no_sep split_on_append)

text \<open>
  A tokeniser that works in place overwrites the separators with terminators and collects the
  offset of every field: \<open>nulled\<close> is the array it leaves, \<open>offsets\<close> the fields after the first.
\<close>

definition nulled :: "char \<Rightarrow> string \<Rightarrow> string" where
  "nulled c s = map (\<lambda>x. if x = c then NUL else x) s"

fun offsets :: "char \<Rightarrow> nat \<Rightarrow> string \<Rightarrow> nat list" where
  "offsets c p [] = []"
| "offsets c p (x # xs) = (if x = c then Suc p # offsets c (Suc p) xs else offsets c (Suc p) xs)"

lemma length_offsets [simp]: "length (offsets c p s) = count_list s c"
  by (induction s arbitrary: p) auto

lemma offsets_bound: "o' \<in> set (offsets c p s) \<Longrightarrow> p < o' \<and> o' \<le> p + length s"
  by (induction s arbitrary: p) (auto split: if_splits dest: le_SucI Suc_leD simp: less_Suc_eq_le, fastforce+)

lemma fields_of_offsets:
  assumes "NUL \<notin> set s"
  shows "map (\<lambda>o'. cstr (drop o' (u @ nulled c s @ NUL # r))) (length u # offsets c (length u) s)
     = split_on c s"
  using assms
proof (induction s arbitrary: u)
  case Nil
  then show ?case by (simp add: nulled_def cstr_def)
next
  case (Cons x xs)
  let ?y = "if x = c then NUL else x"
  have IH: "map (\<lambda>o'. cstr (drop o' (u @ nulled c (x # xs) @ NUL # r)))
      (Suc (length u) # offsets c (Suc (length u)) xs) = split_on c xs"
    using Cons.IH [of "u @ [?y]"] Cons.prems by (simp add: nulled_def)
  have hd: "cstr (drop (length u) (u @ nulled c (x # xs) @ NUL # r)) =
      (if x = c then [] else x # cstr (drop (Suc (length u)) (u @ nulled c (x # xs) @ NUL # r)))"
    using Cons.prems by (auto simp: nulled_def cstr_def)
  show ?case using hd by (auto simp: IH [symmetric] simp del: drop_append)
qed

lemma split_three:
  "c \<notin> set a \<Longrightarrow> c \<notin> set b \<Longrightarrow> c \<notin> set d \<Longrightarrow> split_on c (a @ c # b @ c # d) = [a, b, d]"
  by (simp add: split_on_append split_on_no_sep)

end
