(* ===== verification/Console.thy ===== *)
theory Console
  imports CLib
begin

text \<open>
  Programs driven by a menu: words typed on lines of their own, reading them with \<open>scanf\<close>, and the
  interface \<open>command_shell\<close> between a command loop and the operations behind it.  The lemma about
  whole sessions is proved once, for any program whose single commands keep the contract.
\<close>

section \<open>Typed words\<close>

text \<open>How one round of a command loop ends: go on, leave the loop, return from \<open>main\<close>.\<close>

datatype ctl = Continue | Break | Return int

text \<open>
  What becomes of \<open>fork\<close> and \<open>execl\<close> in the programs that start another one: it is started, or it is not found
  and the child goes on with the text of its parent, or there is no child.
\<close>

datatype launch = Started | Not_found | Not_forked

definition token :: "nat \<Rightarrow> string \<Rightarrow> bool" where
  "token n t \<longleftrightarrow> t \<noteq> [] \<and> length t < n \<and> NUL \<notin> set t \<and> (\<forall>c \<in> set t. \<not> isspace c)"

definition type_in :: "string list \<Rightarrow> string" where
  "type_in ts = concat (map (\<lambda>t. t @ [NL]) ts)"

lemma NL_space [simp]: "isspace NL"
  by (simp add: isspace_def NL_def)

lemma NL_neq [simp]: "NL \<noteq> NUL" "NUL \<noteq> NL" "NL \<noteq> CHR '' ''" "CHR '' '' \<noteq> NL"
  "CHR '' '' \<noteq> NUL" "NUL \<noteq> CHR '' ''"
  by (simp_all add: NL_def NUL_def)

lemma type_in_Cons: "type_in (t # ts) = t @ NL # type_in ts"
  by (simp add: type_in_def)

lemma strcmp_lit: "NUL \<in> set b \<Longrightarrow> NUL \<notin> set t \<Longrightarrow> strcmp b (lit t) = Some (strcmp_bytes (cstr b) t)"
  by (simp add: strcmp_def cmem)

text \<open>Input whose next token follows some white space, and reading that token.\<close>

definition at_input :: "string \<Rightarrow> string \<Rightarrow> bool" where
  "at_input inp rest \<longleftrightarrow> (\<exists>pre. (\<forall>c \<in> set pre. isspace c) \<and> inp = pre @ rest)"

lemma at_input_start [simp]: "at_input inp inp"
  unfolding at_input_def by (rule exI [of _ "[]"]) simp

lemma at_input_NL [simp]: "at_input (NL # rest) rest"
  unfolding at_input_def by (rule exI [of _ "[NL]"]) simp

lemma scan_token:
  assumes "token n t" "n \<le> length buf" "at_input inp (type_in (t # ts) @ rest)"
  shows "returns (scanf_s buf inp) (\<lambda>(r, b, i). r = 1 \<and>
    i = NL # type_in ts @ rest \<and> length b = length buf \<and> NUL \<in> set b \<and> cstr b = t)"
proof -
  obtain pre where pre: "\<forall>c \<in> set pre. isspace c" "inp = pre @ type_in (t # ts) @ rest"
    using assms(3) by (auto simp: at_input_def)
  have "returns (scanf_s buf (t @ NL # type_in ts @ rest))
    (\<lambda>(r, b, i). r = 1 \<and> i = NL # type_in ts @ rest \<and> length b = length buf \<and> NUL \<in> set b \<and> cstr b = t)"
    by (rule scanf_s_returns) (use assms in \<open>auto simp: token_def\<close>)
  then show ?thesis using scanf_s_skip [OF pre(1), of buf] pre(2) by (simp add: type_in_Cons)
qed

lemma scan_tokenE:
  assumes "token n t" "n \<le> length buf" "at_input inp (type_in (t # ts) @ rest)"
  obtains b where "scanf_s buf inp = Some (1, b, NL # type_in ts @ rest)" "length b = length buf"
    "NUL \<in> set b" "cstr b = t"
  using scan_token [OF assms] by (auto elim!: returnsE)

section \<open>The interface of a command loop\<close>

text \<open>The reference run of a list of commands, on an abstract state.\<close>

fun run_script ::
  "out list \<Rightarrow> ('c \<Rightarrow> 'v \<Rightarrow> 'v) \<Rightarrow> ('c \<Rightarrow> 'v \<Rightarrow> out list) \<Rightarrow> 'c list \<Rightarrow> 'v \<Rightarrow> 'v \<times> out list" where
  "run_script hello eff ans [] v = (v, [])"
| "run_script hello eff ans (c # cmds) v =
     (let (v', os) = run_script hello eff ans cmds (eff c v) in (v', hello @ ans c v @ os))"

text \<open>What is typed: the words of every command, then those that leave the loop.\<close>

definition script :: "('c \<Rightarrow> string list) \<Rightarrow> string list \<Rightarrow> 'c list \<Rightarrow> string" where
  "script toks bye cmds = concat (map (\<lambda>c. type_in (toks c)) cmds) @ type_in bye"

lemma script_Nil: "script toks bye [] = type_in bye"
  by (simp add: script_def)

lemma script_Cons: "script toks bye (c # cs) = type_in (toks c) @ script toks bye cs"
  by (simp add: script_def)

text \<open>Every command is acceptable in the state it is given in.\<close>

fun ok_run :: "('c \<Rightarrow> 'v \<Rightarrow> bool) \<Rightarrow> ('c \<Rightarrow> 'v \<Rightarrow> 'v) \<Rightarrow> 'c list \<Rightarrow> 'v \<Rightarrow> bool" where
  "ok_run ok eff [] v \<longleftrightarrow> True"
| "ok_run ok eff (c # cmds) v \<longleftrightarrow> ok c v \<and> ok_run ok eff cmds (eff c v)"

locale command_shell =
  fixes env_ok :: "'e \<Rightarrow> bool"
    and step :: "'e \<Rightarrow> 'w \<Rightarrow> (ctl \<times> 'w) option"
    and loop :: "nat \<Rightarrow> 'e \<Rightarrow> 'w \<Rightarrow> (ctl \<times> 'w) option"
    and ready :: "'w \<Rightarrow> string \<Rightarrow> bool"
    and inv :: "'w \<Rightarrow> bool"
    and view :: "'w \<Rightarrow> 'v"
    and shown :: "'w \<Rightarrow> out list"
    and hello :: "out list"
    and toks :: "'c \<Rightarrow> string list"
    and bye :: "string list"
    and ok :: "'c \<Rightarrow> 'v \<Rightarrow> bool"
    and eff :: "'c \<Rightarrow> 'v \<Rightarrow> 'v"
    and ans :: "'c \<Rightarrow> 'v \<Rightarrow> out list"
  assumes loop_Suc: "loop (Suc fuel) e w =
      do { (c, w') \<leftarrow> step e w; (case c of Continue \<Rightarrow> loop fuel e w' | _ \<Rightarrow> Some (c, w')) }"
    and step_cmd: "env_ok e \<Longrightarrow> ok c (view w) \<Longrightarrow> ready w (type_in (toks c) @ rest) \<Longrightarrow>
      returns (step e w) (\<lambda>(ct, w'). ct = Continue \<and> ready w' rest \<and> view w' = eff c (view w) \<and>
        shown w' = shown w @ hello @ ans c (view w))"
    and step_exit: "env_ok e \<Longrightarrow> ready w (type_in bye @ rest) \<Longrightarrow>
      returns (step e w) (\<lambda>(ct, w'). ct = Break \<and> inv w' \<and> view w' = view w \<and>
        shown w' = shown w @ hello)"
begin

lemma loop_session:
  assumes "env_ok e" "ok_run ok eff cmds (view w)" "ready w (script toks bye cmds @ rest)"
    "length cmds < fuel"
  shows "returns (loop fuel e w) (\<lambda>(ct, w'). ct = Break \<and> inv w' \<and>
     view w' = fst (run_script hello eff ans cmds (view w)) \<and>
     shown w' = shown w @ snd (run_script hello eff ans cmds (view w)) @ hello)"
  using assms(2-)
proof (induction cmds arbitrary: w fuel)
  case Nil
  obtain f where f: "fuel = Suc f" using Nil.prems by (cases fuel) auto
  have "ready w (type_in bye @ rest)" using Nil.prems(2) by (simp add: script_Nil)
  from step_exit [OF assms(1) this] show ?case by (auto simp: f loop_Suc elim!: returnsE)
next
  case (Cons c cmds)
  obtain f where f: "fuel = Suc f" "length cmds < f" using Cons.prems by (cases fuel) auto
  have "ready w (type_in (toks c) @ script toks bye cmds @ rest)" "ok c (view w)"
    using Cons.prems(1,2) by (simp_all add: script_Cons)
  from step_cmd [OF assms(1) this(2,1)] obtain w1 where w1: "step e w = Some (Continue, w1)"
    "ready w1 (script toks bye cmds @ rest)" "view w1 = eff c (view w)"
    "shown w1 = shown w @ hello @ ans c (view w)"
    by (auto elim!: returnsE)
  have "ok_run ok eff cmds (view w1)" using Cons.prems(1) w1(3) by simp
  from Cons.IH [OF this w1(2) f(2)] show ?case using w1
    by (auto simp: f(1) loop_Suc case_prod_beta Let_def elim!: returnsE)
qed

text \<open>In particular a session returns: the loop does not run out of fuel and nothing is undefined.\<close>

lemma loop_terminates:
  assumes "env_ok e" "ok_run ok eff cmds (view w)" "ready w (script toks bye cmds @ rest)"
  shows "\<exists>w'. loop (Suc (length cmds)) e w = Some (Break, w')"
  using loop_session [OF assms, of "Suc (length cmds)"] by (auto elim!: returnsE)

end

end
