(* ===== verification/CommandShell.thy ===== *)
theory CommandShell
  imports Console
begin

text \<open>
  The user interface the two contact books share: the menu, its commands and the text of a session.
\<close>

section \<open>The menu and its commands\<close>

definition prompt :: "out list" where
  "prompt =
     [Print (''commands: 1)add contact 2)delete contact 3)print all contacts 4)find contact 5)exit''
        @ [NL]), Print ''write command:'']"

datatype cmd = Add string string string | Del string string | Show | Find string string

fun tokens :: "cmd \<Rightarrow> string list" where
  "tokens (Add n s d) = [''1'', n, s, d]"
| "tokens (Del n s) = [''2'', n, s]"
| "tokens Show = [''3'']"
| "tokens (Find n s) = [''4'', n, s]"

text \<open>Every field must leave room for its terminator, the number also for a newline.\<close>

fun valid_cmd :: "cmd \<Rightarrow> bool" where
  "valid_cmd (Add n s d) \<longleftrightarrow> token 20 n \<and> token 20 s \<and> token 19 d"
| "valid_cmd (Del n s) \<longleftrightarrow> token 20 n \<and> token 20 s"
| "valid_cmd Show \<longleftrightarrow> True"
| "valid_cmd (Find n s) \<longleftrightarrow> token 20 n \<and> token 20 s"

fun is_add :: "cmd \<Rightarrow> bool" where
  "is_add (Add n s d) = True"
| "is_add _ = False"

lemma digit_token: "c \<in> {CHR ''1'', CHR ''2'', CHR ''3'', CHR ''4'', CHR ''5''} \<Longrightarrow> token 20 [c]"
  by (auto simp: token_def isspace_def NUL_def)

lemma tokens_digit:
  obtains d ts where "tokens c = [d] # ts"
    "d \<in> {CHR ''1'', CHR ''2'', CHR ''3'', CHR ''4'', CHR ''5''}"
  by (cases c) auto

text \<open>The number of a command, and the five comparisons that select its branch.\<close>

lemma read_number:
  assumes "at_input inp (type_in (t # ts) @ rest)" "token 20 t" "length num = 20"
  obtains nm where "scanf_s num inp = Some (1, nm, NL # type_in ts @ rest)" "length nm = 20"
    "strcmp nm (lit ''1'') = Some (strcmp_bytes t ''1'')"
    "strcmp nm (lit ''2'') = Some (strcmp_bytes t ''2'')"
    "strcmp nm (lit ''3'') = Some (strcmp_bytes t ''3'')"
    "strcmp nm (lit ''4'') = Some (strcmp_bytes t ''4'')"
    "strcmp nm (lit ''5'') = Some (strcmp_bytes t ''5'')"
proof -
  have n: "20 \<le> length num" using assms(3) by simp
  obtain nm where nm: "scanf_s num inp = Some (1, nm, NL # type_in ts @ rest)" "length nm = length num"
    "NUL \<in> set nm" "cstr nm = t"
    by (rule scan_tokenE [OF assms(2) n assms(1)])
  show ?thesis
    by (rule that [OF nm(1)]) (use nm assms(3) in \<open>simp_all add: strcmp_lit NUL_def\<close>)
qed

text \<open>A session types the words of the commands and leaves the loop with 5.\<close>

abbreviation session :: "cmd list \<Rightarrow> string" where
  "session \<equiv> script tokens [''5'']"

abbreviation run_cmds ::
  "(cmd \<Rightarrow> 'v \<Rightarrow> 'v) \<Rightarrow> (cmd \<Rightarrow> 'v \<Rightarrow> out list) \<Rightarrow> cmd list \<Rightarrow> 'v \<Rightarrow> 'v \<times> out list" where
  "run_cmds \<equiv> run_script (prompt @ [Shell ''clear''])"

end
