(* ===== verification/Bubble.thy ===== *)
theory Bubble
  imports Prelude
begin

text \<open>
  The sorting scheme of the contact books, on an abstract list with a key: a pass that moves one
  element to its place in a sorted suffix by exchanging neighbours, run from the right end to the
  left.  It is insertion sort from the right, so it computes the stable \<open>sort_key\<close> of the
  library, which is what the refinement proofs of both contact books use.
\<close>

function bubble :: "('a \<Rightarrow> 'k::linorder) \<Rightarrow> nat \<Rightarrow> nat \<Rightarrow> 'a list \<Rightarrow> 'a list" where
  "bubble key n j xs =
     (if j < n then
        bubble key n (Suc j) (if key (xs ! j) < key (xs ! (j - 1)) then swap (j - 1) xs else xs)
      else xs)"
  by pat_completeness auto
termination by (relation "measure (\<lambda>(key, n, j, xs). n - j)") auto

declare bubble.simps [simp del]

fun bsort :: "('a \<Rightarrow> 'k::linorder) \<Rightarrow> nat \<Rightarrow> nat \<Rightarrow> 'a list \<Rightarrow> 'a list" where
  "bsort key n 0 xs = xs"
| "bsort key n (Suc i) xs =
     bsort key n i
       (if key (xs ! Suc i) < key (xs ! i) then bubble key n (Suc i) (swap i xs) else xs)"

lemma length_bubble [simp]: "length (bubble key n j xs) = length xs"
proof (induction key n j xs rule: bubble.induct)
  case (1 key n j xs)
  then show ?case by (subst bubble.simps) auto
qed

lemma bubble_sorted:
  assumes "sorted (map key (x # ys))"
  shows "bubble key (Suc (length pre + length ys)) (Suc (length pre)) (pre @ x # ys @ rest)
     = pre @ x # ys @ rest"
  using assms
proof (induction ys arbitrary: pre x)
  case Nil
  then show ?case by (subst bubble.simps) simp
next
  case (Cons y ys)
  have nth: "(pre @ x # (y # ys) @ rest) ! Suc (length pre) = y"
    "(pre @ x # (y # ys) @ rest) ! length pre = x" by (simp_all add: nth_append)
  have "\<not> key y < key x" using Cons.prems by auto
  moreover have "sorted (map key (y # ys))" using Cons.prems by simp
  from Cons.IH [OF this, of "pre @ [x]"]
  have "bubble key (Suc (length pre + length (y # ys))) (Suc (Suc (length pre)))
      (pre @ x # (y # ys) @ rest) = pre @ x # (y # ys) @ rest" by simp
  ultimately show ?case using nth by (subst bubble.simps) simp
qed

lemma bubble_insort:
  assumes "sorted (map key ys)"
  shows "bubble key (Suc (length pre + length ys)) (Suc (length pre)) (pre @ x # ys @ rest)
     = pre @ insort_key key x ys @ rest"
  using assms
proof (induction ys arbitrary: pre)
  case Nil
  then show ?case by (subst bubble.simps) simp
next
  case (Cons y ys)
  let ?xs = "pre @ x # (y # ys) @ rest"
  have nth: "?xs ! Suc (length pre) = y" "?xs ! length pre = x" by (simp_all add: nth_append)
  show ?case
  proof (cases "key y < key x")
    case True
    have sw: "swap (length pre) (pre @ x # y # ys @ rest) = pre @ y # x # ys @ rest"
      by (simp add: swap_append)
    have "sorted (map key ys)" using Cons.prems by simp
    from Cons.IH [OF this, of "pre @ [y]"]
    have "bubble key (Suc (length pre + length (y # ys))) (Suc (Suc (length pre)))
        (swap (length pre) ?xs) = pre @ y # insort_key key x ys @ rest" by (simp add: sw)
    moreover have "\<not> key x \<le> key y" using True by simp
    ultimately show ?thesis using True nth by (subst bubble.simps) simp
  next
    case False
    then have "sorted (map key (x # y # ys))" using Cons.prems by auto
    moreover have "key x \<le> key y" using False by simp
    ultimately show ?thesis using bubble_sorted [of key x "y # ys" pre rest] by simp
  qed
qed

lemma bsort_foldr:
  assumes "sorted (map key suf)" "suf \<noteq> []"
  shows "bsort key (length p + length suf) (length p) (p @ suf @ rest)
     = foldr (insort_key key) p suf @ rest"
  using assms
proof (induction p arbitrary: suf rule: rev_induct)
  case Nil
  then show ?case by simp
next
  case (snoc x p)
  obtain y ys where suf: "suf = y # ys" using snoc.prems by (cases suf) auto
  let ?xs = "p @ x # y # ys @ rest"
  have nth: "?xs ! Suc (length p) = y" "?xs ! length p = x" by (simp_all add: nth_append)
  have step: "(if key y < key x
      then bubble key (Suc (length p + length suf)) (Suc (length p)) (swap (length p) ?xs)
      else ?xs) = p @ insort_key key x suf @ rest"
  proof (cases "key y < key x")
    case True
    have "sorted (map key ys)" using snoc.prems suf by simp
    from bubble_insort [OF this, of "p @ [y]" x rest]
    have "bubble key (Suc (length p + length suf)) (Suc (Suc (length p))) (p @ y # x # ys @ rest)
        = p @ y # insort_key key x ys @ rest" by (simp add: suf)
    moreover have "bubble key (Suc (length p + length suf)) (Suc (length p)) (p @ y # x # ys @ rest)
        = bubble key (Suc (length p + length suf)) (Suc (Suc (length p))) (p @ y # x # ys @ rest)"
      using True by (subst bubble.simps) (auto simp: nth_append suf)
    moreover have "\<not> key x \<le> key y" using True by simp
    ultimately show ?thesis using True suf by (simp add: swap_append)
  next
    case False
    then have "key x \<le> key y" by simp
    with False show ?thesis using suf by simp
  qed
  have "sorted (map key (insort_key key x suf))"
    using snoc.prems(1) by (simp add: sorted_insort_key)
  moreover have "insort_key key x suf \<noteq> []" by (metis insort_not_Nil)
  ultimately have IH: "bsort key (length p + length (insort_key key x suf)) (length p)
      (p @ insort_key key x suf @ rest) = foldr (insort_key key) p (insort_key key x suf) @ rest"
    by (rule snoc.IH)
  have "bsort key (length (p @ [x]) + length suf) (length (p @ [x])) ?xs
      = bsort key (Suc (length p + length suf)) (length p) (p @ insort_key key x suf @ rest)"
    by (simp only: length_append_singleton bsort.simps nth add_Suc step)
  then show ?case using IH by (simp add: suf del: insort_key.simps bsort.simps)
qed

theorem bsort_sort_key:
  assumes "0 < n" "n \<le> length xs"
  shows "bsort key n (n - 1) xs = sort_key key (take n xs) @ drop n xs"
proof -
  have "take n xs \<noteq> []" using assms by auto
  then obtain p y where p: "take n xs = p @ [y]" by (metis append_butlast_last_id)
  have n: "n = Suc (length p)" using p assms by (metis length_append_singleton length_take min.absorb2)
  have "bsort key (length p + 1) (length p) (p @ [y] @ drop n xs)
      = foldr (insort_key key) p [y] @ drop n xs" using bsort_foldr [of key "[y]" p] by simp
  moreover have "p @ [y] @ drop n xs = xs" by (metis append.assoc append_take_drop_id p)
  moreover have "foldr (insort_key key) p [y] = sort_key key (take n xs)"
    by (simp add: p sort_key_def)
  ultimately show ?thesis using n by simp
qed

text \<open>Inserting the elements of a list one by one, sorting each time, sorts the whole.\<close>

lemma sort_key_append_sorted:
  "sort_key f (sort_key f xs @ ys) = sort_key f (xs @ ys)"
proof (rule properties_for_sort_key)
  show "mset (sort_key f (xs @ ys)) = mset (sort_key f xs @ ys)" by simp
  show "filter (\<lambda>x. f k = f x) (sort_key f (xs @ ys)) = filter (\<lambda>x. f k = f x) (sort_key f xs @ ys)"
    for k by (simp add: sort_key_stable eq_commute [of "f k"])
  show "sorted (map f (sort_key f (xs @ ys)))" by simp
qed

lemma foldl_insert_sorted:
  "foldl (\<lambda>cs c. sort_key f (cs @ [c])) (sort_key f xs) ys = sort_key f (xs @ ys)"
  by (induction ys arbitrary: xs) (simp_all add: sort_key_append_sorted)

lemma sort_key_id: "sorted (map f xs) \<Longrightarrow> sort_key f xs = xs"
  by (rule sort_key_id_if_sorted)

end
