(* ===== verification/ContactBook.thy ===== *)
theory ContactBook
  imports CommandShell Bubble
begin

text \<open>
  The contact book on the heap, \<open>heap/task.c\<close>: the record \<open>Sub\<close> of three character arrays, the
  tokeniser \<open>stok\<close>, the insertion sort \<open>sort\<close>, and the operations of the book.  All indices are
  C \<open>int\<close>s; every array access is checked against the block that \<open>malloc\<close> or \<open>realloc\<close> returned.
\<close>

section \<open>Data\<close>

record Sub =
  name :: "char list"
  surename :: "char list"
  number :: "char list"

text \<open>
  The field \<open>arr\<close> is a C pointer: indeterminate after \<open>malloc\<close> of the book, null after a failed
  allocation, or the start of a block of contacts.
\<close>

datatype sub_ptr = Uninit | Null | Block "Sub list"

record Contact_book =
  bsize :: int
  arr :: sub_ptr

text \<open>
  The outcome of one call of \<open>malloc\<close> or \<open>realloc\<close>: failure, or success together with what
  the fresh elements of the block happen to hold.
\<close>

type_synonym alloc = "(nat \<Rightarrow> Sub) option"

definition realloc_sub :: "alloc \<Rightarrow> nat \<Rightarrow> Sub list \<Rightarrow> sub_ptr" where
  "realloc_sub al n old =
     (case al of None \<Rightarrow> Null
      | Some junk \<Rightarrow> Block (take n old @ map junk [length old ..< n]))"

section \<open>Operations\<close>

definition new_contact_book :: "bool \<Rightarrow> Contact_book option" where
  "new_contact_book ok = (if ok then Some \<lparr>bsize = 0, arr = Uninit\<rparr> else None)"

text \<open>\<open>free\<close> of an indeterminate pointer is undefined; \<open>free(NULL)\<close> does nothing.\<close>

definition free_book :: "Contact_book \<Rightarrow> unit option" where
  "free_book book = (case arr book of Uninit \<Rightarrow> None | _ \<Rightarrow> Some ())"

definition copy_sub :: "Sub \<Rightarrow> Sub \<Rightarrow> Sub option" where
  "copy_sub dest src =
     do { n \<leftarrow> strcpy (name dest) (name src);
          s \<leftarrow> strcpy (surename dest) (surename src);
          m \<leftarrow> strcpy (number dest) (number src);
          Some \<lparr>name = n, surename = s, number = m\<rparr> }"

text \<open>
  \<open>stok\<close>: the pointer \<open>str\<close> is the offset \<open>p\<close> into the array \<open>b\<close>, the array \<open>words\<close> of \<open>cap\<close>
  pointers is the list \<open>ws\<close> of offsets written so far, \<open>count\<close> is its length.
\<close>

function stok_loop ::
  "nat \<Rightarrow> char \<Rightarrow> nat \<Rightarrow> char list \<Rightarrow> nat list \<Rightarrow> (int \<times> char list \<times> nat list) option" where
  "stok_loop cap symbol p b ws =
     (if length b \<le> p then None
      else if b ! p = NUL then Some (int (length ws), b, ws)
      else if b ! p = symbol then
        (if length ws < cap then stok_loop cap symbol (Suc p) (b[p := NUL]) (ws @ [Suc p])
         else None)
      else stok_loop cap symbol (Suc p) b ws)"
  by pat_completeness auto
termination by (relation "measure (\<lambda>(cap, symbol, p, b, ws). length b - p)") auto

definition stok :: "nat \<Rightarrow> char list \<Rightarrow> char \<Rightarrow> (int \<times> char list \<times> nat list) option" where
  "stok cap str symbol = (if 0 < cap then stok_loop cap symbol 0 str [0] else None)"

text \<open>
  The two loops of \<open>sort\<close>.  The local variables \<open>tmp\<close> and \<open>tmp2\<close> start with indeterminate
  contents, the parameter \<open>u\<close>.
\<close>

definition swap_subs :: "Sub \<Rightarrow> int \<Rightarrow> int \<Rightarrow> Sub list \<Rightarrow> Sub list option" where
  \<comment> \<open>\<open>copy_sub(&tmp, &a[x]); copy_sub(&a[x], &a[y]); copy_sub(&a[y], &tmp)\<close>\<close>
  "swap_subs u x y a =
     do { ax \<leftarrow> aref a x; tmp \<leftarrow> copy_sub u ax;
          ay \<leftarrow> aref a y; ax' \<leftarrow> copy_sub ax ay; a1 \<leftarrow> aset a x ax';
          ay1 \<leftarrow> aref a1 y; ay' \<leftarrow> copy_sub ay1 tmp; aset a1 y ay' }"

function sort_inner :: "Sub \<Rightarrow> int \<Rightarrow> int \<Rightarrow> Sub list \<Rightarrow> Sub list option" where
  "sort_inner u sz j a =
     (if j < sz then
        do { x \<leftarrow> aref a j; y \<leftarrow> aref a (j - 1);
             c \<leftarrow> strcmp (name x) (name y);
             a' \<leftarrow> (if c < 0 then swap_subs u (j - 1) j a else Some a);
             sort_inner u sz (j + 1) a' }
      else Some a)"
  by pat_completeness auto
termination by (relation "measure (\<lambda>(u, sz, j, a). nat (sz - j))") auto

function sort_outer :: "Sub \<Rightarrow> int \<Rightarrow> int \<Rightarrow> Sub list \<Rightarrow> Sub list option" where
  "sort_outer u sz i a =
     (if 0 \<le> i then
        do { x \<leftarrow> aref a (i + 1); y \<leftarrow> aref a i;
             c \<leftarrow> strcmp (name x) (name y);
             a' \<leftarrow> (if c < 0
                    then do { a1 \<leftarrow> swap_subs u (i + 1) i a; sort_inner u sz (i + 1) a1 }
                    else Some a);
             sort_outer u sz (i - 1) a' }
      else Some a)"
  by pat_completeness auto
termination by (relation "measure (\<lambda>(u, sz, i, a). nat (i + 1))") auto

declare stok_loop.simps [simp del] sort_inner.simps [simp del] sort_outer.simps [simp del]

definition sort_book :: "Sub \<Rightarrow> Contact_book \<Rightarrow> Contact_book option" where
  "sort_book u book =
     (case arr book of
        Block a \<Rightarrow> do { a' \<leftarrow> sort_outer u (bsize book) (bsize book - 2) a;
                        Some (book\<lparr>arr := Block a'\<rparr>) }
      | _ \<Rightarrow> (if 0 \<le> bsize book - 2 then None else Some book))"

text \<open>
  \<open>add_sub\<close>: result \<open>-1\<close> and a null \<open>arr\<close> when the allocation fails, \<open>0\<close> otherwise.  \<open>realloc\<close>
  of a null pointer is \<open>malloc\<close>, of an indeterminate one undefined.
\<close>

definition add_sub :: "alloc \<Rightarrow> Sub \<Rightarrow> Contact_book \<Rightarrow> Sub \<Rightarrow> (int \<times> Contact_book) option" where
  "add_sub al u book sb =
     (if bsize book > 0 then
        do { old \<leftarrow> (case arr book of Uninit \<Rightarrow> None | Null \<Rightarrow> Some [] | Block a \<Rightarrow> Some a);
             (case realloc_sub al (nat (bsize book + 1)) old of
                Block a \<Rightarrow>
                  do { d \<leftarrow> aref a (bsize book); d' \<leftarrow> copy_sub d sb; a' \<leftarrow> aset a (bsize book) d';
                       book' \<leftarrow> sort_book u (book\<lparr>arr := Block a', bsize := bsize book + 1\<rparr>);
                       Some (0, book') }
              | p \<Rightarrow> Some (-1, book\<lparr>arr := p\<rparr>)) }
      else if bsize book = 0 then
        (case realloc_sub al 1 [] of
           Block a \<Rightarrow>
             do { d \<leftarrow> aref a (bsize book); d' \<leftarrow> copy_sub d sb; a' \<leftarrow> aset a (bsize book) d';
                  Some (0, book\<lparr>arr := Block a', bsize := bsize book + 1\<rparr>) }
         | p \<Rightarrow> Some (-1, book\<lparr>arr := p\<rparr>))
      else Some (0, book))"

text \<open>
  The test \<open>strcmp(x.name, sb->name) == 0 && strcmp(x.surename, sb->surename) == 0\<close>; the second
  comparison is made only if the first holds.
\<close>

definition match_sub :: "Sub \<Rightarrow> Sub \<Rightarrow> bool option" where
  "match_sub x sb =
     do { c1 \<leftarrow> strcmp (name x) (name sb);
          if c1 = 0 then do { c2 \<leftarrow> strcmp (surename x) (surename sb); Some (c2 = 0) }
          else Some False }"

text \<open>\<open>del_sub\<close>: the search for the first match, and the loop that moves the rest down.\<close>

function del_find :: "int \<Rightarrow> int \<Rightarrow> Sub list \<Rightarrow> Sub \<Rightarrow> int option option" where
  "del_find sz i a sb =
     (if i < sz then
        do { x \<leftarrow> aref a i; m \<leftarrow> match_sub x sb;
             if m then Some (Some i) else del_find sz (i + 1) a sb }
      else Some None)"
  by pat_completeness auto
termination by (relation "measure (\<lambda>(sz, i, a, sb). nat (sz - i))") auto

function del_shift :: "int \<Rightarrow> int \<Rightarrow> Sub list \<Rightarrow> Sub list option" where
  "del_shift sz j a =
     (if j < sz - 1 then
        do { d \<leftarrow> aref a j; s \<leftarrow> aref a (j + 1); d' \<leftarrow> copy_sub d s; a' \<leftarrow> aset a j d';
             del_shift sz (j + 1) a' }
      else Some a)"
  by pat_completeness auto
termination by (relation "measure (\<lambda>(sz, j, a). nat (sz - j))") auto

definition not_found :: "out list" where
  "not_found = [Print [NL], Print (''Contact Not found'' @ [NL]), Print [NL]]"

definition del_sub ::
  "alloc \<Rightarrow> Contact_book \<Rightarrow> Sub \<Rightarrow> (int \<times> Contact_book \<times> out list) option" where
  "del_sub al book sb =
     (case arr book of
        Block a \<Rightarrow>
          do { r \<leftarrow> del_find (bsize book) 0 a sb;
               (case r of
                  None \<Rightarrow> Some (0, book, not_found)
                | Some i \<Rightarrow>
                    do { a' \<leftarrow> del_shift (bsize book) i a;
                         let sz = bsize book - 1;
                         (case realloc_sub al (nat (sz + 1)) a' of
                            Block b \<Rightarrow> Some (0, book\<lparr>bsize := sz, arr := Block b\<rparr>, [])
                          | q \<Rightarrow> Some (-1, book\<lparr>bsize := sz, arr := q\<rparr>, [])) }) }
      | _ \<Rightarrow> (if 0 < bsize book then None else Some (0, book, not_found)))"

text \<open>\<open>lookup\<close> prints every match.\<close>

function lookup_loop :: "int \<Rightarrow> int \<Rightarrow> Sub list \<Rightarrow> Sub \<Rightarrow> out list option" where
  "lookup_loop sz i a sb =
     (if i < sz then
        do { x \<leftarrow> aref a i; m \<leftarrow> match_sub x sb;
             os \<leftarrow> lookup_loop sz (i + 1) a sb;
             if m then
               do { n \<leftarrow> rd_str (name x); s \<leftarrow> rd_str (surename x); t \<leftarrow> rd_str (number x);
                    Some (Print [NL] #
                      Print (''Contact ['' @ n @ '' '' @ s @ ''] --> '' @ t @ [NL]) # os) }
             else Some os }
      else Some [])"
  by pat_completeness auto
termination by (relation "measure (\<lambda>(sz, i, a, sb). nat (sz - i))") auto

definition lookup :: "Contact_book \<Rightarrow> Sub \<Rightarrow> out list option" where
  "lookup book sb =
     (case arr book of
        Block a \<Rightarrow>
          do { os \<leftarrow> lookup_loop (bsize book) 0 a sb;
               Some (if os = [] then not_found else os) }
      | _ \<Rightarrow> (if 0 < bsize book then None else Some not_found))"

text \<open>\<open>print_subs\<close>; the sign before the number is the UTF-8 encoding of U+2116.\<close>

definition rule_line :: string where
  "rule_line = replicate 56 (CHR ''-'') @ [NL]"

definition numero :: string where
  "numero = [CHR 0xE2, CHR 0x84, CHR 0x96]"

function print_loop :: "int \<Rightarrow> int \<Rightarrow> Sub list \<Rightarrow> out list option" where
  "print_loop sz i a =
     (if i < sz then
        do { x \<leftarrow> aref a i;
             n \<leftarrow> rd_str (name x); s \<leftarrow> rd_str (surename x); t \<leftarrow> rd_str (number x);
             os \<leftarrow> print_loop sz (i + 1) a;
             Some (Print (''Contact'' @ numero @ show_int (i + 1) @ '' - ['' @ n @ '' '' @ s
                     @ ''] --> '' @ t) # Print rule_line # os) }
      else Some [])"
  by pat_completeness auto
termination by (relation "measure (\<lambda>(sz, i, a). nat (sz - i))") auto

declare del_find.simps [simp del] del_shift.simps [simp del] lookup_loop.simps [simp del]
  print_loop.simps [simp del]

definition print_subs :: "Contact_book \<Rightarrow> out list option" where
  "print_subs book =
     (case arr book of
        Block a \<Rightarrow> do { os \<leftarrow> print_loop (bsize book) 0 a;
                        Some (Print rule_line # os @ [Print [NL]]) }
      | _ \<Rightarrow> (if 0 < bsize book then None else Some [Print rule_line, Print [NL]]))"

section \<open>The program\<close>

text \<open>
  What the program does not determine: the outcomes of the allocations, numbered in the order
  they are made, and the indeterminate contents of the local arrays.
\<close>

record env =
  e_alloc :: "nat \<Rightarrow> alloc"
  e_sub :: Sub
  e_mass :: "char list"
  e_num :: "char list"
  e_arr :: "char list"

definition CONTACT_SIZE :: nat where "CONTACT_SIZE = 100"

text \<open>The loop that reads \<open>book.txt\<close>; the result \<open>-1\<close> is the early return of \<open>main\<close>.\<close>

function load_loop ::
  "env \<Rightarrow> char list \<Rightarrow> string \<Rightarrow> nat \<Rightarrow> Contact_book \<Rightarrow> (int \<times> Contact_book \<times> nat) option" where
  "load_loop e mass file k book =
     (case fgets mass CONTACT_SIZE file of
        None \<Rightarrow> None
      | Some (got, mass1, rest) \<Rightarrow>
          (if \<not> got then Some (0, book, k)
           else
             do { c \<leftarrow> strcmp mass1 (lit [NL]);
                  if c \<noteq> 0 then
                    do { (count, mass2, words) \<leftarrow> stok 3 mass1 (CHR '' '');
                         if count = 3 then
                           do { n \<leftarrow> strcpy (name (e_sub e)) (drop (words ! 0) mass2);
                                s \<leftarrow> strcpy (surename (e_sub e)) (drop (words ! 1) mass2);
                                m \<leftarrow> strcpy (number (e_sub e)) (drop (words ! 2) mass2);
                                (r, book') \<leftarrow> add_sub (e_alloc e k) (e_sub e) book
                                                \<lparr>name = n, surename = s, number = m\<rparr>;
                                if r = -1 then Some (-1, book', Suc k)
                                else load_loop e mass2 rest (Suc k) book' }
                         else load_loop e mass2 rest k book }
                  else load_loop e mass1 rest k book }))"
  by pat_completeness auto
termination by (relation "measure (\<lambda>(e, mass, file, k, book). length file)")
    (auto dest: fgets_shorter)

declare load_loop.simps [simp del]

record world =
  book :: Contact_book
  num :: "char list"
  stdin :: string
  outs :: "out list"
  nalloc :: nat

text \<open>
  The branches of the command loop, from the point where the command has been read.
\<close>

definition cmd_add :: "env \<Rightarrow> world \<Rightarrow> (ctl \<times> world) option" where
  "cmd_add e w =
     do { (_, n, in1) \<leftarrow> scanf_s (name (e_sub e)) (stdin w);
          (_, s, in2) \<leftarrow> scanf_s (surename (e_sub e)) in1;
          (_, m, in3) \<leftarrow> scanf_s (number (e_sub e)) in2;
          m' \<leftarrow> strcat m (lit [NL]);
          let os = outs w @ [Print ''enter name: '', Print ''enter surename: '',
                             Print ''enter number: '', Print [NL]];
          (r, b') \<leftarrow> add_sub (e_alloc e (nalloc w)) (e_sub e) (book w)
                       \<lparr>name = n, surename = s, number = m'\<rparr>;
          let w' = w\<lparr>book := b', stdin := in3, nalloc := Suc (nalloc w), outs := os\<rparr>;
          Some (if r = -1
                then (Return (-1), w'\<lparr>outs := os @ [Print (''Can't allocate memory'' @ [NL])]\<rparr>)
                else (Continue, w')) }"

definition ask_sub :: "env \<Rightarrow> world \<Rightarrow> (Sub \<times> world) option" where
  "ask_sub e w =
     do { (n, s, in1) \<leftarrow> scanf_ss (name (e_sub e)) (surename (e_sub e)) (stdin w);
          Some ((e_sub e)\<lparr>name := n, surename := s\<rparr>,
            w\<lparr>stdin := in1,
              outs := outs w @ [Print ''Enter Name and Surename of sub: '']\<rparr>) }"

definition cmd_del :: "env \<Rightarrow> world \<Rightarrow> (ctl \<times> world) option" where
  "cmd_del e w =
     do { (sb, w1) \<leftarrow> ask_sub e w;
          (r, b', os) \<leftarrow> del_sub (e_alloc e (nalloc w1)) (book w1) sb;
          let w2 = w1\<lparr>book := b', nalloc := Suc (nalloc w1), outs := outs w1 @ os\<rparr>;
          Some (if r = -1
                then (Return (-1),
                  w2\<lparr>outs := outs w2 @ [Print (''Can't Reallocate memory'' @ [NL])]\<rparr>)
                else (Continue, w2)) }"

definition cmd_find :: "env \<Rightarrow> world \<Rightarrow> (ctl \<times> world) option" where
  "cmd_find e w =
     do { (sb, w1) \<leftarrow> ask_sub e w; os \<leftarrow> lookup (book w1) sb;
          Some (Continue, w1\<lparr>outs := outs w1 @ os\<rparr>) }"

definition cmd_step :: "env \<Rightarrow> world \<Rightarrow> (ctl \<times> world) option" where
  "cmd_step e w0 =
     do { (_, nm, in1) \<leftarrow> scanf_s (num w0) (stdin w0);
          let w = w0\<lparr>num := nm, stdin := in1, outs := outs w0 @ prompt @ [Shell ''clear'']\<rparr>;
          c1 \<leftarrow> strcmp nm (lit ''1''); c2 \<leftarrow> strcmp nm (lit ''2''); c3 \<leftarrow> strcmp nm (lit ''3'');
          c4 \<leftarrow> strcmp nm (lit ''4''); c5 \<leftarrow> strcmp nm (lit ''5'');
          if c1 = 0 then cmd_add e w
          else if c2 = 0 then cmd_del e w
          else if c3 = 0 then
            do { os \<leftarrow> print_subs (book w); Some (Continue, w\<lparr>outs := outs w @ os\<rparr>) }
          else if c4 = 0 then cmd_find e w
          else if c5 = 0 then Some (Break, w)
          else Some (Continue, w\<lparr>outs := outs w @ [Print (''unknown Command'' @ [NL])]\<rparr>) }"

text \<open>
  The \<open>while (1)\<close> loop, run for at most \<open>fuel\<close> commands: the result \<open>Continue\<close> says that the
  loop is still running then.
\<close>

fun cmd_loop :: "nat \<Rightarrow> env \<Rightarrow> world \<Rightarrow> (ctl \<times> world) option" where
  "cmd_loop 0 e w = Some (Continue, w)"
| "cmd_loop (Suc fuel) e w =
     do { (c, w') \<leftarrow> cmd_step e w;
          (case c of Continue \<Rightarrow> cmd_loop fuel e w' | _ \<Rightarrow> Some (c, w')) }"

text \<open>The loop that writes \<open>book.txt\<close>; \<open>buf\<close> is the local array \<open>arr\<close>.\<close>

function save_loop :: "int \<Rightarrow> int \<Rightarrow> Sub list \<Rightarrow> char list \<Rightarrow> string \<Rightarrow> string option" where
  "save_loop sz i a buf file =
     (if i < sz then
        do { x \<leftarrow> aref a i;
             b1 \<leftarrow> strcpy buf (name x); b2 \<leftarrow> strcat b1 (lit '' '');
             b3 \<leftarrow> strcat b2 (surename x); b4 \<leftarrow> strcat b3 (lit '' '');
             b5 \<leftarrow> strcat b4 (number x); l \<leftarrow> rd_str b5;
             save_loop sz (i + 1) a b5 (file @ l) }
      else Some file)"
  by pat_completeness auto
termination by (relation "measure (\<lambda>(sz, i, a, buf, file). nat (sz - i))") auto

declare save_loop.simps [simp del]

definition save_book :: "env \<Rightarrow> Contact_book \<Rightarrow> string option" where
  "save_book e b =
     (case arr b of Block a \<Rightarrow> save_loop (bsize b) 0 a (e_arr e) []
      | _ \<Rightarrow> (if 0 < bsize b then None else Some []))"

text \<open>
  \<open>main\<close>: the result is how it ended (\<open>Return\<close> with an exit status, or \<open>Continue\<close> when still
  reading commands after \<open>fuel\<close> of them), the file \<open>book.txt\<close> afterwards (\<open>None\<close>: it does not
  exist) and the output.  \<open>book.txt\<close> is removed before the first command is read.
\<close>

definition main ::
  "env \<Rightarrow> nat \<Rightarrow> string option \<Rightarrow> string \<Rightarrow> (ctl \<times> string option \<times> out list) option" where
  "main e fuel file inp =
     do { b0 \<leftarrow> new_contact_book True;
          f \<leftarrow> file;
          (r, b1, k) \<leftarrow> load_loop e (e_mass e) f 0 b0;
          if r = -1 then
            Some (Return (-1), file, [Print (''Can't allocate memory'' @ [NL])])
          else
            do { (c, w) \<leftarrow> cmd_loop fuel e
                   \<lparr>book = b1, num = e_num e, stdin = inp, outs = [], nalloc = k\<rparr>;
                 (case c of
                    Break \<Rightarrow>
                      do { f' \<leftarrow> save_book e (book w); _ \<leftarrow> free_book (book w);
                           Some (Return 0, Some f', outs w) }
                  | _ \<Rightarrow> Some (c, None, outs w)) } }"

end
