(* ===== verification/ContactBook_Correct.thy ===== *)
theory ContactBook_Correct
  imports ContactBook
begin

text \<open>
  Correctness of \<open>heap/task.c\<close>: the arrays of a contact hold strings that fit, every operation
  keeps this, and on the abstract level (a list of triples of strings) the operations are a
  stable sort by name, an insertion, the removal of the first match and a filter.
\<close>

section \<open>Abstraction and invariant\<close>

type_synonym contact = "string \<times> string \<times> string"

definition raw_sub :: "Sub \<Rightarrow> bool" where
  "raw_sub s \<longleftrightarrow> length (name s) = 20 \<and> length (surename s) = 20 \<and> length (number s) = 20"

definition wf_sub :: "Sub \<Rightarrow> bool" where
  "wf_sub s \<longleftrightarrow> raw_sub s \<and> NUL \<in> set (name s) \<and> NUL \<in> set (surename s) \<and> NUL \<in> set (number s)"

definition abs_sub :: "Sub \<Rightarrow> contact" where
  "abs_sub s = (cstr (name s), cstr (surename s), cstr (number s))"

definition wf_block :: "Sub list \<Rightarrow> bool" where
  "wf_block a \<longleftrightarrow> (\<forall>s \<in> set a. wf_sub s)"

definition wf_book :: "Contact_book \<Rightarrow> bool" where
  "wf_book b \<longleftrightarrow> 0 \<le> bsize b \<and>
     (case arr b of Block a \<Rightarrow> wf_block a \<and> bsize b \<le> int (length a) | _ \<Rightarrow> bsize b = 0)"

definition contacts :: "Contact_book \<Rightarrow> contact list" where
  "contacts b = (case arr b of Block a \<Rightarrow> map abs_sub (take (nat (bsize b)) a) | _ \<Rightarrow> [])"

text \<open>An allocation that succeeds, and fresh elements of the right size.\<close>

definition good_alloc :: "alloc \<Rightarrow> bool" where
  "good_alloc al \<longleftrightarrow> (case al of None \<Rightarrow> False | Some junk \<Rightarrow> \<forall>i. raw_sub (junk i))"

lemma wf_sub_raw [simp]: "wf_sub s \<Longrightarrow> raw_sub s"
  by (simp add: wf_sub_def)

lemma wf_block_nth [simp]: "wf_block a \<Longrightarrow> i < length a \<Longrightarrow> wf_sub (a ! i)"
  by (simp add: wf_block_def)

lemma wf_block_update: "wf_block a \<Longrightarrow> wf_sub s \<Longrightarrow> wf_block (a[i := s])"
  by (auto simp: wf_block_def dest: set_update_subset_insert [THEN subsetD])

lemma wf_sub_strings:
  assumes "wf_sub s"
  shows "NUL \<in> set (name s)" "NUL \<in> set (surename s)" "NUL \<in> set (number s)"
    "length (cstr (name s)) < 20" "length (cstr (surename s)) < 20" "length (cstr (number s)) < 20"
  using assms length_cstr [of "name s"] length_cstr [of "surename s"] length_cstr [of "number s"]
  by (simp_all add: wf_sub_def raw_sub_def)

section \<open>Copying and sorting\<close>

lemma copy_sub_returns:
  assumes "raw_sub d" "wf_sub s"
  shows "returns (copy_sub d s) (\<lambda>d'. wf_sub d' \<and> abs_sub d' = abs_sub s)"
proof -
  note str = wf_sub_strings [OF assms(2)]
  have len: "length (name d) = 20" "length (surename d) = 20" "length (number d) = 20"
    using assms(1) by (simp_all add: raw_sub_def)
  show ?thesis unfolding copy_sub_def
    by (intro returns_bind [OF strcpy_returns])
      (use str len in \<open>auto simp: wf_sub_def raw_sub_def abs_sub_def\<close>)
qed

lemma swap_subs_returns:
  assumes "raw_sub u" "wf_block a" "0 \<le> x" "x < int (length a)" "0 \<le> y" "y < int (length a)" "x \<noteq> y"
  shows "returns (swap_subs u x y a) (\<lambda>a'. wf_block a' \<and>
     map abs_sub a' = (map abs_sub a)[nat x := abs_sub (a ! nat y), nat y := abs_sub (a ! nat x)])"
  unfolding swap_subs_def
proof (simp only: aref_Some [OF assms(3,4)] aref_Some [OF assms(5,6)] Option.bind.bind_lunit,
    intro returns_bind [OF copy_sub_returns])
  have nat: "nat x < length a" "nat y < length a" "nat x \<noteq> nat y" using assms by auto
  show "raw_sub u" "wf_sub (a ! nat x)" "raw_sub (a ! nat x)" "wf_sub (a ! nat y)"
    using assms nat by simp_all
  fix tmp ax' assume tmp: "wf_sub tmp \<and> abs_sub tmp = abs_sub (a ! nat x)"
    and ax': "wf_sub ax' \<and> abs_sub ax' = abs_sub (a ! nat y)"
  have a1: "aset a x ax' = Some (a[nat x := ax'])" "aref (a[nat x := ax']) y = Some (a ! nat y)"
    using assms nat by (simp_all add: cmem)
  have "returns (copy_sub (a ! nat y) tmp) (\<lambda>d. wf_sub d \<and> abs_sub d = abs_sub tmp)"
    using nat assms tmp by (intro copy_sub_returns) simp_all
  then show "returns (do { a1 \<leftarrow> aset a x ax'; ay1 \<leftarrow> aref a1 y; ay' \<leftarrow> copy_sub ay1 tmp;
        aset a1 y ay' }) (\<lambda>a'. wf_block a' \<and> map abs_sub a' =
          (map abs_sub a)[nat x := abs_sub (a ! nat y), nat y := abs_sub (a ! nat x)])"
    using assms tmp ax' by (simp add: a1)
      (erule returns_bind, auto simp: cmem wf_block_update map_update)
qed

text \<open>The exchange of two neighbours, in either order of the two indices.\<close>

lemma swap_subs_neighbours:
  assumes "raw_sub u" "wf_block a" "0 \<le> i" "i + 1 < int (length a)"
  shows "returns (swap_subs u i (i + 1) a)
      (\<lambda>a'. wf_block a' \<and> map abs_sub a' = swap (nat i) (map abs_sub a))" (is ?up)
    and "returns (swap_subs u (i + 1) i a)
      (\<lambda>a'. wf_block a' \<and> map abs_sub a' = swap (nat i) (map abs_sub a))" (is ?down)
proof -
  have n: "nat (i + 1) = Suc (nat i)" "Suc (nat i) < length a" using assms by auto
  show ?up
    by (rule returns_mono [OF swap_subs_returns]) (use assms n in \<open>auto simp: swap_def\<close>)
  show ?down
    by (rule returns_mono [OF swap_subs_returns])
      (use assms n in \<open>auto simp: swap_def list_update_swap\<close>)
qed

lemma name_less:
  assumes "wf_sub x" "wf_sub y"
  shows "strcmp (name x) (name y) = Some (strcmp_bytes (fst (abs_sub x)) (fst (abs_sub y)))"
  using wf_sub_strings [OF assms(1)] wf_sub_strings [OF assms(2)] by (simp add: cmem abs_sub_def)

lemma sort_inner_returns:
  assumes "raw_sub u" "wf_block a" "1 \<le> j" "sz \<le> int (length a)"
  shows "returns (sort_inner u sz j a)
    (\<lambda>a'. wf_block a' \<and> map abs_sub a' = bubble fst (nat sz) (nat j) (map abs_sub a))"
  using assms
proof (induction u sz j a rule: sort_inner.induct)
  case (1 u sz j a)
  show ?case
  proof (cases "j < sz")
    case False
    then have "\<not> nat j < nat sz" using "1.prems" by simp
    with False "1.prems" show ?thesis by (simp add: sort_inner.simps [of u sz j a] bubble.simps)
  next
    case True
    let ?c = "strcmp_bytes (fst (abs_sub (a ! nat j))) (fst (abs_sub (a ! nat (j - 1))))"
    have n: "nat j < length a" "nat (j - 1) < length a" "nat (j + 1) = Suc (nat j)"
      "nat (j - 1) = nat j - 1" "nat j < nat sz" "1 \<le> nat j"
      using True "1.prems" by auto
    have rd: "aref a j = Some (a ! nat j)" "aref a (j - 1) = Some (a ! nat (j - 1))"
      using True "1.prems" by (simp_all add: cmem)
    have cmp: "strcmp (name (a ! nat j)) (name (a ! nat (j - 1))) = Some ?c"
      using n "1.prems" by (intro name_less) simp_all
    have less: "?c < 0 \<longleftrightarrow> fst (map abs_sub a ! nat j) < fst (map abs_sub a ! (nat j - 1))"
      using n by (simp add: strcmp_bytes_less)
    have body: "returns (if ?c < 0 then swap_subs u (j - 1) j a else Some a)
      (\<lambda>a'. wf_block a' \<and> map abs_sub a' =
         (if fst (map abs_sub a ! nat j) < fst (map abs_sub a ! (nat j - 1))
          then swap (nat j - 1) (map abs_sub a) else map abs_sub a))"
      using swap_subs_neighbours(1) [of u a "j - 1"] "1.prems" True n
      by (auto simp: strcmp_bytes_less)
    have "returns (if ?c < 0 then swap_subs u (j - 1) j a else Some a)
      (\<lambda>a'. returns (sort_inner u sz (j + 1) a')
        (\<lambda>a''. wf_block a'' \<and> map abs_sub a'' = bubble fst (nat sz) (nat j) (map abs_sub a)))"
      using body
    proof (rule returnsE)
      fix a' assume m: "(if ?c < 0 then swap_subs u (j - 1) j a else Some a) = Some a'"
        and q: "wf_block a' \<and> map abs_sub a' =
         (if fst (map abs_sub a ! nat j) < fst (map abs_sub a ! (nat j - 1))
          then swap (nat j - 1) (map abs_sub a) else map abs_sub a)"
      have "length a' = length a" using q by (metis length_map length_swap)
      then have "returns (sort_inner u sz (j + 1) a')
        (\<lambda>a''. wf_block a'' \<and> map abs_sub a'' = bubble fst (nat sz) (nat (j + 1)) (map abs_sub a'))"
        using True rd cmp m q "1.prems" by (intro "1.IH") simp_all
      then show ?thesis using m q n
        by (simp add: bubble.simps [of fst "nat sz" "nat j" "map abs_sub a"])
    qed
    then show ?thesis using True rd cmp
      by (simp add: sort_inner.simps [of u sz j a]) (auto intro: returns_bind)
  qed
qed

lemma sort_outer_returns:
  assumes "raw_sub u" "wf_block a" "-1 \<le> i" "i + 1 < sz" "sz \<le> int (length a)"
  shows "returns (sort_outer u sz i a)
    (\<lambda>a'. wf_block a' \<and> map abs_sub a' = bsort fst (nat sz) (nat (i + 1)) (map abs_sub a))"
  using assms
proof (induction u sz i a rule: sort_outer.induct)
  case (1 u sz i a)
  show ?case
  proof (cases "0 \<le> i")
    case False
    with "1.prems" show ?thesis by (simp add: sort_outer.simps [of u sz i a])
  next
    case True
    let ?A = "map abs_sub a"
    let ?c = "strcmp_bytes (fst (abs_sub (a ! nat (i + 1)))) (fst (abs_sub (a ! nat i)))"
    let ?body = "if ?c < 0 then do { a1 \<leftarrow> swap_subs u (i + 1) i a; sort_inner u sz (i + 1) a1 }
      else Some a"
    let ?spec = "if fst (?A ! Suc (nat i)) < fst (?A ! nat i)
      then bubble fst (nat sz) (Suc (nat i)) (swap (nat i) ?A) else ?A"
    have n: "nat (i + 1) < length a" "nat i < length a" "nat (i + 1) = Suc (nat i)"
      using True "1.prems" by auto
    have rd: "aref a (i + 1) = Some (a ! nat (i + 1))" "aref a i = Some (a ! nat i)"
      using True "1.prems" by (simp_all add: cmem)
    have cmp: "strcmp (name (a ! nat (i + 1))) (name (a ! nat i)) = Some ?c"
      using n "1.prems" by (intro name_less) simp_all
    have less: "?c < 0 \<longleftrightarrow> fst (?A ! Suc (nat i)) < fst (?A ! nat i)"
      using n by (simp add: strcmp_bytes_less)
    have sw: "returns (do { a1 \<leftarrow> swap_subs u (i + 1) i a; sort_inner u sz (i + 1) a1 })
      (\<lambda>a'. wf_block a' \<and> map abs_sub a' = bubble fst (nat sz) (Suc (nat i)) (swap (nat i) ?A))"
    proof (rule returns_bind [OF swap_subs_neighbours(2)])
      fix a1 assume a1: "wf_block a1 \<and> map abs_sub a1 = swap (nat i) ?A"
      then have "length a1 = length a" by (metis length_map length_swap)
      with a1 True "1.prems" sort_inner_returns [of u a1 "i + 1" sz] n
      show "returns (sort_inner u sz (i + 1) a1) (\<lambda>a'. wf_block a' \<and>
          map abs_sub a' = bubble fst (nat sz) (Suc (nat i)) (swap (nat i) ?A))" by simp
    qed (use True "1.prems" in simp_all)
    have body: "returns ?body (\<lambda>a'. wf_block a' \<and> map abs_sub a' = ?spec)"
      using sw "1.prems" by (simp only: less) simp
    then have "returns ?body (\<lambda>a'. returns (sort_outer u sz (i - 1) a')
        (\<lambda>a''. wf_block a'' \<and> map abs_sub a'' = bsort fst (nat sz) (nat (i + 1)) ?A))"
    proof (rule returnsE)
      fix a' assume m: "?body = Some a'" and q: "wf_block a' \<and> map abs_sub a' = ?spec"
      from q have "length (map abs_sub a') = length ?spec" by (simp only:)
      then have len: "length a' = length a" by simp
      have "returns (sort_outer u sz (i - 1) a')
        (\<lambda>a''. wf_block a'' \<and> map abs_sub a'' = bsort fst (nat sz) (nat (i - 1 + 1)) (map abs_sub a'))"
        using True rd cmp m len conjunct1 [OF q] "1.prems" by (intro "1.IH") simp_all
      then show ?thesis unfolding m using q n by simp
    qed
    then have "returns (?body \<bind> sort_outer u sz (i - 1))
        (\<lambda>a''. wf_block a'' \<and> map abs_sub a'' = bsort fst (nat sz) (nat (i + 1)) ?A)"
      by (rule returns_bind)
    then show ?thesis using True rd cmp by (simp add: sort_outer.simps [of u sz i a])
  qed
qed

lemma take_map_abs: "map abs_sub (take n a) = take n (map abs_sub a)"
  by (rule take_map [symmetric])

lemma sort_book_returns:
  assumes "raw_sub u" "wf_book b" "0 < bsize b"
  shows "returns (sort_book u b)
    (\<lambda>b'. wf_book b' \<and> bsize b' = bsize b \<and> contacts b' = sort_key fst (contacts b))"
proof -
  obtain a where a: "arr b = Block a" "wf_block a" "bsize b \<le> int (length a)"
    using assms by (auto simp: wf_book_def split: sub_ptr.splits)
  let ?n = "nat (bsize b)"
  have n: "0 < ?n" "?n \<le> length (map abs_sub a)" "nat (bsize b - 1) = ?n - 1" using assms a by auto
  have "returns (sort_outer u (bsize b) (bsize b - 2) a)
    (\<lambda>a'. wf_block a' \<and> map abs_sub a' = sort_key fst (take ?n (map abs_sub a)) @ drop ?n (map abs_sub a))"
    by (rule returns_mono [OF sort_outer_returns])
      (use assms a n bsort_sort_key [of ?n "map abs_sub a" fst] in auto)
  then show ?thesis using a(1) n(2)
    by (simp add: sort_book_def)
      (erule returns_bind, auto simp: wf_book_def contacts_def take_map_abs assms(3) order_less_imp_le
        dest!: arg_cong [where f = length] simp flip: take_map)
qed

section \<open>Adding\<close>

lemma block_set_last:
  assumes "wf_block (take n a)" "length a = Suc n" "wf_sub s"
  shows "wf_block (a[n := s])"
proof -
  have "a[n := s] = take n a @ [s]"
    using assms(2) by (simp add: upd_conv_take_nth_drop)
  then show ?thesis using assms by (auto simp: wf_block_def)
qed

lemma realloc_grow:
  assumes "good_alloc al" "wf_block a" "n \<le> length a"
  obtains b where "realloc_sub al (Suc n) a = Block b" "length b = Suc n" "take n b = take n a"
    "\<And>i. i < Suc n \<Longrightarrow> raw_sub (b ! i)"
proof -
  obtain junk where al: "al = Some junk" and j: "\<And>i. raw_sub (junk i)"
    using assms(1) by (auto simp: good_alloc_def split: option.splits)
  let ?b = "take (Suc n) a @ map junk [length a ..< Suc n]"
  have "raw_sub (?b ! i)" if "i < Suc n" for i
    using that assms j by (auto simp: nth_append)
  moreover have "take n ?b = take n a" using assms(3) by simp
  moreover have "length ?b = Suc n" using assms(3) by auto
  ultimately show ?thesis using al by (intro that [of ?b]) (simp_all add: realloc_sub_def)
qed

lemma add_sub_returns:
  assumes al: "good_alloc al" and u: "raw_sub u" and b: "wf_book b" and s: "wf_sub s"
  shows "returns (add_sub al u b s) (\<lambda>(r, b'). r = 0 \<and> wf_book b' \<and> bsize b' = bsize b + 1 \<and>
     contacts b' = sort_key fst (contacts b @ [abs_sub s]))"
proof (cases "bsize b = 0")
  case True
  have "wf_block []" "(0::nat) \<le> length ([] :: Sub list)" by (simp_all add: wf_block_def)
  from realloc_grow [OF al this] obtain blk where blk: "realloc_sub al 1 [] = Block blk"
    "length blk = 1" "raw_sub (blk ! 0)" by auto
  have cs: "contacts b = []" using True by (simp add: contacts_def split: sub_ptr.splits)
  have "returns (copy_sub (blk ! 0) s) (\<lambda>d'. wf_sub d' \<and> abs_sub d' = abs_sub s)"
    using blk(3) s by (rule copy_sub_returns)
  then show ?thesis using True blk cs
    by (auto simp: add_sub_def cmem returns_def wf_book_def contacts_def wf_block_def
      length_Suc_conv)
next
  case False
  then obtain a where a: "arr b = Block a" "wf_block a" "bsize b \<le> int (length a)" "0 < bsize b"
    using b by (auto simp: wf_book_def split: sub_ptr.splits)
  let ?n = "nat (bsize b)"
  have n: "nat (bsize b + 1) = Suc ?n" "?n \<le> length a" using a by auto
  from realloc_grow [OF al a(2) n(2)] obtain blk where blk: "realloc_sub al (Suc ?n) a = Block blk"
    "length blk = Suc ?n" "take ?n blk = take ?n a" "raw_sub (blk ! ?n)" by auto
  have "wf_block (take ?n a)" using a(2) by (auto simp: wf_block_def dest: in_set_takeD)
  have "returns (copy_sub (blk ! ?n) s) (\<lambda>d'. wf_sub d' \<and> abs_sub d' = abs_sub s)"
    using blk(4) s by (rule copy_sub_returns)
  then show ?thesis
  proof (rule returnsE)
    fix d assume d: "copy_sub (blk ! ?n) s = Some d" "wf_sub d \<and> abs_sub d = abs_sub s"
    let ?b1 = "b\<lparr>arr := Block (blk[?n := d]), bsize := bsize b + 1\<rparr>"
    have "take (Suc ?n) (blk[?n := d]) = take ?n a @ [d]"
      using blk by (simp add: upd_conv_take_nth_drop)
    then have c1: "contacts ?b1 = contacts b @ [abs_sub s]"
      using a d by (simp add: contacts_def n)
    have "wf_block (blk[?n := d])"
      using block_set_last [of ?n blk d] blk d \<open>wf_block (take ?n a)\<close> by simp
    then have w1: "wf_book ?b1" using a blk by (simp add: wf_book_def)
    have "returns (sort_book u ?b1) (\<lambda>b'. wf_book b' \<and> bsize b' = bsize b + 1 \<and>
        contacts b' = sort_key fst (contacts b @ [abs_sub s]))"
      using sort_book_returns [OF u w1] a(4) by (simp add: c1)
    then show ?thesis using a blk d n
      by (auto simp: add_sub_def cmem returns_def)
  qed
qed

lemma add_sub_no_memory: "wf_book b \<Longrightarrow> add_sub None u b s = Some (-1, b\<lparr>arr := Null\<rparr>)"
  by (auto simp: add_sub_def realloc_sub_def wf_book_def split: sub_ptr.splits)

section \<open>Deleting and finding\<close>

definition matches :: "string \<Rightarrow> string \<Rightarrow> contact \<Rightarrow> bool" where
  "matches n s c \<longleftrightarrow> fst c = n \<and> fst (snd c) = s"

text \<open>What the operations need of the contact that names the one searched for.\<close>

definition key_sub :: "Sub \<Rightarrow> bool" where
  "key_sub s \<longleftrightarrow> NUL \<in> set (name s) \<and> NUL \<in> set (surename s)"

abbreviation key_match :: "Sub \<Rightarrow> contact \<Rightarrow> bool" where
  "key_match sb \<equiv> matches (cstr (name sb)) (cstr (surename sb))"

lemma match_sub_Some [cmem]:
  assumes "wf_sub x" "key_sub sb"
  shows "match_sub x sb = Some (key_match sb (abs_sub x))"
  using wf_sub_strings [OF assms(1)] assms(2)
  by (simp add: match_sub_def cmem matches_def abs_sub_def strcmp_bytes_eq key_sub_def)

lemma del_find_Some:
  assumes "wf_block a" "key_sub sb" "0 \<le> i" "sz \<le> int (length a)"
    "\<forall>k < nat i. \<not> key_match sb (map abs_sub a ! k)"
  shows "returns (del_find sz i a sb) (\<lambda>r. case r of
      None \<Rightarrow> \<forall>k < nat sz. \<not> key_match sb (map abs_sub a ! k)
    | Some k \<Rightarrow> 0 \<le> k \<and> k < sz \<and> key_match sb (map abs_sub a ! nat k) \<and>
        (\<forall>l < nat k. \<not> key_match sb (map abs_sub a ! l)))"
  using assms
proof (induction sz i a sb rule: del_find.induct)
  case (1 sz i a sb)
  show ?case
  proof (cases "i < sz")
    case False
    then have "nat sz \<le> nat i" by simp
    with "1.prems"(5) have "\<forall>k < nat sz. \<not> key_match sb (map abs_sub a ! k)"
      by (meson less_le_trans)
    with False show ?thesis
      by (simp only: del_find.simps [of sz i a sb] if_False returns_Some option.case)
  next
    case True
    have i: "nat i < length a" "aref a i = Some (a ! nat i)"
      using True "1.prems" by (auto simp: cmem)
    have m: "match_sub (a ! nat i) sb = Some (key_match sb (abs_sub (a ! nat i)))"
      using "1.prems" i by (simp add: cmem)
    show ?thesis
    proof (cases "key_match sb (abs_sub (a ! nat i))")
      case True
      with \<open>i < sz\<close> i m "1.prems" show ?thesis by (simp add: del_find.simps [of sz i a sb])
    next
      case no: False
      have "nat (i + 1) = Suc (nat i)" using "1.prems" by simp
      then have "\<forall>k < nat (i + 1). \<not> key_match sb (map abs_sub a ! k)"
        using "1.prems"(5) no i by (auto simp: less_Suc_eq)
      from "1.IH" [OF True i(2) m no "1.prems"(1,2) _ "1.prems"(4) this]
      show ?thesis using True i m no "1.prems"(3) by (simp add: del_find.simps [of sz i a sb])
    qed
  qed
qed

lemma del_shift_returns:
  assumes "wf_block a" "0 \<le> j" "j < sz" "sz \<le> int (length a)"
  shows "returns (del_shift sz j a) (\<lambda>a'. wf_block a' \<and> map abs_sub a' =
     take (nat j) (map abs_sub a) @ take (nat sz - Suc (nat j)) (drop (Suc (nat j)) (map abs_sub a))
       @ drop (nat sz - 1) (map abs_sub a))"
  using assms
proof (induction sz j a rule: del_shift.induct)
  case (1 sz j a)
  let ?A = "map abs_sub a"
  show ?case
  proof (cases "j < sz - 1")
    case False
    then have "nat sz = Suc (nat j)" using "1.prems" by simp
    with False "1.prems" show ?thesis by (simp add: del_shift.simps [of sz j a])
  next
    case True
    have n: "nat (j + 1) = Suc (nat j)" "Suc (nat j) < length a" "Suc (nat j) < nat sz"
      using True "1.prems" by auto
    have rd: "aref a j = Some (a ! nat j)" "aref a (j + 1) = Some (a ! Suc (nat j))"
      using True "1.prems" n by (simp_all add: cmem)
    have "returns (copy_sub (a ! nat j) (a ! Suc (nat j)))
        (\<lambda>d. wf_sub d \<and> abs_sub d = abs_sub (a ! Suc (nat j)))"
      using "1.prems" n by (intro copy_sub_returns) simp_all
    then show ?thesis
    proof (rule returnsE)
      fix d assume d: "copy_sub (a ! nat j) (a ! Suc (nat j)) = Some d"
        "wf_sub d \<and> abs_sub d = abs_sub (a ! Suc (nat j))"
      let ?a' = "a[nat j := d]"
      have st: "aset a j d = Some ?a'" using n "1.prems" by (simp add: cmem)
      have "returns (del_shift sz (j + 1) ?a') (\<lambda>a'. wf_block a' \<and> map abs_sub a' =
         take (nat (j + 1)) (map abs_sub ?a')
           @ take (nat sz - Suc (nat (j + 1))) (drop (Suc (nat (j + 1))) (map abs_sub ?a'))
           @ drop (nat sz - 1) (map abs_sub ?a'))"
        using "1.IH" [OF True rd d(1) st] "1.prems" True d n by (simp add: wf_block_update)
      moreover have "take (Suc (nat j)) (map abs_sub ?a') = take (nat j) ?A @ [?A ! Suc (nat j)]"
        using n d by (simp add: take_Suc_conv_app_nth map_update)
      moreover have "take (nat sz - Suc (nat j)) (drop (Suc (nat j)) ?A) =
          ?A ! Suc (nat j) # take (nat sz - Suc (Suc (nat j))) (drop (Suc (Suc (nat j))) ?A)"
        using n by (simp add: Cons_nth_drop_Suc [symmetric] take_Cons' del: drop_map)
      ultimately show ?thesis using True rd d st n
        by (simp add: del_shift.simps [of sz j a] map_update)
    qed
  qed
qed

lemma length_shifted:
  "k < n \<Longrightarrow> n \<le> length A \<Longrightarrow>
   length (take k A @ take (n - Suc k) (drop (Suc k) A) @ drop (n - 1) A) = length A"
  by simp

lemma take_shifted:
  "k < n \<Longrightarrow> n \<le> length A \<Longrightarrow>
   take (n - 1) (take k A @ take (n - Suc k) (drop (Suc k) A) @ drop (n - 1) A)
     = take k A @ drop (Suc k) (take n A)"
proof -
  assume n: "k < n" "n \<le> length A"
  then have "length (take k A @ take (n - Suc k) (drop (Suc k) A)) = n - 1" by simp
  then have "take (n - 1) ((take k A @ take (n - Suc k) (drop (Suc k) A)) @ drop (n - 1) A)
      = take k A @ take (n - Suc k) (drop (Suc k) A)" by (metis append_eq_conv_conj)
  then show ?thesis by (simp add: drop_take)
qed

lemma del_sub_returns:
  assumes al: "good_alloc al" and b: "wf_book b" and key: "key_sub sb"
  shows "returns (del_sub al b sb) (\<lambda>(r, b', os). r = 0 \<and> wf_book b' \<and>
     contacts b' = remove_first (key_match sb) (contacts b) \<and>
     os = (if \<exists>c \<in> set (contacts b). key_match sb c then [] else not_found))"
proof (cases "arr b")
  case (Block a)
  let ?n = "nat (bsize b)" and ?A = "map abs_sub a"
  have a: "wf_block a" "0 \<le> bsize b" "bsize b \<le> int (length a)"
    using b Block by (auto simp: wf_book_def)
  have cs: "contacts b = take ?n ?A" using Block by (simp add: contacts_def take_map)
  have "returns (del_find (bsize b) 0 a sb) (\<lambda>r. case r of
      None \<Rightarrow> \<forall>k < ?n. \<not> key_match sb (?A ! k)
    | Some k \<Rightarrow> 0 \<le> k \<and> k < bsize b \<and> key_match sb (?A ! nat k) \<and>
        (\<forall>l < nat k. \<not> key_match sb (?A ! l)))"
    using a key by (intro del_find_Some) auto
  then show ?thesis
  proof (rule returnsE)
    fix r assume r: "del_find (bsize b) 0 a sb = Some r"
      and spec: "case r of None \<Rightarrow> \<forall>k < ?n. \<not> key_match sb (?A ! k)
        | Some k \<Rightarrow> 0 \<le> k \<and> k < bsize b \<and> key_match sb (?A ! nat k) \<and>
            (\<forall>l < nat k. \<not> key_match sb (?A ! l))"
    show ?thesis
    proof (cases r)
      case None
      then have "\<forall>c \<in> set (contacts b). \<not> key_match sb c"
        using spec a by (simp add: cs all_set_conv_all_nth)
      with None r Block b show ?thesis by (simp add: del_sub_def remove_first_none)
    next
      case (Some k)
      with spec have k: "0 \<le> k" "k < bsize b" "key_match sb (?A ! nat k)"
        "\<forall>l < nat k. \<not> key_match sb (?A ! l)" by simp_all
      have n: "nat k < ?n" "?n \<le> length ?A" using k a by auto
      have rm: "remove_first (key_match sb) (contacts b) = take (nat k) ?A @ drop (Suc (nat k)) (take ?n ?A)"
        unfolding cs using k n by (subst remove_first_at [of "nat k"]) auto
      have "take ?n ?A ! nat k \<in> set (take ?n ?A)" using n by (intro nth_mem) simp
      then have "\<exists>c \<in> set (contacts b). key_match sb c"
        using k(3) n unfolding cs by (intro bexI [of _ "?A ! nat k"]) simp_all
      moreover have "returns (del_shift (bsize b) k a) (\<lambda>a'. wf_block a' \<and> map abs_sub a' =
         take (nat k) ?A @ take (?n - Suc (nat k)) (drop (Suc (nat k)) ?A) @ drop (?n - 1) ?A)"
        using k a by (intro del_shift_returns) auto
      ultimately show ?thesis
      proof (elim returnsE)
        fix a' assume a': "del_shift (bsize b) k a = Some a'" "wf_block a' \<and> map abs_sub a' =
           take (nat k) ?A @ take (?n - Suc (nat k)) (drop (Suc (nat k)) ?A) @ drop (?n - 1) ?A"
        have "length (map abs_sub a') = length ?A"
          unfolding conjunct2 [OF a'(2)] using n by (rule length_shifted)
        then have len: "length a' = length a" by simp
        obtain junk where al': "al = Some junk"
          using al by (auto simp: good_alloc_def split: option.splits)
        have re: "realloc_sub al ?n a' = Block (take ?n a')"
          using n len by (simp add: realloc_sub_def al')
        have "take (?n - 1) (map abs_sub a') = remove_first (key_match sb) (contacts b)"
          unfolding rm conjunct2 [OF a'(2)] using n by (rule take_shifted)
        moreover have "take (nat (bsize b - 1)) (take ?n a') = take (?n - 1) a'"
        proof -
          have "nat (bsize b - 1) = ?n - 1" by simp
          then show ?thesis by (simp add: min_def)
        qed
        moreover have "wf_block (take ?n a')" using a'(2) by (auto simp: wf_block_def dest: in_set_takeD)
        ultimately show ?thesis using Block r Some a' re k a len \<open>\<exists>c \<in> set (contacts b). key_match sb c\<close>
          by (simp add: del_sub_def Let_def wf_book_def contacts_def take_map [symmetric])
      qed
    qed
  qed
qed (use b in \<open>simp_all add: del_sub_def contacts_def wf_book_def\<close>)

text \<open>The lines \<open>lookup\<close> prints for one contact, and \<open>print_subs\<close> for the whole list.\<close>

definition found_line :: "contact \<Rightarrow> out list" where
  "found_line c = [Print [NL],
     Print (''Contact ['' @ fst c @ '' '' @ fst (snd c) @ ''] --> '' @ snd (snd c) @ [NL])]"

definition list_line :: "nat \<Rightarrow> contact \<Rightarrow> out list" where
  "list_line i c = [Print (''Contact'' @ numero @ show_int (int (Suc i)) @ '' - ['' @ fst c @ '' ''
     @ fst (snd c) @ ''] --> '' @ snd (snd c)), Print rule_line]"

lemma lookup_loop_Some:
  assumes "wf_block a" "key_sub sb" "0 \<le> i" "i \<le> sz" "sz \<le> int (length a)"
  shows "lookup_loop sz i a sb = Some (concat (map found_line
     (filter (key_match sb) (drop (nat i) (take (nat sz) (map abs_sub a))))))"
  using assms
proof (induction sz i a sb rule: lookup_loop.induct)
  case (1 sz i a sb)
  show ?case
  proof (cases "i < sz")
    case False
    then show ?thesis using "1.prems" by (subst lookup_loop.simps) simp
  next
    case True
    have n: "nat i < length a" "nat (i + 1) = Suc (nat i)" "nat i < nat sz"
      using True "1.prems" by auto
    have i: "aref a i = Some (a ! nat i)" using True "1.prems" by (simp add: cmem)
    have wf: "wf_sub (a ! nat i)" using "1.prems" n by simp
    have m: "match_sub (a ! nat i) sb = Some (key_match sb (abs_sub (a ! nat i)))"
      using "1.prems" wf by (simp add: cmem)
    have "drop (nat i) (take (nat sz) (map abs_sub a)) =
        abs_sub (a ! nat i) # drop (Suc (nat i)) (take (nat sz) (map abs_sub a))"
      using n by (subst Cons_nth_drop_Suc [symmetric]) auto
    moreover have "found_line (abs_sub (a ! nat i)) = [Print [NL],
        Print (''Contact ['' @ cstr (name (a ! nat i)) @ '' '' @ cstr (surename (a ! nat i))
          @ ''] --> '' @ cstr (number (a ! nat i)) @ [NL])]"
      by (simp add: found_line_def abs_sub_def)
    ultimately show ?thesis using "1.IH" [OF True i m] "1.prems" True i m n wf_sub_strings [OF wf]
      by (simp add: lookup_loop.simps [of sz i a sb] cmem)
  qed
qed

lemma lookup_Some:
  assumes "wf_book b" "key_sub sb"
  shows "lookup b sb = Some (let cs = filter (key_match sb) (contacts b)
    in if cs = [] then not_found else concat (map found_line cs))"
proof (cases "arr b")
  case (Block a)
  then have "lookup_loop (bsize b) 0 a sb =
      Some (concat (map found_line (filter (key_match sb) (contacts b))))"
    using assms lookup_loop_Some [of a sb 0 "bsize b"]
    by (simp add: wf_book_def contacts_def take_map)
  then show ?thesis using Block by (auto simp: lookup_def Let_def found_line_def filter_empty_conv)
qed (use assms in \<open>simp_all add: lookup_def contacts_def wf_book_def\<close>)

lemma print_loop_Some:
  assumes "wf_block a" "0 \<le> i" "i \<le> sz" "sz \<le> int (length a)"
  shows "print_loop sz i a = Some (concat (map (\<lambda>k. list_line k (map abs_sub a ! k))
     [nat i ..< nat sz]))"
  using assms
proof (induction sz i a rule: print_loop.induct)
  case (1 sz i a)
  show ?case
  proof (cases "i < sz")
    case False
    then show ?thesis using "1.prems" by (subst print_loop.simps) simp
  next
    case True
    have n: "nat i < length a" "nat (i + 1) = Suc (nat i)" "nat i < nat sz" "int (nat i) = i"
      using True "1.prems" by auto
    have i: "aref a i = Some (a ! nat i)" using True "1.prems" by (simp add: cmem)
    have str: "rd_str (name (a ! nat i)) = Some (cstr (name (a ! nat i)))"
      "rd_str (surename (a ! nat i)) = Some (cstr (surename (a ! nat i)))"
      "rd_str (number (a ! nat i)) = Some (cstr (number (a ! nat i)))"
      using wf_sub_strings [of "a ! nat i"] "1.prems" n by (simp_all add: cmem)
    have "[nat i ..< nat sz] = nat i # [Suc (nat i) ..< nat sz]" using n by (rule_tac upt_conv_Cons)
    moreover have "list_line (nat i) (map abs_sub a ! nat i) =
        [Print (''Contact'' @ numero @ show_int (i + 1) @ '' - ['' @ cstr (name (a ! nat i)) @ '' ''
           @ cstr (surename (a ! nat i)) @ ''] --> '' @ cstr (number (a ! nat i))), Print rule_line]"
      using n by (simp add: list_line_def abs_sub_def add.commute)
    ultimately show ?thesis using "1.IH" [OF True i str] "1.prems" True i str n
      by (simp add: print_loop.simps [of sz i a] del: nth_map)
  qed
qed

lemma print_subs_Some:
  assumes "wf_book b"
  shows "print_subs b = Some (Print rule_line #
    concat (map (\<lambda>k. list_line k (contacts b ! k)) [0 ..< length (contacts b)]) @ [Print [NL]])"
proof (cases "arr b")
  case (Block a)
  then have a: "wf_block a" "0 \<le> bsize b" "bsize b \<le> int (length a)"
    using assms by (auto simp: wf_book_def)
  moreover from a have "length (contacts b) = nat (bsize b)"
    using Block by (simp add: contacts_def nat_le_iff)
  ultimately have "print_loop (bsize b) 0 a =
      Some (concat (map (\<lambda>k. list_line k (contacts b ! k)) [0 ..< length (contacts b)]))"
    using print_loop_Some [of a 0 "bsize b"] Block
    by (auto simp: contacts_def simp del: nth_map intro!: arg_cong [where f = concat]
      simp flip: take_map)
  then show ?thesis using Block by (simp add: print_subs_def)
qed (use assms in \<open>simp_all add: print_subs_def contacts_def wf_book_def\<close>)

end
