(* ===== verification/ContactBook_Main.thy ===== *)
theory ContactBook_Main
  imports ContactBook_Correct
begin

text \<open>
  The program of \<open>heap/task.c\<close> as a whole: the tokeniser against its reference \<open>split_on\<close>, reading
  and writing \<open>book.txt\<close>, and the command loop run on the text of a list of commands.
\<close>

section \<open>The tokeniser\<close>

lemma stok_loop_eq:
  assumes "NUL \<notin> set s" "length ws \<le> cap"
  shows "stok_loop cap c (length u) (u @ s @ NUL # r) ws =
     (if length ws + count_list s c \<le> cap
      then Some (int (length ws + count_list s c), u @ nulled c s @ NUL # r,
        ws @ offsets c (length u) s)
      else None)"
  using assms
proof (induction s arbitrary: u ws)
  case Nil
  then show ?case by (simp add: stok_loop.simps nulled_def)
next
  case (Cons x xs)
  let ?b = "u @ (x # xs) @ NUL # r"
  have at: "length u < length ?b" "?b ! length u = x" "x \<noteq> NUL" using Cons.prems by auto
  show ?case
  proof (cases "x = c")
    case True
    have upd: "?b[length u := NUL] = (u @ [NUL]) @ xs @ NUL # r" by simp
    show ?thesis
    proof (cases "length ws < cap")
      case room: True
      with Cons.IH [of "ws @ [Suc (length u)]" "u @ [NUL]"] Cons.prems True at upd show ?thesis
        by (subst stok_loop.simps) (simp add: nulled_def)
    next
      case False
      with True at Cons.prems show ?thesis by (subst stok_loop.simps) simp
    qed
  next
    case False
    with Cons.IH [of ws "u @ [x]"] Cons.prems at show ?thesis
      by (subst stok_loop.simps) (simp add: nulled_def)
  qed
qed

lemma stok_Some:
  assumes "NUL \<in> set b" "length (split_on c (cstr b)) \<le> cap"
  obtains b' ws where
    "stok cap b c = Some (int (length (split_on c (cstr b))), b', ws)"
    "map (\<lambda>o'. cstr (drop o' b')) ws = split_on c (cstr b)"
    "length b' = length b" "\<forall>o' \<in> set ws. NUL \<in> set (drop o' b')"
proof -
  obtain r where r: "b = cstr b @ NUL # r" using cstr_decomp [OF assms(1)] by blast
  let ?s = "cstr b" and ?b' = "nulled c (cstr b) @ NUL # r"
  let ?ws = "0 # offsets c 0 ?s"
  have cap: "0 < cap" "Suc (count_list ?s c) \<le> cap" using assms(2) by (auto simp: length_split_on)
  have "stok cap b c = stok_loop cap c (length ([] :: string)) ([] @ ?s @ NUL # r) [0]"
    using cap r by (simp add: stok_def)
  also have "\<dots> = Some (int (length (split_on c ?s)), ?b', ?ws)"
    by (subst stok_loop_eq) (use cap in \<open>auto simp: length_split_on\<close>)
  finally have eq: "stok cap b c = Some (int (length (split_on c ?s)), ?b', ?ws)" .
  have fields: "map (\<lambda>o'. cstr (drop o' ?b')) ?ws = split_on c ?s"
    using fields_of_offsets [of ?s "[]" c r] by simp
  have len: "length ?b' = length b" by (subst (2) r) (simp add: nulled_def)
  have "NUL \<in> set (drop o' ?b')" if "o' \<in> set ?ws" for o'
  proof -
    have "o' \<le> length ?s" using that offsets_bound [of o' c 0 ?s] by auto
    then have "drop o' ?b' = drop o' (nulled c ?s) @ NUL # r" by (simp add: nulled_def)
    then show ?thesis by simp
  qed
  with eq fields len that show ?thesis by blast
qed

lemma stok_None:
  assumes "NUL \<in> set b" "cap < length (split_on c (cstr b))"
  shows "stok cap b c = None"
proof -
  obtain r where r: "b = cstr b @ NUL # r" using cstr_decomp [OF assms(1)] by blast
  show ?thesis
  proof (cases cap)
    case (Suc k)
    then have "stok cap b c = stok_loop cap c (length ([] :: string)) ([] @ cstr b @ NUL # r) [0]"
      using r by (simp add: stok_def)
    also have "\<dots> = None"
      by (subst stok_loop_eq) (use assms Suc in \<open>auto simp: length_split_on\<close>)
    finally show ?thesis .
  qed (simp add: stok_def)
qed

section \<open>The file\<close>

text \<open>A contact as it is written: the number carries its newline.\<close>

definition render :: "contact \<Rightarrow> string" where
  "render c = fst c @ CHR '' '' # fst (snd c) @ CHR '' '' # snd (snd c)"

definition plain :: "nat \<Rightarrow> string \<Rightarrow> bool" where
  "plain n s \<longleftrightarrow> length s < n \<and> NUL \<notin> set s \<and> NL \<notin> set s \<and> CHR '' '' \<notin> set s"

definition valid :: "contact \<Rightarrow> bool" where
  "valid c \<longleftrightarrow> plain 20 (fst c) \<and> plain 20 (fst (snd c)) \<and>
     (\<exists>d. snd (snd c) = d @ [NL] \<and> plain 19 d)"

text \<open>The local arrays have their declared sizes; and every allocation succeeds.\<close>

definition sized_env :: "env \<Rightarrow> bool" where
  "sized_env e \<longleftrightarrow> raw_sub (e_sub e) \<and>
     length (e_mass e) = 100 \<and> length (e_num e) = 20 \<and> length (e_arr e) = 100"

definition good_env :: "env \<Rightarrow> bool" where
  "good_env e \<longleftrightarrow> (\<forall>k. good_alloc (e_alloc e k)) \<and> sized_env e"

lemma render_line:
  assumes "valid c"
  obtains l where "render c = l @ [NL]" "NL \<notin> set l" "NUL \<notin> set l" "length l < 60" "l \<noteq> []"
proof -
  obtain d where d: "snd (snd c) = d @ [NL]" "plain 19 d" using assms by (auto simp: valid_def)
  show ?thesis
    by (rule that [of "fst c @ CHR '' '' # fst (snd c) @ CHR '' '' # d"])
      (use assms d in \<open>auto simp: render_def valid_def plain_def\<close>)
qed

lemma valid_fields:
  assumes "valid c"
  shows "split_on (CHR '' '') (render c) = [fst c, fst (snd c), snd (snd c)]"
    "length (fst c) < 20" "length (fst (snd c)) < 20" "length (snd (snd c)) < 20"
    "NUL \<notin> set (fst c)" "NUL \<notin> set (fst (snd c))" "NUL \<notin> set (snd (snd c))"
proof -
  obtain d where d: "snd (snd c) = d @ [NL]" "plain 19 d" using assms by (auto simp: valid_def)
  show "split_on (CHR '' '') (render c) = [fst c, fst (snd c), snd (snd c)]"
    unfolding render_def using assms d by (intro split_three) (auto simp: valid_def plain_def)
qed (use assms in \<open>auto simp: valid_def plain_def\<close>)

text \<open>Three strings that fit, copied into a contact.\<close>

lemma fill_sub_returns:
  assumes u: "raw_sub u" and x: "NUL \<in> set x" "NUL \<in> set y" "NUL \<in> set z"
    and len: "length (cstr x) < 20" "length (cstr y) < 20" "length (cstr z) < 20"
    and k: "\<And>s. wf_sub s \<Longrightarrow> abs_sub s = (cstr x, cstr y, cstr z) \<Longrightarrow> returns (k s) Q"
  shows "returns (do { n \<leftarrow> strcpy (name u) x; s \<leftarrow> strcpy (surename u) y; m \<leftarrow> strcpy (number u) z;
    k \<lparr>name = n, surename = s, number = m\<rparr> }) Q"
  by (intro returns_bind [OF strcpy_returns])
    (use u x len in \<open>auto simp: raw_sub_def wf_sub_def abs_sub_def intro!: k\<close>)

lemma load_loop_render:
  assumes e: "sized_env e" and cs: "\<forall>c \<in> set cs. valid c"
    and "length mass = 100" "wf_book b" "\<forall>j < length cs. good_alloc (e_alloc e (k + j))"
  shows "returns (load_loop e mass (concat (map render cs)) k b) (\<lambda>(r, b', k').
     r = 0 \<and> wf_book b' \<and> k' = k + length cs \<and> bsize b' = bsize b + int (length cs) \<and>
     contacts b' = foldl (\<lambda>cs c. sort_key fst (cs @ [c])) (contacts b) cs \<and>
     (cs = [] \<longrightarrow> b' = b))"
  using cs assms(3,4,5)
proof (induction cs arbitrary: mass b k)
  case Nil
  then show ?case by (subst load_loop.simps) (simp add: fgets_eof)
next
  case (Cons c cs)
  let ?u = "e_sub e"
  have e': "good_alloc (e_alloc e k)" "raw_sub ?u"
    using e Cons.prems(4) by (auto simp: sized_env_def)
  have al: "\<forall>j < length cs. good_alloc (e_alloc e (Suc k + j))" using Cons.prems(4) by auto
  have c: "valid c" using Cons.prems by simp
  note f = valid_fields [OF c]
  obtain l where l: "render c = l @ [NL]" "NL \<notin> set l" "NUL \<notin> set l" "length l < 60" "l \<noteq> []"
    using render_line [OF c] by metis
  have "returns (fgets mass CONTACT_SIZE (l @ NL # concat (map render cs)))
    (\<lambda>(g, b, r). g \<and> r = concat (map render cs) \<and> length b = length mass \<and> NUL \<in> set b \<and>
      cstr b = l @ [NL])"
    using l Cons.prems by (intro fgets_returns) (auto simp: CONTACT_SIZE_def)
  then obtain m1 where m1: "fgets mass CONTACT_SIZE (l @ NL # concat (map render cs)) =
      Some (True, m1, concat (map render cs))" "length m1 = 100" "NUL \<in> set m1"
      "cstr m1 = l @ [NL]" using Cons.prems by (auto elim!: returnsE)
  have "strcmp m1 (lit [NL]) = Some (strcmp_bytes (l @ [NL]) [NL])"
    using m1 by (simp add: strcmp_def cmem)
  moreover have "strcmp_bytes (l @ [NL]) [NL] \<noteq> 0" using l by (simp add: strcmp_bytes_eq)
  ultimately obtain cmp where cmp: "strcmp m1 (lit [NL]) = Some cmp" "cmp \<noteq> 0" by blast
  have sp: "split_on (CHR '' '') (cstr m1) = [fst c, fst (snd c), snd (snd c)]"
    using f(1) l(1) m1(4) by simp
  obtain m2 ws where tok: "stok 3 m1 (CHR '' '') = Some (3, m2, ws)"
    "map (\<lambda>o'. cstr (drop o' m2)) ws = [fst c, fst (snd c), snd (snd c)]"
    "length m2 = 100" "\<forall>o' \<in> set ws. NUL \<in> set (drop o' m2)"
    by (rule stok_Some [OF m1(3), of "CHR '' ''" 3]) (auto simp: sp m1(2))
  obtain o0 o1 o2 where ws: "ws = [o0, o1, o2]"
    using tok(2) by (cases ws rule: list.exhaust; auto simp: map_eq_Cons_conv)
  have "returns (do { n \<leftarrow> strcpy (name ?u) (drop (ws ! 0) m2);
      s \<leftarrow> strcpy (surename ?u) (drop (ws ! 1) m2); m \<leftarrow> strcpy (number ?u) (drop (ws ! 2) m2);
      (r, book') \<leftarrow> add_sub (e_alloc e k) ?u b \<lparr>name = n, surename = s, number = m\<rparr>;
      if r = -1 then Some (-1, book', Suc k)
      else load_loop e m2 (concat (map render cs)) (Suc k) book' })
    (\<lambda>(r, b', k'). r = 0 \<and> wf_book b' \<and> k' = k + length (c # cs) \<and>
      bsize b' = bsize b + int (length (c # cs)) \<and>
      contacts b' = foldl (\<lambda>cs c. sort_key fst (cs @ [c])) (contacts b) (c # cs) \<and>
      (c # cs = [] \<longrightarrow> b' = b))"
  proof (intro fill_sub_returns)
    fix s assume s: "wf_sub s"
      "abs_sub s = (cstr (drop (ws ! 0) m2), cstr (drop (ws ! 1) m2), cstr (drop (ws ! 2) m2))"
    then have "abs_sub s = c" using tok(2) ws by simp
    have "returns (add_sub (e_alloc e k) ?u b s) (\<lambda>(r, b'). r = 0 \<and> wf_book b' \<and>
        bsize b' = bsize b + 1 \<and> contacts b' = sort_key fst (contacts b @ [c]))"
      using add_sub_returns [OF e' Cons.prems(3) s(1)] \<open>abs_sub s = c\<close> by simp
    then show "returns (do { (r, book') \<leftarrow> add_sub (e_alloc e k) ?u b s;
        if r = -1 then Some (-1, book', Suc k)
        else load_loop e m2 (concat (map render cs)) (Suc k) book' })
      (\<lambda>(r, b', k'). r = 0 \<and> wf_book b' \<and> k' = k + length (c # cs) \<and>
        bsize b' = bsize b + int (length (c # cs)) \<and>
        contacts b' = foldl (\<lambda>cs c. sort_key fst (cs @ [c])) (contacts b) (c # cs) \<and>
        (c # cs = [] \<longrightarrow> b' = b))"
    proof (rule returns_bind, clarsimp, goal_cases)
      case (1 b1)
      then show ?case using Cons.IH [of m2 b1 "Suc k"] Cons.prems tok(3) al
        by (auto elim!: returns_mono)
    qed
  qed (use e' tok ws f in auto)
  moreover have "concat (map render (c # cs)) = l @ NL # concat (map render cs)" using l by simp
  ultimately show ?case using m1(1) cmp tok(1)
    by (subst load_loop.simps) simp
qed

text \<open>Writing one line never leaves the local array: 19 + 1 + 19 + 1 + 19 characters of 100.\<close>

lemma save_loop_Some:
  assumes "wf_block a" "0 \<le> i" "i \<le> sz" "sz \<le> int (length a)" "length buf = 100"
  shows "save_loop sz i a buf f = Some (f @ concat (map render
    (drop (nat i) (take (nat sz) (map abs_sub a)))))"
  using assms
proof (induction sz i a buf f rule: save_loop.induct)
  case (1 sz i a buf f)
  show ?case
  proof (cases "i < sz")
    case False
    then show ?thesis using "1.prems" by (subst save_loop.simps) simp
  next
    case True
    let ?x = "a ! nat i"
    have n: "nat i < length a" "nat (i + 1) = Suc (nat i)" "nat i < nat sz"
      using True "1.prems" by auto
    have rd: "aref a i = Some ?x" using True "1.prems" by (simp add: cmem)
    note str = wf_sub_strings [OF wf_block_nth [OF "1.prems"(1) n(1)]]
    have sp: "NUL \<in> set (lit '' '')" "cstr (lit '' '') = '' ''"
      by (simp_all add: lit_def cstr_def)
    obtain b1 where b1: "strcpy buf (name ?x) = Some b1" "length b1 = 100" "NUL \<in> set b1"
      "cstr b1 = cstr (name ?x)"
      using strcpy_Some [of "name ?x" buf] str "1.prems"(5) by force
    obtain b2 where b2: "strcat b1 (lit '' '') = Some b2" "length b2 = 100" "NUL \<in> set b2"
      "cstr b2 = cstr b1 @ '' ''"
      using strcat_Some [of "lit '' ''" b1] sp str b1 by force
    obtain b3 where b3: "strcat b2 (surename ?x) = Some b3" "length b3 = 100" "NUL \<in> set b3"
      "cstr b3 = cstr b2 @ cstr (surename ?x)"
      using strcat_Some [of "surename ?x" b2] sp str b2 b1 by force
    obtain b4 where b4: "strcat b3 (lit '' '') = Some b4" "length b4 = 100" "NUL \<in> set b4"
      "cstr b4 = cstr b3 @ '' ''"
      using strcat_Some [of "lit '' ''" b3] sp str b3 b2 b1 by force
    obtain b5 where b5: "strcat b4 (number ?x) = Some b5" "length b5 = 100" "NUL \<in> set b5"
      "cstr b5 = cstr b4 @ cstr (number ?x)"
      using strcat_Some [of "number ?x" b4] sp str b4 b3 b2 b1 by force
    have line: "rd_str b5 = Some (render (abs_sub ?x))"
      using b1 b2 b3 b4 b5 by (simp add: cmem render_def abs_sub_def)
    have "drop (nat i) (take (nat sz) (map abs_sub a)) =
        abs_sub ?x # drop (Suc (nat i)) (take (nat sz) (map abs_sub a))"
      using n by (subst Cons_nth_drop_Suc [symmetric]) auto
    then show ?thesis
      using "1.IH" [OF True rd b1(1) b2(1) b3(1) b4(1) b5(1) line] "1.prems" True rd n
        b1(1) b2(1) b3(1) b4(1) b5(1,2) line
      by (subst save_loop.simps) simp
  qed
qed

lemma save_book_Some:
  assumes "sized_env e" "wf_book b"
  shows "save_book e b = Some (concat (map render (contacts b)))"
  using assms
  by (auto simp: save_book_def wf_book_def contacts_def sized_env_def take_map save_loop_Some
    split: sub_ptr.splits)

section \<open>The command loop\<close>

text \<open>The effect of a command on the list of contacts, and what it prints.\<close>

fun spec_book :: "cmd \<Rightarrow> contact list \<Rightarrow> contact list" where
  "spec_book (Add n s d) cs = sort_key fst (cs @ [(n, s, d @ [NL])])"
| "spec_book (Del n s) cs = remove_first (matches n s) cs"
| "spec_book Show cs = cs"
| "spec_book (Find n s) cs = cs"

definition ask :: "out list" where
  "ask = [Print ''Enter Name and Surename of sub: '']"

fun spec_outs :: "cmd \<Rightarrow> contact list \<Rightarrow> out list" where
  "spec_outs (Add n s d) cs = [Print ''enter name: '', Print ''enter surename: '',
     Print ''enter number: '', Print [NL]]"
| "spec_outs (Del n s) cs = ask @ (if \<exists>c \<in> set cs. matches n s c then [] else not_found)"
| "spec_outs Show cs = Print rule_line #
     concat (map (\<lambda>k. list_line k (cs ! k)) [0 ..< length cs]) @ [Print [NL]]"
| "spec_outs (Find n s) cs = ask @ (let fs = filter (matches n s) cs
     in if fs = [] then not_found else concat (map found_line fs))"

definition allocated :: "Contact_book \<Rightarrow> bool" where
  "allocated b \<longleftrightarrow> (\<exists>a. arr b = Block a)"

lemma wf_positive_allocated: "wf_book b \<Longrightarrow> 0 < bsize b \<Longrightarrow> allocated b"
  by (auto simp: wf_book_def allocated_def split: sub_ptr.splits)

text \<open>
  What holds of the state between two commands; the abstract state is the list of contacts and
  whether \<open>arr\<close> points to a block yet.
\<close>

definition stable :: "world \<Rightarrow> bool" where
  "stable w \<longleftrightarrow> wf_book (book w) \<and> (\<not> allocated (book w) \<longrightarrow> arr (book w) = Uninit)"

definition ready :: "world \<Rightarrow> string \<Rightarrow> bool" where
  "ready w rest \<longleftrightarrow> stable w \<and> length (num w) = 20 \<and> at_input (stdin w) rest"

definition view :: "world \<Rightarrow> contact list \<times> bool" where
  "view w = (contacts (book w), allocated (book w))"

lemma ask_sub_returns:
  assumes e: "sized_env e" and t: "token 20 n" "token 20 s"
    and i: "at_input (stdin w) (type_in (n # s # ts) @ rest)"
  obtains sb where "ask_sub e w =
      Some (sb, w\<lparr>stdin := NL # type_in ts @ rest, outs := outs w @ ask\<rparr>)"
    "key_sub sb" "cstr (name sb) = n" "cstr (surename sb) = s"
proof -
  have u: "20 \<le> length (name (e_sub e))" "20 \<le> length (surename (e_sub e))"
    using e by (auto simp: sized_env_def raw_sub_def)
  obtain b1 where b1: "scanf_s (name (e_sub e)) (stdin w) = Some (1, b1, NL # type_in (s # ts) @ rest)"
    "NUL \<in> set b1" "cstr b1 = n"
    by (rule scan_tokenE [OF t(1) u(1) i])
  obtain b2 where b2: "scanf_s (surename (e_sub e)) (NL # type_in (s # ts) @ rest)
      = Some (1, b2, NL # type_in ts @ rest)" "NUL \<in> set b2" "cstr b2 = s"
    by (rule scan_tokenE [OF t(2) u(2) at_input_NL])
  show ?thesis
    by (rule that [of "(e_sub e)\<lparr>name := b1, surename := b2\<rparr>"])
      (use b1 b2 in \<open>simp_all add: ask_sub_def scanf_ss_def key_sub_def ask_def\<close>)
qed

text \<open>What \<open>cmd_add\<close> does once the three fields are read: the contact \<open>sb\<close> holds them.\<close>

definition add_read :: "env \<Rightarrow> world \<Rightarrow> string \<Rightarrow> Sub \<Rightarrow> (ctl \<times> world) option" where
  "add_read e w inp sb =
     do { let os = outs w @ [Print ''enter name: '', Print ''enter surename: '',
                             Print ''enter number: '', Print [NL]];
          (r, b') \<leftarrow> add_sub (e_alloc e (nalloc w)) (e_sub e) (book w) sb;
          let w' = w\<lparr>book := b', stdin := inp, nalloc := Suc (nalloc w), outs := os\<rparr>;
          Some (if r = -1
                then (Return (-1), w'\<lparr>outs := os @ [Print (''Can't allocate memory'' @ [NL])]\<rparr>)
                else (Continue, w')) }"

lemma read_number_field:
  assumes "length b = 20" "NUL \<in> set b" "cstr b = d" "token 19 d"
  obtains b' where "strcat b (lit [NL]) = Some b'" "length b' = 20" "NUL \<in> set b'"
    "cstr b' = d @ [NL]"
proof -
  have nl: "NUL \<in> set (lit [NL])" "cstr (lit [NL]) = [NL]" by (simp_all add: lit_def cstr_def)
  show ?thesis
    by (rule strcat_Some [of "lit [NL]" b]) (use nl assms that in \<open>auto simp: token_def\<close>)
qed

lemma cmd_add_read:
  assumes e: "sized_env e" and t: "token 20 n" "token 20 s" "token 19 d"
    and i: "at_input (stdin w) (type_in (n # s # d # ts) @ rest)"
  obtains sb where "wf_sub sb" "abs_sub sb = (n, s, d @ [NL])"
    "cmd_add e w = add_read e w (NL # type_in ts @ rest) sb"
proof -
  let ?u = "e_sub e"
  have u: "20 \<le> length (name ?u)" "20 \<le> length (surename ?u)" "19 \<le> length (number ?u)"
    "length (name ?u) = 20" "length (surename ?u) = 20" "length (number ?u) = 20"
    using e by (auto simp: sized_env_def raw_sub_def)
  obtain b1 where b1: "scanf_s (name ?u) (stdin w) = Some (1, b1, NL # type_in (s # d # ts) @ rest)"
    "length b1 = length (name ?u)" "NUL \<in> set b1" "cstr b1 = n"
    by (rule scan_tokenE [OF t(1) u(1) i])
  obtain b2 where b2: "scanf_s (surename ?u) (NL # type_in (s # d # ts) @ rest)
      = Some (1, b2, NL # type_in (d # ts) @ rest)" "length b2 = length (surename ?u)"
    "NUL \<in> set b2" "cstr b2 = s"
    by (rule scan_tokenE [OF t(2) u(2) at_input_NL])
  obtain b3 where b3: "scanf_s (number ?u) (NL # type_in (d # ts) @ rest)
      = Some (1, b3, NL # type_in ts @ rest)" "length b3 = length (number ?u)"
    "NUL \<in> set b3" "cstr b3 = d"
    by (rule scan_tokenE [OF t(3) u(3) at_input_NL])
  obtain b4 where b4: "strcat b3 (lit [NL]) = Some b4" "length b4 = 20" "NUL \<in> set b4"
    "cstr b4 = d @ [NL]"
    by (rule read_number_field [of b3 d]) (use b3 u t(3) in simp_all)
  show ?thesis
    by (rule that [of "\<lparr>name = b1, surename = b2, number = b4\<rparr>"])
      (use b1 b2 b3(1) b4 u in \<open>simp_all add: wf_sub_def raw_sub_def abs_sub_def cmd_add_def add_read_def\<close>)
qed

text \<open>One command: the state after it against the specification.\<close>

definition cmd_post :: "world \<Rightarrow> string \<Rightarrow> cmd \<Rightarrow> ctl \<times> world \<Rightarrow> bool" where
  "cmd_post w rest c = (\<lambda>(ct, w'). ct = Continue \<and> ready w' rest \<and>
     contacts (book w') = spec_book c (contacts (book w)) \<and>
     allocated (book w') = (allocated (book w) \<or> is_add c) \<and>
     outs w' = outs w @ spec_outs c (contacts (book w)))"

lemma cmd_post_add:
  assumes e: "good_env e" and c: "valid_cmd (Add n s d)" and w: "stable w" "length (num w) = 20"
    and i: "at_input (stdin w) (type_in [n, s, d] @ rest)"
  shows "returns (cmd_add e w) (cmd_post w rest (Add n s d))"
proof -
  have se: "sized_env e" "raw_sub (e_sub e)" "good_alloc (e_alloc e (nalloc w))"
    using e by (simp_all add: good_env_def sized_env_def)
  have b: "wf_book (book w)" "0 \<le> bsize (book w)" using w by (simp_all add: stable_def wf_book_def)
  have t: "token 20 n" "token 20 s" "token 19 d" using c by simp_all
  obtain sb where sb: "wf_sub sb" "abs_sub sb = (n, s, d @ [NL])"
    "cmd_add e w = add_read e w (NL # type_in [] @ rest) sb"
    by (rule cmd_add_read [OF se(1) t i])
  obtain b' where b': "add_sub (e_alloc e (nalloc w)) (e_sub e) (book w) sb = Some (0, b')" "wf_book b'"
    "bsize b' = bsize (book w) + 1" "contacts b' = sort_key fst (contacts (book w) @ [(n, s, d @ [NL])])"
    using add_sub_returns [OF se(3,2) b(1) sb(1)] sb(2) by (auto elim!: returnsE)
  have "allocated b'" using b' b(2) by (intro wf_positive_allocated) simp_all
  then show ?thesis using b' w
    by (simp add: sb(3) add_read_def Let_def cmd_post_def ready_def stable_def type_in_def)
qed

lemma del_sub_block:
  assumes "wf_book b" "del_sub al b sb = Some (0, b', os)"
  shows "if allocated b then allocated b' else b' = b"
  using assms
  by (auto simp: del_sub_def Let_def wf_book_def allocated_def
    split: sub_ptr.splits option.splits Option.bind_splits)

lemma cmd_post_del:
  assumes e: "good_env e" and c: "valid_cmd (Del n s)" and w: "stable w" "length (num w) = 20"
    and i: "at_input (stdin w) (type_in [n, s] @ rest)"
  shows "returns (cmd_del e w) (cmd_post w rest (Del n s))"
proof -
  have se: "sized_env e" "good_alloc (e_alloc e (nalloc w))" using e by (simp_all add: good_env_def)
  have b: "wf_book (book w)" and t: "token 20 n" "token 20 s"
    using w c by (simp_all add: stable_def)
  obtain sb where sb: "ask_sub e w =
      Some (sb, w\<lparr>stdin := NL # type_in [] @ rest, outs := outs w @ ask\<rparr>)"
    "key_sub sb" "cstr (name sb) = n" "cstr (surename sb) = s"
    by (rule ask_sub_returns [OF se(1) t i])
  obtain b' os where d: "del_sub (e_alloc e (nalloc w)) (book w) sb = Some (0, b', os)" "wf_book b'"
    "contacts b' = remove_first (matches n s) (contacts (book w))"
    "os = (if \<exists>c \<in> set (contacts (book w)). matches n s c then [] else not_found)"
    using del_sub_returns [OF se(2) b sb(2)] sb(3,4) by (auto elim!: returnsE)
  show ?thesis using sb(1) d w del_sub_block [OF b d(1)]
    by (auto simp: cmd_del_def Let_def cmd_post_def ready_def stable_def type_in_def
      split: if_splits)
qed

lemma cmd_post_find:
  assumes e: "good_env e" and c: "valid_cmd (Find n s)" and w: "stable w" "length (num w) = 20"
    and i: "at_input (stdin w) (type_in [n, s] @ rest)"
  shows "returns (cmd_find e w) (cmd_post w rest (Find n s))"
proof -
  have se: "sized_env e" using e by (simp add: good_env_def)
  have b: "wf_book (book w)" and t: "token 20 n" "token 20 s"
    using w c by (simp_all add: stable_def)
  obtain sb where sb: "ask_sub e w =
      Some (sb, w\<lparr>stdin := NL # type_in [] @ rest, outs := outs w @ ask\<rparr>)"
    "key_sub sb" "cstr (name sb) = n" "cstr (surename sb) = s"
    by (rule ask_sub_returns [OF se t i])
  show ?thesis using sb lookup_Some [OF b sb(2)] w
    by (simp add: cmd_find_def cmd_post_def ready_def stable_def type_in_def Let_def)
qed

lemma cmd_step_returns:
  assumes e: "good_env e" and c: "valid_cmd c" and w: "ready w (type_in (tokens c) @ rest)"
  shows "returns (cmd_step e w) (\<lambda>(ct, w'). ct = Continue \<and> ready w' rest \<and>
     view w' = (spec_book c (fst (view w)), snd (view w) \<or> is_add c) \<and>
     outs w' = outs w @ prompt @ [Shell ''clear''] @ spec_outs c (fst (view w)))"
proof -
  obtain d ts where tk: "tokens c = [d] # ts"
    "d \<in> {CHR ''1'', CHR ''2'', CHR ''3'', CHR ''4'', CHR ''5''}" by (rule tokens_digit)
  have i: "at_input (stdin w) (type_in ([d] # ts) @ rest)" "length (num w) = 20"
    using w tk(1) by (simp_all add: ready_def)
  obtain nm where nm: "scanf_s (num w) (stdin w) = Some (1, nm, NL # type_in ts @ rest)" "length nm = 20"
    and cmp: "strcmp nm (lit ''1'') = Some (strcmp_bytes [d] ''1'')"
    "strcmp nm (lit ''2'') = Some (strcmp_bytes [d] ''2'')"
    "strcmp nm (lit ''3'') = Some (strcmp_bytes [d] ''3'')"
    "strcmp nm (lit ''4'') = Some (strcmp_bytes [d] ''4'')"
    "strcmp nm (lit ''5'') = Some (strcmp_bytes [d] ''5'')"
    by (rule read_number [OF i(1) digit_token [OF tk(2)] i(2)])
  let ?w = "w\<lparr>num := nm, stdin := NL # type_in ts @ rest,
    outs := outs w @ prompt @ [Shell ''clear'']\<rparr>"
  have st: "stable ?w" "length (num ?w) = 20" "at_input (stdin ?w) (type_in ts @ rest)"
    using w nm(2) by (simp_all add: ready_def stable_def)
  have post: "returns m (cmd_post ?w rest c) \<Longrightarrow> cmd_step e w = m \<Longrightarrow> ?thesis" for m
    by (auto simp: cmd_post_def view_def elim!: returnsE)
  show ?thesis
  proof (cases c)
    case (Add n s m)
    show ?thesis
      by (rule post [of "cmd_add e ?w"])
        (use Add tk c cmp nm(1) st cmd_post_add [OF e, of n s m ?w rest] in
          \<open>auto simp: cmd_step_def Let_def strcmp_bytes_eq\<close>)
  next
    case (Del n s)
    show ?thesis
      by (rule post [of "cmd_del e ?w"])
        (use Del tk c cmp nm(1) st cmd_post_del [OF e, of n s ?w rest] in
          \<open>auto simp: cmd_step_def Let_def strcmp_bytes_eq\<close>)
  next
    case Show
    have "wf_book (book ?w)" using st(1) by (simp add: stable_def)
    from print_subs_Some [OF this] show ?thesis
      using Show tk cmp nm(1) st
      by (auto simp: cmd_step_def Let_def strcmp_bytes_eq ready_def stable_def type_in_def view_def)
  next
    case (Find n s)
    show ?thesis
      by (rule post [of "cmd_find e ?w"])
        (use Find tk c cmp nm(1) st cmd_post_find [OF e, of n s ?w rest] in
          \<open>auto simp: cmd_step_def Let_def strcmp_bytes_eq\<close>)
  qed
qed

lemma cmd_step_exit:
  assumes "good_env e" and w: "ready w (type_in [''5''] @ rest)"
  shows "returns (cmd_step e w) (\<lambda>(ct, w'). ct = Break \<and> stable w' \<and> view w' = view w \<and>
     outs w' = outs w @ prompt @ [Shell ''clear''])"
proof -
  have i: "at_input (stdin w) (type_in [''5''] @ rest)" "length (num w) = 20" "token 20 ''5''"
    using w digit_token by (simp_all add: ready_def)
  show ?thesis
    by (rule read_number [OF i(1,3,2)])
      (use w in \<open>simp add: cmd_step_def Let_def strcmp_bytes_eq stable_def view_def ready_def\<close>)
qed

text \<open>The heap book behind the command loop keeps the contract of the interface.\<close>

abbreviation eff_heap :: "cmd \<Rightarrow> contact list \<times> bool \<Rightarrow> contact list \<times> bool" where
  "eff_heap c v \<equiv> (spec_book c (fst v), snd v \<or> is_add c)"

abbreviation ans_heap :: "cmd \<Rightarrow> contact list \<times> bool \<Rightarrow> out list" where
  "ans_heap c v \<equiv> spec_outs c (fst v)"

interpretation heap_shell: command_shell good_env cmd_step cmd_loop ready stable view outs
  "prompt @ [Shell ''clear'']" tokens "[''5'']" "\<lambda>c v. valid_cmd c" eff_heap ans_heap
  by unfold_locales (simp_all only: append_assoc cmd_loop.simps cmd_step_returns cmd_step_exit)

abbreviation spec_run :: "cmd list \<Rightarrow> contact list \<Rightarrow> contact list \<times> out list" where
  "spec_run \<equiv> run_cmds spec_book spec_outs"

lemma run_heap: "run_cmds eff_heap ans_heap cmds (cs, al) =
    ((fst (spec_run cmds cs), al \<or> (\<exists>c \<in> set cmds. is_add c)), snd (spec_run cmds cs))"
  by (induction cmds arbitrary: cs al) (auto simp: case_prod_beta Let_def)

lemma ok_run_heap: "ok_run (\<lambda>c v. valid_cmd c) eff_heap cmds v \<longleftrightarrow> (\<forall>c \<in> set cmds. valid_cmd c)"
  by (induction cmds arbitrary: v) auto

lemma cmd_loop_session:
  assumes "good_env e" "\<forall>c \<in> set cmds. valid_cmd c" "ready w (session cmds @ rest)"
    "length cmds < fuel"
  shows "returns (cmd_loop fuel e w) (\<lambda>(ct, w'). ct = Break \<and> stable w' \<and>
     contacts (book w') = fst (spec_run cmds (contacts (book w))) \<and>
     allocated (book w') = (allocated (book w) \<or> (\<exists>c \<in> set cmds. is_add c)) \<and>
     outs w' = outs w @ snd (spec_run cmds (contacts (book w))) @ prompt @ [Shell ''clear''])"
proof -
  have "ok_run (\<lambda>c v. valid_cmd c) eff_heap cmds (view w)" using assms(2) by (simp only: ok_run_heap)
  from heap_shell.loop_session [OF assms(1) this assms(3,4)]
  have s: "returns (cmd_loop fuel e w) (\<lambda>(ct, w'). ct = Break \<and> stable w' \<and>
     view w' = fst (run_cmds eff_heap ans_heap cmds (view w)) \<and>
     outs w' = outs w @ snd (run_cmds eff_heap ans_heap cmds (view w)) @ prompt @ [Shell ''clear''])" .
  have v: "view w = (contacts (book w), allocated (book w))" by (simp add: view_def)
  show ?thesis using s unfolding v run_heap
    by (rule returns_mono) (auto simp: view_def)
qed

section \<open>Properties of the program\<close>

lemma load_book:
  assumes "sized_env e" "\<forall>c \<in> set cs. valid c" "\<forall>j < length cs. good_alloc (e_alloc e j)"
  shows "returns (load_loop e (e_mass e) (concat (map render cs)) 0 \<lparr>bsize = 0, arr = Uninit\<rparr>)
    (\<lambda>(r, b, k). r = 0 \<and> wf_book b \<and> k = length cs \<and> contacts b = sort_key fst cs \<and>
       (if cs = [] then b = \<lparr>bsize = 0, arr = Uninit\<rparr> else allocated b))"
proof (rule returns_mono [OF load_loop_render [of e cs "e_mass e" _ 0]])
  fix x :: "int \<times> Contact_book \<times> nat"
  let ?b0 = "\<lparr>bsize = 0, arr = Uninit\<rparr>"
  have "foldl (\<lambda>cs c. sort_key fst (cs @ [c])) (sort_key fst []) cs = sort_key fst cs"
    by (simp only: foldl_insert_sorted append_Nil)
  then have "foldl (\<lambda>cs c. sort_key fst (cs @ [c])) (contacts ?b0) cs = sort_key fst cs"
    by (simp add: contacts_def)
  moreover assume "(\<lambda>(r, b', k'). r = 0 \<and> wf_book b' \<and> k' = 0 + length cs \<and>
     bsize b' = bsize ?b0 + int (length cs) \<and>
     contacts b' = foldl (\<lambda>cs c. sort_key fst (cs @ [c])) (contacts ?b0) cs \<and>
     (cs = [] \<longrightarrow> b' = ?b0)) x"
  ultimately show "(\<lambda>(r, b, k). r = 0 \<and> wf_book b \<and> k = length cs \<and> contacts b = sort_key fst cs \<and>
       (if cs = [] then b = ?b0 else allocated b)) x"
    by (auto intro!: wf_positive_allocated)
qed (use assms in \<open>auto simp: sized_env_def wf_book_def\<close>)

lemma ready_start:
  "sized_env e \<Longrightarrow> wf_book b \<Longrightarrow> (\<not> allocated b \<longrightarrow> arr b = Uninit) \<Longrightarrow>
   ready \<lparr>book = b, num = e_num e, stdin = inp, outs = [], nalloc = k\<rparr> inp"
  by (simp add: ready_def stable_def sized_env_def)

text \<open>The session of the loaded book, and how \<open>main\<close> ends after it.\<close>

lemma main_runs:
  assumes e: "good_env e" and "\<forall>c \<in> set cs. valid c" "\<forall>c \<in> set cmds. valid_cmd c"
    and "length cmds < fuel"
  obtains b where "wf_book b" "contacts b = fst (spec_run cmds (sort_key fst cs))"
    "if cs \<noteq> [] \<or> (\<exists>c \<in> set cmds. is_add c) then allocated b else arr b = Uninit"
    "main e fuel (Some (concat (map render cs))) (session cmds @ rest) =
       do { f' \<leftarrow> save_book e b; _ \<leftarrow> free_book b;
            Some (Return 0, Some f',
              snd (spec_run cmds (sort_key fst cs)) @ prompt @ [Shell ''clear'']) }"
proof -
  have se: "sized_env e" "\<forall>j < length cs. good_alloc (e_alloc e j)"
    using e by (simp_all add: good_env_def)
  obtain b0 k where ld: "load_loop e (e_mass e) (concat (map render cs)) 0 \<lparr>bsize = 0, arr = Uninit\<rparr>
      = Some (0, b0, k)" "wf_book b0" "contacts b0 = sort_key fst cs"
    "if cs = [] then b0 = \<lparr>bsize = 0, arr = Uninit\<rparr> else allocated b0"
    using load_book [OF se(1) assms(2) se(2)] by (auto elim!: returnsE)
  let ?w = "\<lparr>book = b0, num = e_num e, stdin = session cmds @ rest, outs = [], nalloc = k\<rparr>"
  have u: "\<not> allocated b0 \<longrightarrow> arr b0 = Uninit" "allocated b0 = (cs \<noteq> [])"
    using ld(4) by (auto simp: allocated_def split: if_splits)
  have "returns (cmd_loop fuel e ?w) (\<lambda>(ct, w'). ct = Break \<and> stable w' \<and>
     contacts (book w') = fst (spec_run cmds (contacts (book ?w))) \<and>
     allocated (book w') = (allocated (book ?w) \<or> (\<exists>c \<in> set cmds. is_add c)) \<and>
     outs w' = outs ?w @ snd (spec_run cmds (contacts (book ?w))) @ prompt @ [Shell ''clear''])"
    by (rule cmd_loop_session [OF e assms(3) ready_start [OF se(1) ld(2) u(1)] assms(4)])
  then obtain w where w: "cmd_loop fuel e ?w = Some (Break, w)" "stable w"
    "contacts (book w) = fst (spec_run cmds (sort_key fst cs))"
    "allocated (book w) = (cs \<noteq> [] \<or> (\<exists>c \<in> set cmds. is_add c))"
    "outs w = snd (spec_run cmds (sort_key fst cs)) @ prompt @ [Shell ''clear'']"
    using ld(3) u(2) by (auto elim!: returnsE)
  have "wf_book (book w)"
    "if cs \<noteq> [] \<or> (\<exists>c \<in> set cmds. is_add c) then allocated (book w) else arr (book w) = Uninit"
    using w(2,4) by (auto simp: stable_def)
  moreover have "main e fuel (Some (concat (map render cs))) (session cmds @ rest) =
       do { f' \<leftarrow> save_book e (book w); _ \<leftarrow> free_book (book w);
            Some (Return 0, Some f',
              snd (spec_run cmds (sort_key fst cs)) @ prompt @ [Shell ''clear'']) }"
    using ld(1) w(1,5) by (simp add: main_def new_contact_book_def)
  ultimately show ?thesis using that w(3) by blast
qed

text \<open>A concrete environment, for the instances below.\<close>

definition blank_sub :: Sub where
  "blank_sub = \<lparr>name = replicate 20 NUL, surename = replicate 20 NUL, number = replicate 20 NUL\<rparr>"

definition demo_env :: env where
  "demo_env = \<lparr>e_alloc = (\<lambda>_. Some (\<lambda>_. blank_sub)), e_sub = blank_sub,
     e_mass = replicate 100 NUL, e_num = replicate 20 NUL, e_arr = replicate 100 NUL\<rparr>"

lemma raw_blank_sub: "raw_sub blank_sub"
  by (simp add: raw_sub_def blank_sub_def)

lemma good_demo_env: "good_env demo_env"
  by (simp add: good_env_def good_alloc_def sized_env_def demo_env_def raw_blank_sub)

text \<open>
  C1. The program does what its menu promises: started on a \<open>book.txt\<close> that lists valid contacts,
  it loads them sorted by name, runs every command of a session with the effect and the output of
  the abstract specification \<open>spec_run\<close>, and at exit writes the resulting list back, with exit
  status 0, for any contents of uninitialised memory and any fuel above the number of commands.
\<close>

theorem main_session:
  assumes "good_env e" "\<forall>c \<in> set cs. valid c" "\<forall>c \<in> set cmds. valid_cmd c" "length cmds < fuel"
    and "cs \<noteq> [] \<or> (\<exists>c \<in> set cmds. is_add c)"
  shows "main e fuel (Some (concat (map render cs))) (session cmds @ rest) =
     (let (cs', os) = spec_run cmds (sort_key fst cs)
      in Some (Return 0, Some (concat (map render cs')), os @ prompt @ [Shell ''clear'']))"
proof -
  obtain b where b: "wf_book b" "contacts b = fst (spec_run cmds (sort_key fst cs))"
    "if cs \<noteq> [] \<or> (\<exists>c \<in> set cmds. is_add c) then allocated b else arr b = Uninit"
    "main e fuel (Some (concat (map render cs))) (session cmds @ rest) =
       do { f' \<leftarrow> save_book e b; _ \<leftarrow> free_book b;
            Some (Return 0, Some f',
              snd (spec_run cmds (sort_key fst cs)) @ prompt @ [Shell ''clear'']) }"
    by (rule main_runs [OF assms(1-4), of rest])
  from b(3) assms(5) have "allocated b" by (simp only: if_True)
  moreover have "save_book e b = Some (concat (map render (contacts b)))"
    using assms(1) b(1) by (intro save_book_Some) (simp_all add: good_env_def)
  ultimately show ?thesis using b(2,4) by (auto simp: allocated_def free_book_def case_prod_beta Let_def)
qed

theorem main_session_witness:
  "main demo_env 4 (Some (''Zed Ray 77'' @ [NL] @ ''Bob Kay 12'' @ [NL]))
     (session [Add ''Al'' ''May'' ''5'', Del ''Zed'' ''Ray'', Find ''X'' ''Y''] @ [])
   = Some (Return 0, Some (''Al May 5'' @ [NL] @ ''Bob Kay 12'' @ [NL]),
       prompt @ [Shell ''clear'', Print ''enter name: '', Print ''enter surename: '',
         Print ''enter number: '', Print [NL]]
       @ prompt @ [Shell ''clear''] @ ask @ prompt @ [Shell ''clear''] @ ask @ not_found
       @ prompt @ [Shell ''clear''])"
proof -
  let ?cs = "[(''Zed'', ''Ray'', ''77'' @ [NL]), (''Bob'', ''Kay'', ''12'' @ [NL])]"
  let ?cmds = "[Add ''Al'' ''May'' ''5'', Del ''Zed'' ''Ray'', Find ''X'' ''Y'']"
  have "\<forall>c \<in> set ?cs. valid c" by (simp add: valid_def plain_def NL_def NUL_def)
  moreover have "\<forall>c \<in> set ?cmds. valid_cmd c" by (simp add: token_def isspace_def NUL_def)
  ultimately show ?thesis
    using main_session [OF good_demo_env, of ?cs ?cmds 4 "[]"]
    by (simp add: render_def matches_def less_char_def insort_key_def)
qed

text \<open>
  A book that never held a contact is not freed correctly: \<open>new_contact_book\<close> leaves \<open>arr\<close>
  indeterminate and \<open>free_book\<close> passes it to \<open>free\<close>, so on an empty \<open>book.txt\<close> every session
  without an addition ends in undefined behaviour.
\<close>

theorem main_without_contacts_undefined:
  assumes "good_env e" "\<forall>c \<in> set cmds. valid_cmd c" "length cmds < fuel"
    and "\<forall>c \<in> set cmds. \<not> is_add c"
  shows "main e fuel (Some []) (session cmds @ rest) = None"
proof -
  have "\<forall>c \<in> set []. valid c" by simp
  obtain b where b: "wf_book b" "contacts b = fst (spec_run cmds (sort_key fst []))"
    "if [] \<noteq> ([] :: contact list) \<or> (\<exists>c \<in> set cmds. is_add c) then allocated b else arr b = Uninit"
    "main e fuel (Some (concat (map render []))) (session cmds @ rest) =
       do { f' \<leftarrow> save_book e b; _ \<leftarrow> free_book b;
            Some (Return 0, Some f',
              snd (spec_run cmds (sort_key fst [])) @ prompt @ [Shell ''clear'']) }"
    by (rule main_runs [OF assms(1) \<open>\<forall>c \<in> set []. valid c\<close> assms(2,3), of rest])
  have "free_book b = None" using b(3) assms(4) by (auto simp: free_book_def)
  then show ?thesis using b(4) by (cases "save_book e b") simp_all
qed

theorem main_without_contacts_undefined_witness:
  "main demo_env 2 (Some []) (session [Show] @ []) = None"
  by (rule main_without_contacts_undefined [OF good_demo_env]) simp_all

text \<open>
  C38. \<open>book.txt\<close> is removed before the command loop starts, so when the first command is an addition
  for which there is no memory, the program returns \<open>-1\<close> and the loaded contacts are lost: the
  file no longer exists.
\<close>

theorem main_out_of_memory_loses_file:
  assumes "sized_env e" "\<forall>c \<in> set cs. valid c" "\<forall>j < length cs. good_alloc (e_alloc e j)"
    and "e_alloc e (length cs) = None" "valid_cmd (Add n s d)" "0 < fuel"
  shows "\<exists>os. main e fuel (Some (concat (map render cs))) (session (Add n s d # cmds) @ rest)
     = Some (Return (-1), None, os)"
proof -
  obtain b0 where ld: "load_loop e (e_mass e) (concat (map render cs)) 0 \<lparr>bsize = 0, arr = Uninit\<rparr>
      = Some (0, b0, length cs)" "wf_book b0"
    using load_book [OF assms(1-3)] by (auto elim!: returnsE)
  let ?inp = "session (Add n s d # cmds) @ rest"
  let ?rest = "session cmds @ rest"
  let ?w = "\<lparr>book = b0, num = e_num e, stdin = ?inp, outs = [], nalloc = length cs\<rparr>"
  have i: "at_input ?inp (type_in (''1'' # [n, s, d]) @ ?rest)" "token 20 ''1''" "length (e_num e) = 20"
    using assms(1) digit_token by (simp_all add: script_Cons sized_env_def)
  obtain nm where nm: "scanf_s (e_num e) ?inp = Some (1, nm, NL # type_in [n, s, d] @ ?rest)"
    "strcmp nm (lit ''1'') = Some (strcmp_bytes ''1'' ''1'')"
    "strcmp nm (lit ''2'') = Some (strcmp_bytes ''1'' ''2'')"
    "strcmp nm (lit ''3'') = Some (strcmp_bytes ''1'' ''3'')"
    "strcmp nm (lit ''4'') = Some (strcmp_bytes ''1'' ''4'')"
    "strcmp nm (lit ''5'') = Some (strcmp_bytes ''1'' ''5'')"
    by (rule read_number [OF i])
  let ?w1 = "?w\<lparr>num := nm, stdin := NL # type_in [n, s, d] @ ?rest, outs := prompt @ [Shell ''clear'']\<rparr>"
  obtain sb where sb: "cmd_add e ?w1 = add_read e ?w1 (NL # type_in [] @ ?rest) sb"
    by (rule cmd_add_read [of e n s d ?w1 "[]" ?rest]) (use assms in auto)
  from nm have "cmd_step e ?w = cmd_add e ?w1" by (simp add: cmd_step_def Let_def)
  then obtain w' where "cmd_step e ?w = Some (Return (-1), w')"
    using sb assms(4) add_sub_no_memory [OF ld(2)] by (simp add: add_read_def Let_def)
  then show ?thesis using ld(1) assms(6)
    by (cases fuel) (simp_all add: main_def new_contact_book_def)
qed

theorem main_out_of_memory_loses_file_witness:
  "\<exists>os. main (demo_env\<lparr>e_alloc := (\<lambda>k. if k = 0 then Some (\<lambda>_. blank_sub) else None)\<rparr>) 1
     (Some (concat (map render [(''Bob'', ''Kay'', ''12'' @ [NL])])))
     (session (Add ''Al'' ''May'' ''5'' # []) @ [])
   = Some (Return (-1), None, os)"
  by (rule main_out_of_memory_loses_file)
    (simp_all add: sized_env_def demo_env_def raw_blank_sub good_alloc_def valid_def plain_def
      token_def isspace_def NUL_def NL_def)

text \<open>
  C31. \<open>sort\<close> is a stable insertion sort by name: on a well-formed book it stays inside the block,
  keeps the book well-formed, and reorders the contacts as the library's \<open>sort_key\<close>.
\<close>

theorem sort_is_stable_sort:
  assumes "raw_sub u" "wf_book b" "0 < bsize b"
  shows "\<exists>b'. sort_book u b = Some b' \<and> wf_book b' \<and> contacts b' = sort_key fst (contacts b)"
  using sort_book_returns [OF assms] by (auto simp: returns_def)

theorem sort_is_stable_sort_witness:
  "\<exists>b'. sort_book blank_sub \<lparr>bsize = 1, arr = Block [blank_sub]\<rparr> = Some b' \<and> wf_book b' \<and>
     contacts b' = [([], [], [])]"
proof -
  let ?b = "\<lparr>bsize = 1, arr = Block [blank_sub]\<rparr>"
  have "wf_book ?b" by (simp add: wf_book_def wf_block_def wf_sub_def raw_blank_sub) (simp add: blank_sub_def)
  then show ?thesis using sort_is_stable_sort [OF raw_blank_sub, of ?b]
    by (simp add: contacts_def abs_sub_def blank_sub_def cstr_def)
qed

text \<open>
  \<open>del_sub\<close> removes exactly the first contact with the given name and surname, prints nothing
  then, and leaves the book alone and reports \<open>Contact Not found\<close> when there is none.
\<close>

theorem del_sub_removes_first:
  assumes "good_alloc al" "wf_book b" "key_sub sb"
  shows "\<exists>b'. del_sub al b sb = Some (0, b',
      if \<exists>c \<in> set (contacts b). key_match sb c then [] else not_found) \<and> wf_book b' \<and>
    contacts b' = remove_first (key_match sb) (contacts b)"
  using del_sub_returns [OF assms] by (auto elim!: returnsE)

theorem del_sub_removes_first_witness:
  "\<exists>b'. del_sub (Some (\<lambda>_. blank_sub)) \<lparr>bsize = 1, arr = Block [blank_sub]\<rparr> blank_sub
      = Some (0, b', []) \<and> wf_book b' \<and> contacts b' = []"
proof -
  let ?b = "\<lparr>bsize = 1, arr = Block [blank_sub]\<rparr>"
  have "wf_book ?b" "good_alloc (Some (\<lambda>_. blank_sub))"
    by (simp_all add: wf_book_def wf_block_def wf_sub_def good_alloc_def raw_blank_sub)
      (simp add: blank_sub_def)
  then show ?thesis using del_sub_removes_first [of "Some (\<lambda>_. blank_sub)" ?b blank_sub]
    by (simp add: contacts_def abs_sub_def blank_sub_def cstr_def key_sub_def matches_def)
qed

text \<open>
  C33. \<open>stok\<close> has defined behaviour exactly when the fields fit into the array of pointers, and
  then its pointers are the fields of the line; \<open>main\<close> gives it three pointers for a line of
  any number of fields, so a line with more than two spaces writes outside \<open>words\<close>.
\<close>

theorem stok_splits:
  assumes "NUL \<in> set b"
  shows "if length (split_on c (cstr b)) \<le> cap
    then \<exists>b' ws. stok cap b c = Some (int (length ws), b', ws) \<and>
      map (\<lambda>o'. cstr (drop o' b')) ws = split_on c (cstr b)
    else stok cap b c = None"
proof (cases "length (split_on c (cstr b)) \<le> cap")
  case True
  obtain b' ws where "stok cap b c = Some (int (length (split_on c (cstr b))), b', ws)"
    "map (\<lambda>o'. cstr (drop o' b')) ws = split_on c (cstr b)"
    by (rule stok_Some [OF assms True])
  then show ?thesis using True by (metis length_map)
qed (use assms stok_None in auto)

theorem stok_splits_witness:
  "\<exists>b' ws. stok 3 (''a b c'' @ [NUL]) (CHR '' '') = Some (int (length ws), b', ws) \<and>
     map (\<lambda>o'. cstr (drop o' b')) ws = [''a'', ''b'', ''c'']"
  using stok_splits [of "''a b c'' @ [NUL]" "CHR '' ''" 3] by (simp add: cstr_def NUL_def)

text \<open>Any number of additions and deletions, one after the other.\<close>

datatype book_op = OpAdd Sub | OpDel Sub

fun op_ok :: "book_op \<Rightarrow> bool" where
  "op_ok (OpAdd s) = wf_sub s"
| "op_ok (OpDel s) = key_sub s"

fun apply_ops :: "alloc \<Rightarrow> Sub \<Rightarrow> book_op list \<Rightarrow> Contact_book \<Rightarrow> Contact_book option" where
  "apply_ops al u [] b = Some b"
| "apply_ops al u (OpAdd s # ops) b = do { (_, b') \<leftarrow> add_sub al u b s; apply_ops al u ops b' }"
| "apply_ops al u (OpDel s # ops) b = do { (_, b', _) \<leftarrow> del_sub al b s; apply_ops al u ops b' }"

text \<open>
  C10. The type invariant of the book: whatever contacts are added and deleted, as long as memory lasts the
  operations are defined and leave a well-formed book, every field a terminated string in its 20
  bytes, the count within the block, and the contacts sorted by name.
\<close>

theorem operations_keep_book:
  assumes "good_alloc al" "raw_sub u" "list_all op_ok ops" "wf_book b" "sorted (map fst (contacts b))"
  shows "\<exists>b'. apply_ops al u ops b = Some b' \<and> wf_book b' \<and> sorted (map fst (contacts b'))"
  using assms(3-5)
proof (induction ops arbitrary: b)
  case (Cons x ops)
  show ?case
  proof (cases x)
    case (OpAdd s)
    then obtain b1 where b1: "add_sub al u b s = Some (0, b1)" "wf_book b1" "contacts b1 = sort_key fst (contacts b @ [abs_sub s])"
      using add_sub_returns [OF assms(1,2) Cons.prems(2), of s] Cons.prems(1) by (auto elim!: returnsE)
    have "sorted (map fst (contacts b1))" unfolding b1(3) by (rule sorted_sort_key)
    then show ?thesis using Cons.IH [of b1] Cons.prems(1) b1 OpAdd by simp
  next
    case (OpDel s)
    then obtain b1 os where b1: "del_sub al b s = Some (0, b1, os)" "wf_book b1" "contacts b1 = remove_first (key_match s) (contacts b)"
      using del_sub_returns [OF assms(1) Cons.prems(2), of s] Cons.prems(1) by (auto elim!: returnsE)
    have "sorted (map fst (contacts b1))" unfolding b1(3) by (rule sorted_remove_first [OF Cons.prems(3)])
    then show ?thesis using Cons.IH [of b1] Cons.prems(1) b1 OpDel by simp
  qed
qed simp

theorem operations_keep_book_witness:
  "\<exists>b'. apply_ops (Some (\<lambda>_. blank_sub)) blank_sub [OpAdd blank_sub, OpDel blank_sub] \<lparr>bsize = 0, arr = Null\<rparr> = Some b' \<and>
    wf_book b' \<and> sorted (map fst (contacts b'))"
proof -
  have w: "wf_sub blank_sub" "key_sub blank_sub" by (simp_all add: wf_sub_def key_sub_def raw_blank_sub, simp_all add: blank_sub_def)
  show ?thesis by (rule operations_keep_book) (use w in \<open>simp_all add: good_alloc_def raw_blank_sub wf_book_def contacts_def\<close>)
qed

end
