(* ===== verification/ContactArray.thy ===== *)
theory ContactArray
  imports ContactBook_Main
begin

text \<open>
  The contact book in a fixed array, \<open>structures/task.c\<close>: the same record and tokeniser as
  \<open>heap/task.c\<close>, but 100 contacts on the stack of \<open>main\<close>, operations that read their input
  themselves, and the assignments of the fields written out.  A function of the program takes
  the array and the count of contacts and returns them updated.
\<close>

section \<open>Operations\<close>

text \<open>\<open>stok\<close>: as in \<open>heap/task.c\<close>, the offset \<open>p\<close> is the pointer \<open>str\<close>.\<close>

function stok_arr_loop ::
  "nat \<Rightarrow> char \<Rightarrow> nat \<Rightarrow> char list \<Rightarrow> nat list \<Rightarrow> (int \<times> char list \<times> nat list) option" where
  "stok_arr_loop cap symbol p b words =
     (if p < length b then
        if b ! p \<noteq> NUL then
          if b ! p = symbol then
            if length words < cap
            then stok_arr_loop cap symbol (p + 1) (b[p := NUL]) (words @ [p + 1])
            else None
          else stok_arr_loop cap symbol (p + 1) b words
        else Some (int (length words), b, words)
      else None)"
  by pat_completeness auto
termination by (relation "measure (\<lambda>(cap, symbol, p, b, words). length b - p)") auto

declare stok_arr_loop.simps [simp del]

definition stok_arr :: "nat \<Rightarrow> char list \<Rightarrow> char \<Rightarrow> (int \<times> char list \<times> nat list) option" where
  "stok_arr cap str symbol = (if cap = 0 then None else stok_arr_loop cap symbol 0 str [0])"

text \<open>The three \<open>strcpy\<close>s that move one contact, then the two loops of \<open>sort\<close>.\<close>

definition copy_fields :: "Sub \<Rightarrow> Sub \<Rightarrow> Sub option" where
  "copy_fields d s =
     do { x \<leftarrow> strcpy (name d) (name s); y \<leftarrow> strcpy (surename d) (surename s);
          z \<leftarrow> strcpy (number d) (number s);
          Some (d\<lparr>name := x, surename := y, number := z\<rparr>) }"

definition exchange :: "Sub \<Rightarrow> int \<Rightarrow> int \<Rightarrow> Sub list \<Rightarrow> Sub list option" where
  "exchange tmp p q c =
     do { cp \<leftarrow> aref c p; t \<leftarrow> copy_fields tmp cp;
          cq \<leftarrow> aref c q; cp' \<leftarrow> copy_fields cp cq; c1 \<leftarrow> aset c p cp';
          cq1 \<leftarrow> aref c1 q; cq' \<leftarrow> copy_fields cq1 t; aset c1 q cq' }"

function sort_arr_inner :: "Sub \<Rightarrow> int \<Rightarrow> int \<Rightarrow> Sub list \<Rightarrow> Sub list option" where
  "sort_arr_inner u sz j contact =
     (if j < sz then
        do { x \<leftarrow> aref contact j; y \<leftarrow> aref contact (j - 1);
             r \<leftarrow> strcmp (name x) (name y);
             contact' \<leftarrow> (if r < 0 then exchange u (j - 1) j contact else Some contact);
             sort_arr_inner u sz (j + 1) contact' }
      else Some contact)"
  by pat_completeness auto
termination by (relation "measure (\<lambda>(u, sz, j, contact). nat (sz - j))") auto

function sort_arr_outer :: "Sub \<Rightarrow> int \<Rightarrow> int \<Rightarrow> Sub list \<Rightarrow> Sub list option" where
  "sort_arr_outer u sz i contact =
     (if i \<ge> 0 then
        do { x \<leftarrow> aref contact (i + 1); y \<leftarrow> aref contact i;
             r \<leftarrow> strcmp (name x) (name y);
             contact' \<leftarrow> (if r < 0
                then do { c1 \<leftarrow> exchange u (i + 1) i contact; sort_arr_inner u sz (i + 1) c1 }
                else Some contact);
             sort_arr_outer u sz (i - 1) contact' }
      else Some contact)"
  by pat_completeness auto
termination by (relation "measure (\<lambda>(u, sz, i, contact). nat (i + 1))") auto

declare sort_arr_inner.simps [simp del] sort_arr_outer.simps [simp del]

definition sort_arr :: "Sub \<Rightarrow> Sub list \<Rightarrow> int \<Rightarrow> Sub list option" where
  "sort_arr u contact sz = sort_arr_outer u sz (sz - 2) contact"

definition add_sub_arr ::
  "Sub \<Rightarrow> Sub list \<Rightarrow> int \<Rightarrow> string \<Rightarrow> (Sub list \<times> int \<times> string \<times> out list) option" where
  "add_sub_arr u contact sz inp =
     do { c \<leftarrow> aref contact sz;
          (_, x, in1) \<leftarrow> scanf_s (name c) inp;
          (_, y, in2) \<leftarrow> scanf_s (surename c) in1;
          (_, z, in3) \<leftarrow> scanf_s (number c) in2;
          z' \<leftarrow> strcat z (lit [NL]);
          contact1 \<leftarrow> aset contact sz (c\<lparr>name := x, surename := y, number := z'\<rparr>);
          contact2 \<leftarrow> sort_arr u contact1 (sz + 1);
          Some (contact2, sz + 1, in3,
            [Print ''enter name: '', Print ''enter surename: '', Print ''enter number: '',
             Print [NL]]) }"

text \<open>
  \<open>del_sub\<close>: unlike the heap version the search goes on after a deletion, with the next index
  and the smaller size.
\<close>

definition match_name :: "Sub \<Rightarrow> char list \<Rightarrow> char list \<Rightarrow> bool option" where
  "match_name c nm sn =
     do { r1 \<leftarrow> strcmp (name c) nm;
          if r1 = 0 then do { r2 \<leftarrow> strcmp (surename c) sn; Some (r2 = 0) } else Some False }"

function shift_arr :: "int \<Rightarrow> int \<Rightarrow> Sub list \<Rightarrow> Sub list option" where
  "shift_arr sz j contact =
     (if j < sz - 1 then
        do { d \<leftarrow> aref contact j; s \<leftarrow> aref contact (j + 1);
             d' \<leftarrow> copy_fields d s; contact' \<leftarrow> aset contact j d';
             shift_arr sz (j + 1) contact' }
      else Some contact)"
  by pat_completeness auto
termination by (relation "measure (\<lambda>(sz, j, contact). nat (sz - j))") auto

function del_arr_loop ::
  "int \<Rightarrow> int \<Rightarrow> Sub list \<Rightarrow> char list \<Rightarrow> char list \<Rightarrow> bool \<Rightarrow> (Sub list \<times> int \<times> bool) option" where
  "del_arr_loop sz i contact nm sn flag =
     (if i < sz then
        do { c \<leftarrow> aref contact i; m \<leftarrow> match_name c nm sn;
             if m then
               do { contact' \<leftarrow> shift_arr sz i contact;
                    del_arr_loop (sz - 1) (i + 1) contact' nm sn True }
             else del_arr_loop sz (i + 1) contact nm sn flag }
      else Some (contact, sz, flag))"
  by pat_completeness auto
termination by (relation "measure (\<lambda>(sz, i, contact, nm, sn, flag). nat (sz - i))") auto

declare shift_arr.simps [simp del] del_arr_loop.simps [simp del]

text \<open>The arrays \<open>name\<close> and \<open>surename\<close> local to \<open>del_sub\<close> and \<open>lookup\<close> hold \<open>nm\<close>, \<open>sn\<close> at first.\<close>

definition del_sub_arr ::
  "char list \<Rightarrow> char list \<Rightarrow> Sub list \<Rightarrow> int \<Rightarrow> string \<Rightarrow>
     (Sub list \<times> int \<times> string \<times> out list) option" where
  "del_sub_arr nm sn contact sz inp =
     do { (nm1, sn1, rest) \<leftarrow> scanf_ss nm sn inp;
          (contact', size', flag) \<leftarrow> del_arr_loop sz 0 contact nm1 sn1 False;
          Some (contact', size', rest,
            Print ''Enter Name and Surename of sub: '' # (if flag then [] else not_found)) }"

function lookup_arr_loop ::
  "int \<Rightarrow> int \<Rightarrow> Sub list \<Rightarrow> char list \<Rightarrow> char list \<Rightarrow> out list option" where
  "lookup_arr_loop sz i contact nm sn =
     (if i < sz then
        do { c \<leftarrow> aref contact i; m \<leftarrow> match_name c nm sn;
             os \<leftarrow> lookup_arr_loop sz (i + 1) contact nm sn;
             if m then
               do { x \<leftarrow> rd_str (name c); y \<leftarrow> rd_str (surename c); z \<leftarrow> rd_str (number c);
                    Some (Print [NL] #
                      Print (''Contact ['' @ x @ '' '' @ y @ ''] --> '' @ z @ [NL]) # os) }
             else Some os }
      else Some [])"
  by pat_completeness auto
termination by (relation "measure (\<lambda>(sz, i, contact, nm, sn). nat (sz - i))") auto

definition lookup_arr ::
  "char list \<Rightarrow> char list \<Rightarrow> Sub list \<Rightarrow> int \<Rightarrow> string \<Rightarrow> (string \<times> out list) option" where
  "lookup_arr nm sn contact sz inp =
     do { (nm1, sn1, rest) \<leftarrow> scanf_ss nm sn inp;
          os \<leftarrow> lookup_arr_loop sz 0 contact nm1 sn1;
          Some (rest, Print ''Enter Name and Surename of sub: '' #
            (if os = [] then not_found else os)) }"

function print_arr_loop :: "int \<Rightarrow> int \<Rightarrow> Sub list \<Rightarrow> out list option" where
  "print_arr_loop sz i contact =
     (if i < sz then
        do { c \<leftarrow> aref contact i;
             x \<leftarrow> rd_str (name c); y \<leftarrow> rd_str (surename c); z \<leftarrow> rd_str (number c);
             os \<leftarrow> print_arr_loop sz (i + 1) contact;
             Some (Print (''Contact'' @ numero @ show_int (i + 1) @ '' - ['' @ x @ '' '' @ y
                     @ ''] --> '' @ z) # Print rule_line # os) }
      else Some [])"
  by pat_completeness auto
termination by (relation "measure (\<lambda>(sz, i, contact). nat (sz - i))") auto

declare lookup_arr_loop.simps [simp del] print_arr_loop.simps [simp del]

definition print_subs_arr :: "Sub list \<Rightarrow> int \<Rightarrow> out list option" where
  "print_subs_arr contact sz =
     do { os \<leftarrow> print_arr_loop sz 0 contact; Some (Print rule_line # os @ [Print [NL]]) }"

section \<open>The program\<close>

text \<open>Indeterminate contents of the local arrays of the program.\<close>

record env_arr =
  a_sub :: Sub
  a_name :: "char list"
  a_surename :: "char list"
  a_contacts :: "Sub list"
  a_num :: "char list"
  a_mass :: "char list"
  a_arr :: "char list"

text \<open>The loop that reads \<open>book.txt\<close>: the contacts stay in the order of the file.\<close>

function load_arr :: "char list \<Rightarrow> string \<Rightarrow> Sub list \<Rightarrow> int \<Rightarrow> (Sub list \<times> int) option" where
  "load_arr mass file contact sz =
     (case fgets mass CONTACT_SIZE file of
        None \<Rightarrow> None
      | Some (got, mass1, rest) \<Rightarrow>
          (if \<not> got then Some (contact, sz)
           else
             do { r \<leftarrow> strcmp mass1 (lit [NL]);
                  if r \<noteq> 0 then
                    do { (count, mass2, words) \<leftarrow> stok_arr (CONTACT_SIZE div 3) mass1 (CHR '' '');
                         if count = 3 then
                           do { c \<leftarrow> aref contact sz;
                                x \<leftarrow> strcpy (name c) (drop (words ! 0) mass2);
                                y \<leftarrow> strcpy (surename c) (drop (words ! 1) mass2);
                                z \<leftarrow> strcpy (number c) (drop (words ! 2) mass2);
                                contact' \<leftarrow> aset contact sz
                                  (c\<lparr>name := x, surename := y, number := z\<rparr>);
                                load_arr mass2 rest contact' (sz + 1) }
                         else load_arr mass2 rest contact sz }
                  else load_arr mass1 rest contact sz }))"
  by pat_completeness auto
termination by (relation "measure (\<lambda>(mass, file, contact, sz). length file)")
    (auto dest: fgets_shorter)

declare load_arr.simps [simp del]

record world_arr =
  subs :: "Sub list"
  size_of_subs :: int
  num_a :: "char list"
  stdin_a :: string
  outs_a :: "out list"

definition step_arr :: "env_arr \<Rightarrow> world_arr \<Rightarrow> (ctl \<times> world_arr) option" where
  "step_arr e w0 =
     do { (_, nm, in1) \<leftarrow> scanf_s (num_a w0) (stdin_a w0);
          let w = w0\<lparr>num_a := nm, stdin_a := in1, outs_a := outs_a w0 @ prompt @ [Shell ''clear'']\<rparr>;
          c1 \<leftarrow> strcmp nm (lit ''1''); c2 \<leftarrow> strcmp nm (lit ''2''); c3 \<leftarrow> strcmp nm (lit ''3'');
          c4 \<leftarrow> strcmp nm (lit ''4''); c5 \<leftarrow> strcmp nm (lit ''5'');
          if c1 = 0 then
            do { (t, n, i, os) \<leftarrow> add_sub_arr (a_sub e) (subs w) (size_of_subs w) (stdin_a w);
                 Some (Continue, w\<lparr>subs := t, size_of_subs := n, stdin_a := i, outs_a := outs_a w @ os\<rparr>) }
          else if c2 = 0 then
            do { (t, n, i, os) \<leftarrow> del_sub_arr (a_name e) (a_surename e) (subs w) (size_of_subs w) (stdin_a w);
                 Some (Continue, w\<lparr>subs := t, size_of_subs := n, stdin_a := i, outs_a := outs_a w @ os\<rparr>) }
          else if c3 = 0 then
            do { os \<leftarrow> print_subs_arr (subs w) (size_of_subs w);
                 Some (Continue, w\<lparr>outs_a := outs_a w @ os\<rparr>) }
          else if c4 = 0 then
            do { (i, os) \<leftarrow> lookup_arr (a_name e) (a_surename e) (subs w) (size_of_subs w) (stdin_a w);
                 Some (Continue, w\<lparr>stdin_a := i, outs_a := outs_a w @ os\<rparr>) }
          else if c5 = 0 then Some (Break, w)
          else Some (Continue, w\<lparr>outs_a := outs_a w @ [Print (''unknown Command'' @ [NL])]\<rparr>) }"

fun loop_arr :: "nat \<Rightarrow> env_arr \<Rightarrow> world_arr \<Rightarrow> (ctl \<times> world_arr) option" where
  "loop_arr 0 e w = Some (Continue, w)"
| "loop_arr (Suc fuel) e w =
     do { (c, w') \<leftarrow> step_arr e w;
          (case c of Continue \<Rightarrow> loop_arr fuel e w' | _ \<Rightarrow> Some (c, w')) }"

function save_arr :: "int \<Rightarrow> int \<Rightarrow> Sub list \<Rightarrow> char list \<Rightarrow> string \<Rightarrow> string option" where
  "save_arr sz i contact buf lf =
     (if i < sz then
        do { c \<leftarrow> aref contact i;
             b1 \<leftarrow> strcpy buf (name c); b2 \<leftarrow> strcat b1 (lit '' '');
             b3 \<leftarrow> strcat b2 (surename c); b4 \<leftarrow> strcat b3 (lit '' '');
             b5 \<leftarrow> strcat b4 (number c); l \<leftarrow> rd_str b5;
             save_arr sz (i + 1) contact b5 (lf @ l) }
      else Some lf)"
  by pat_completeness auto
termination by (relation "measure (\<lambda>(sz, i, contact, buf, lf). nat (sz - i))") auto

declare save_arr.simps [simp del]

definition main_arr ::
  "env_arr \<Rightarrow> nat \<Rightarrow> string option \<Rightarrow> string \<Rightarrow> (ctl \<times> string option \<times> out list) option" where
  "main_arr e fuel file input =
     do { f \<leftarrow> file;
          (t, n) \<leftarrow> load_arr (a_mass e) f (a_contacts e) 0;
          (c, w) \<leftarrow> loop_arr fuel e
            \<lparr>subs = t, size_of_subs = n, num_a = a_num e, stdin_a = input, outs_a = []\<rparr>;
          (case c of
             Break \<Rightarrow> do { f' \<leftarrow> save_arr (size_of_subs w) 0 (subs w) (a_arr e) [];
                          Some (Return 0, Some f', outs_a w) }
           | _ \<Rightarrow> Some (c, None, outs_a w)) }"

end
