(* ===== verification/ContactArray_Correct.thy ===== *)
theory ContactArray_Correct
  imports ContactArray
begin

text \<open>
  Correctness of \<open>structures/task.c\<close>.  Its loops are the loops of the heap version (first section),
  and they touch only the part of the array that is in use (second section), so the lemmas about
  \<open>heap/task.c\<close> carry over; deletion differs, and has its own specification \<open>skip_del\<close>.
\<close>

section \<open>The loops of the two programs agree\<close>

lemma stok_arr_loop_eq: "stok_arr_loop cap c p b ws = stok_loop cap c p b ws"
  by (induction cap c p b ws rule: stok_arr_loop.induct)
    (subst stok_arr_loop.simps, subst stok_loop.simps, auto)

lemma stok_arr_eq [absfn]: "stok_arr = stok"
  by (intro ext) (simp add: stok_arr_def stok_def stok_arr_loop_eq)

lemma copy_fields_eq [absfn]: "copy_fields = copy_sub"
proof (intro ext)
  fix d s :: Sub
  show "copy_fields d s = copy_sub d s" by (cases d) (simp add: copy_fields_def copy_sub_def)
qed

lemma exchange_eq [absfn]: "exchange = swap_subs"
  by (intro ext) (simp add: exchange_def swap_subs_def copy_fields_eq)

lemma sort_arr_inner_eq: "sort_arr_inner u sz j a = sort_inner u sz j a"
  by (induction u sz j a rule: sort_inner.induct)
    (subst sort_arr_inner.simps, subst sort_inner.simps, auto simp: exchange_eq intro!: Option.bind_cong)

lemma sort_arr_outer_eq: "sort_arr_outer u sz i a = sort_outer u sz i a"
  by (induction u sz i a rule: sort_outer.induct)
    (subst sort_arr_outer.simps, subst sort_outer.simps,
      auto simp: exchange_eq sort_arr_inner_eq intro!: Option.bind_cong)

lemma shift_arr_eq [absfn]: "shift_arr sz j a = del_shift sz j a"
  by (induction sz j a rule: shift_arr.induct)
    (subst shift_arr.simps, subst del_shift.simps, auto simp: copy_fields_eq intro!: Option.bind_cong)

lemma match_name_eq: "match_name c (name sb) (surename sb) = match_sub c sb"
  by (simp add: match_name_def match_sub_def)

lemma lookup_arr_loop_eq: "lookup_arr_loop sz i a (name sb) (surename sb) = lookup_loop sz i a sb"
  by (induction sz i a sb rule: lookup_loop.induct)
    (subst lookup_arr_loop.simps, subst lookup_loop.simps, auto simp: match_name_eq intro!: Option.bind_cong)

lemma print_arr_loop_eq: "print_arr_loop sz i a = print_loop sz i a"
  by (induction sz i a rule: print_loop.induct)
    (subst print_arr_loop.simps, subst print_loop.simps, auto intro!: Option.bind_cong)

lemma save_arr_eq: "save_arr sz i a buf f = save_loop sz i a buf f"
  by (induction sz i a buf f rule: save_loop.induct)
    (subst save_arr.simps, subst save_loop.simps, auto intro!: Option.bind_cong)


section \<open>Only the used part of the array matters\<close>

text \<open>
  What an operation does on an array \<open>p\<close> without an access out of bounds it does on \<open>p @ q\<close> too,
  and leaves \<open>q\<close> alone.
\<close>

named_theorems frame \<open>operations on an array framed by further elements\<close>

lemma aref_frame [frame]: "aref p i = Some v \<Longrightarrow> aref (p @ q) i = Some v"
  by (auto simp: aref_def nth_append nat_less_iff split: if_splits)

lemma aset_frame [frame]: "aset p i v = Some p' \<Longrightarrow> aset (p @ q) i v = Some (p' @ q)"
  by (auto simp: aset_def list_update_append nat_less_iff split: if_splits)

lemma swap_subs_frame [frame]: "swap_subs u x y p = Some p' \<Longrightarrow> swap_subs u x y (p @ q) = Some (p' @ q)"
  by (auto simp: swap_subs_def frame split: Option.bind_splits)

lemma sort_inner_frame [frame]:
  "sort_inner u sz j p = Some p' \<Longrightarrow> sort_inner u sz j (p @ q) = Some (p' @ q)"
proof (induction u sz j p rule: sort_inner.induct)
  case (1 u sz j p)
  then show ?case
    by (simp add: sort_inner.simps [of u sz j])
      (auto simp: frame split: if_splits Option.bind_splits)
qed

lemma sort_outer_frame [frame]:
  "sort_outer u sz i p = Some p' \<Longrightarrow> sort_outer u sz i (p @ q) = Some (p' @ q)"
proof (induction u sz i p rule: sort_outer.induct)
  case (1 u sz i p)
  then show ?case
    by (simp add: sort_outer.simps [of u sz i])
      (auto simp: frame split: if_splits Option.bind_splits)
qed

lemma del_shift_frame [frame]: "del_shift sz j p = Some p' \<Longrightarrow> del_shift sz j (p @ q) = Some (p' @ q)"
proof (induction sz j p rule: del_shift.induct)
  case (1 sz j p)
  then show ?case
    by (simp add: del_shift.simps [of sz j])
      (auto simp: frame split: if_splits Option.bind_splits)
qed

lemma lookup_loop_frame [frame]: "lookup_loop sz i p sb = Some os \<Longrightarrow> lookup_loop sz i (p @ q) sb = Some os"
proof (induction sz i p sb arbitrary: os rule: lookup_loop.induct)
  case (1 sz i p sb)
  then show ?case
    by (simp add: lookup_loop.simps [of sz i])
      (auto simp: frame split: if_splits Option.bind_splits)
qed

lemma print_loop_frame [frame]: "print_loop sz i p = Some os \<Longrightarrow> print_loop sz i (p @ q) = Some os"
proof (induction sz i p arbitrary: os rule: print_loop.induct)
  case (1 sz i p)
  then show ?case
    by (simp add: print_loop.simps [of sz i])
      (auto simp: frame split: if_splits Option.bind_splits)
qed

lemma save_loop_frame [frame]: "save_loop sz i p b f = Some r \<Longrightarrow> save_loop sz i (p @ q) b f = Some r"
proof (induction sz i p b f rule: save_loop.induct)
  case (1 sz i p b f)
  then show ?case
    by (simp add: save_loop.simps [of sz i])
      (auto simp: frame split: if_splits Option.bind_splits)
qed

section \<open>The table\<close>

text \<open>The array of \<open>main\<close>: the first \<open>sz\<close> contacts are strings that fit, the others are unused.\<close>

definition wf_tab :: "Sub list \<Rightarrow> int \<Rightarrow> bool" where
  "wf_tab t sz \<longleftrightarrow> length t = CONTACT_SIZE \<and> 0 \<le> sz \<and> sz \<le> int (length t) \<and>
     wf_block (take (nat sz) t) \<and> (\<forall>s \<in> set t. raw_sub s)"

definition entries :: "Sub list \<Rightarrow> int \<Rightarrow> contact list" where
  "entries t sz = map abs_sub (take (nat sz) t)"

lemma wf_tab_split:
  assumes "wf_tab t sz"
  obtains p q where "t = p @ q" "sz = int (length p)" "wf_block p" "entries t sz = map abs_sub p"
    "\<forall>p'. wf_block p' \<and> length p' = length p \<longrightarrow>
       wf_tab (p' @ q) sz \<and> entries (p' @ q) sz = map abs_sub p'"
proof
  let ?n = "nat sz"
  have n: "?n \<le> length t" "0 \<le> sz" using assms by (auto simp: wf_tab_def)
  show "t = take ?n t @ drop ?n t" "sz = int (length (take ?n t))" using n by simp_all
  show "wf_block (take ?n t)" "entries t sz = map abs_sub (take ?n t)"
    using assms by (simp_all add: wf_tab_def entries_def)
  show "\<forall>p'. wf_block p' \<and> length p' = length (take ?n t) \<longrightarrow>
      wf_tab (p' @ drop ?n t) sz \<and> entries (p' @ drop ?n t) sz = map abs_sub p'"
    using assms n by (auto simp: wf_tab_def wf_block_def entries_def dest: in_set_dropD)
qed

lemma length_entries: "wf_tab t sz \<Longrightarrow> int (length (entries t sz)) = sz"
  by (auto simp: wf_tab_def entries_def)

lemma sort_arr_returns:
  assumes "raw_sub u" "wf_tab t sz" "0 < sz"
  shows "returns (sort_arr u t sz) (\<lambda>t'. wf_tab t' sz \<and> entries t' sz = sort_key fst (entries t sz))"
proof -
  obtain p q where t: "t = p @ q" "sz = int (length p)" "wf_block p" "entries t sz = map abs_sub p"
    "\<forall>p'. wf_block p' \<and> length p' = length p \<longrightarrow>
       wf_tab (p' @ q) sz \<and> entries (p' @ q) sz = map abs_sub p'"
    by (rule wf_tab_split [OF assms(2)])
  have n: "0 < length p" "nat (sz - 2 + 1) = length p - 1" "nat sz = length (map abs_sub p)"
    using assms(3) t(2) by auto
  obtain p' where p': "sort_outer u sz (sz - 2) p = Some p'" "wf_block p'"
    "map abs_sub p' = bsort fst (nat sz) (nat (sz - 2 + 1)) (map abs_sub p)"
    using sort_outer_returns [OF assms(1) t(3), of "sz - 2" sz] t(2) assms(3) by (auto elim!: returnsE)
  have eq: "map abs_sub p' = sort_key fst (map abs_sub p)"
    unfolding p'(3) n(2,3) using n(1) bsort_sort_key [of "length p" "map abs_sub p" fst] by simp
  then have "length (map abs_sub p') = length (sort_key fst (map abs_sub p))" by (simp only:)
  then have "length p' = length p" by simp
  then show ?thesis using p' t eq
    by (simp add: sort_arr_def sort_arr_outer_eq sort_outer_frame)
qed

section \<open>Deletion\<close>

text \<open>
  What \<open>del_sub\<close> does to the list: after removing a match the next element is not tested.
\<close>

fun skip_del :: "('a \<Rightarrow> bool) \<Rightarrow> 'a list \<Rightarrow> 'a list" where
  "skip_del P [] = []"
| "skip_del P (x # xs) =
     (if P x then (case xs of [] \<Rightarrow> [] | y # ys \<Rightarrow> y # skip_del P ys) else x # skip_del P xs)"

lemma skip_del_step:
  assumes "i < length A" "P (A ! i)"
  shows "take (Suc i) (take i A @ drop (Suc i) A) @ skip_del P (drop (Suc i) (take i A @ drop (Suc i) A))
     = take i A @ skip_del P (drop i A)"
proof -
  have A: "A = take i A @ A ! i # drop (Suc i) A" using assms(1) by (rule id_take_nth_drop)
  have d: "drop i A = A ! i # drop (Suc i) A" using assms(1) by (simp add: Cons_nth_drop_Suc)
  show ?thesis unfolding d using assms by (cases "drop (Suc i) A") simp_all
qed

lemma skip_del_keeps: "\<not> P x \<Longrightarrow> count_list (skip_del P xs) x = count_list xs x"
proof (induction P xs rule: skip_del.induct)
  case (2 P y ys)
  then show ?case by (cases ys) auto
qed simp

lemma skip_del_filter: "filter (\<lambda>x. \<not> P x) (skip_del P xs) = filter (\<lambda>x. \<not> P x) xs"
proof (induction P xs rule: skip_del.induct)
  case (2 P y ys)
  then show ?case by (cases ys) auto
qed simp

lemma skip_del_separate:
  "successively (\<lambda>x y. \<not> (P x \<and> P y)) xs \<Longrightarrow> skip_del P xs = filter (\<lambda>x. \<not> P x) xs"
proof (induction P xs rule: skip_del.induct)
  case (2 P y ys)
  then show ?case by (cases ys) (auto simp: successively_Cons split: list.splits)
qed simp

lemma skip_del_adjacent:
  "\<forall>c \<in> set xs. \<not> P c \<Longrightarrow> P x \<Longrightarrow> P y \<Longrightarrow> skip_del P (xs @ x # y # zs) = xs @ y # skip_del P zs"
  by (induction xs) auto

text \<open>
  Which positions are removed, said without a loop: an element is, when it matches and the one before it has not been removed.
\<close>

fun gone :: "('a \<Rightarrow> bool) \<Rightarrow> 'a list \<Rightarrow> nat \<Rightarrow> bool" where
  "gone P xs 0 = P (xs ! 0)"
| "gone P xs (Suc k) = (P (xs ! Suc k) \<and> \<not> gone P xs k)"

lemma gone_behind_other: "\<not> P x \<Longrightarrow> gone P (x # xs) (Suc k) = gone P xs k"
  by (induction k) auto

lemma gone_behind_match: "P x \<Longrightarrow> gone P (x # y # ys) (Suc (Suc k)) = gone P ys k"
  by (induction k) auto

lemma skip_del_nths: "skip_del P xs = nths xs {k. \<not> gone P xs k}"
proof (induction P xs rule: skip_del.induct)
  case (2 P x xs)
  show ?case
  proof (cases "P x")
    case True
    then show ?thesis using "2.IH"(1) by (cases xs) (simp_all add: nths_Cons gone_behind_match del: gone.simps(2), simp)
  next
    case False
    then show ?thesis using "2.IH"(2) by (simp add: nths_Cons gone_behind_other del: gone.simps(2))
  qed
qed simp

lemma wf_tab_pred: "wf_tab t sz \<Longrightarrow> 0 < sz \<Longrightarrow> wf_tab t (sz - 1)"
  using set_take_subset_set_take [of "nat (sz - 1)" "nat sz" t]
  by (simp add: wf_tab_def wf_block_def subset_eq)

text \<open>One deletion: the rest of the used part moves down, and the count is one less.\<close>

lemma shift_arr_returns:
  assumes "wf_tab t sz" "0 \<le> i" "i < sz"
  shows "returns (shift_arr sz i t) (\<lambda>t'. wf_tab t' (sz - 1) \<and>
     entries t' (sz - 1) = take (nat i) (entries t sz) @ drop (Suc (nat i)) (entries t sz))"
proof -
  obtain p q where t: "t = p @ q" "sz = int (length p)" "wf_block p" "entries t sz = map abs_sub p"
    "\<forall>p'. wf_block p' \<and> length p' = length p \<longrightarrow>
       wf_tab (p' @ q) sz \<and> entries (p' @ q) sz = map abs_sub p'"
    by (rule wf_tab_split [OF assms(1)])
  let ?A = "map abs_sub p"
  have n: "nat i < length ?A" "nat sz = length ?A" "nat (sz - 1) = length ?A - 1"
    using t(2) assms(2,3) by auto
  obtain p' where p': "del_shift sz i p = Some p'" "wf_block p'" "map abs_sub p' =
      take (nat i) ?A @ take (nat sz - Suc (nat i)) (drop (Suc (nat i)) ?A) @ drop (nat sz - 1) ?A"
    using del_shift_returns [OF t(3) assms(2,3)] t(2) by (auto elim!: returnsE)
  have "length (map abs_sub p') = length ?A"
    unfolding p'(3) n(2) using n(1) by (rule length_shifted) simp
  then have len: "length p' = length p" by simp
  have "take (nat (sz - 1)) (map abs_sub p') = take (nat i) ?A @ drop (Suc (nat i)) (take (length ?A) ?A)"
    unfolding p'(3) n(2,3) using n(1) by (rule take_shifted) simp
  then have "entries (p' @ q) (sz - 1) = take (nat i) ?A @ drop (Suc (nat i)) ?A"
    using len n by (simp add: entries_def take_map)
  moreover have "wf_tab (p' @ q) (sz - 1)"
    using t(5) p'(2) len assms(2,3) by (intro wf_tab_pred) simp_all
  ultimately show ?thesis using p'(1) t by (simp add: shift_arr_eq del_shift_frame)
qed

lemma del_arr_loop_returns:
  assumes "wf_tab t sz" "0 \<le> i" "key_sub sb"
  shows "returns (del_arr_loop sz i t (name sb) (surename sb) flag) (\<lambda>(t', sz', flag').
     wf_tab t' sz' \<and>
     entries t' sz' = take (nat i) (entries t sz) @ skip_del (key_match sb) (drop (nat i) (entries t sz)) \<and>
     flag' = (flag \<or> (\<exists>c \<in> set (drop (nat i) (entries t sz)). key_match sb c)))"
  using assms
proof (induction sz i t "name sb" "surename sb" flag rule: del_arr_loop.induct)
  case (1 sz i t flag)
  let ?E = "entries t sz"
  have len: "int (length ?E) = sz" using "1.prems"(1) by (rule length_entries)
  show ?case
  proof (cases "i < sz")
    case False
    then show ?thesis using len "1.prems" by (simp add: del_arr_loop.simps [of sz i])
  next
    case True
    have n: "nat i < length ?E" "nat (i + 1) = Suc (nat i)" "nat i < length t" "nat i < nat sz"
      using True len "1.prems" by (auto simp: wf_tab_def)
    have rd: "aref t i = Some (t ! nat i)" using n "1.prems" by (simp add: cmem)
    have "wf_sub (take (nat sz) t ! nat i)" using n "1.prems" by (intro wf_block_nth) (auto simp: wf_tab_def)
    then have w: "wf_sub (t ! nat i)" "abs_sub (t ! nat i) = ?E ! nat i"
      using n by (simp_all add: entries_def)
    have m: "match_name (t ! nat i) (name sb) (surename sb) = Some (key_match sb (?E ! nat i))"
      using w "1.prems"(3) by (simp add: match_name_eq cmem)
    have dr: "drop (nat i) ?E = ?E ! nat i # drop (Suc (nat i)) ?E"
      using n by (simp add: Cons_nth_drop_Suc)
    show ?thesis
    proof (cases "key_match sb (?E ! nat i)")
      case False
      from "1.hyps"(2) [OF True rd m False "1.prems"(1) _ "1.prems"(3)] show ?thesis
        using True rd m False "1.prems"(2) dr n
        by (simp add: del_arr_loop.simps [of sz i] take_Suc_conv_app_nth)
    next
      case hit: True
      obtain t' where t': "shift_arr sz i t = Some t'" "wf_tab t' (sz - 1)"
        "entries t' (sz - 1) = take (nat i) ?E @ drop (Suc (nat i)) ?E"
        using shift_arr_returns [OF "1.prems"(1,2) True] by (auto elim!: returnsE)
      have IH: "returns (del_arr_loop (sz - 1) (i + 1) t' (name sb) (surename sb) True)
         (\<lambda>(t'', sz', flag'). wf_tab t'' sz' \<and> entries t'' sz' =
            take (nat (i + 1)) (entries t' (sz - 1))
              @ skip_del (key_match sb) (drop (nat (i + 1)) (entries t' (sz - 1))) \<and> flag')"
        using "1.hyps"(1) [OF True rd m hit t'(1) t'(2) _ "1.prems"(3)] "1.prems"(2) by simp
      show ?thesis using True rd m hit t'(1) dr IH
        unfolding t'(3) n(2) skip_del_step [of "nat i" ?E "key_match sb", OF n(1) hit]
        by (simp add: del_arr_loop.simps [of sz i])
    qed
  qed
qed

end
