(* ===== verification/ContactArray_Main.thy ===== *)
theory ContactArray_Main
  imports ContactArray_Correct
begin

text \<open>
  The program of \<open>structures/task.c\<close> as a whole: its operations on the text of a session, the
  command loop as an instance of \<open>command_shell\<close>, and the properties of the program.
\<close>

section \<open>The operations\<close>

lemma tab_set_last:
  assumes "wf_tab t sz" "sz < int CONTACT_SIZE" "wf_sub s"
  shows "wf_tab (t[nat sz := s]) (sz + 1)"
    "entries (t[nat sz := s]) (sz + 1) = entries t sz @ [abs_sub s]"
proof -
  have n: "nat sz < length t" "nat (sz + 1) = Suc (nat sz)" using assms by (auto simp: wf_tab_def)
  then have tk: "take (nat (sz + 1)) (t[nat sz := s]) = take (nat sz) t @ [s]"
    by (simp add: take_Suc_conv_app_nth)
  show "entries (t[nat sz := s]) (sz + 1) = entries t sz @ [abs_sub s]"
    by (simp add: entries_def tk)
  have "raw_sub x" if "x \<in> set (t[nat sz := s])" for x
    using that assms(1,3) set_update_subset_insert [of t "nat sz" s] by (auto simp: wf_tab_def)
  then show "wf_tab (t[nat sz := s]) (sz + 1)"
    using assms tk n by (auto simp: wf_tab_def wf_block_def)
qed

lemma tab_unused: "wf_tab t sz \<Longrightarrow> sz < int CONTACT_SIZE \<Longrightarrow> aref t sz = Some (t ! nat sz) \<and> raw_sub (t ! nat sz)"
  by (auto simp: wf_tab_def cmem nat_less_iff)

lemma add_sub_arr_returns:
  assumes u: "raw_sub u" and t: "wf_tab t sz" "sz < int CONTACT_SIZE"
    and k: "token 20 n" "token 20 s" "token 19 d" and i: "at_input inp (type_in (n # s # d # ts) @ rest)"
  shows "returns (add_sub_arr u t sz inp) (\<lambda>(t', sz', inp', os). wf_tab t' sz' \<and>
     entries t' sz' = spec_book (Add n s d) (entries t sz) \<and> inp' = NL # type_in ts @ rest \<and>
     os = spec_outs (Add n s d) (entries t sz))"
proof -
  let ?c = "t ! nat sz"
  have c: "aref t sz = Some ?c" "20 \<le> length (name ?c)" "20 \<le> length (surename ?c)"
    "19 \<le> length (number ?c)" "length (number ?c) = 20" "raw_sub ?c"
    using tab_unused [OF t] by (auto simp: raw_sub_def)
  obtain b1 where b1: "scanf_s (name ?c) inp = Some (1, b1, NL # type_in (s # d # ts) @ rest)"
    "length b1 = length (name ?c)" "NUL \<in> set b1" "cstr b1 = n"
    by (rule scan_tokenE [OF k(1) c(2) i])
  obtain b2 where b2: "scanf_s (surename ?c) (NL # type_in (s # d # ts) @ rest)
      = Some (1, b2, NL # type_in (d # ts) @ rest)" "length b2 = length (surename ?c)"
    "NUL \<in> set b2" "cstr b2 = s"
    by (rule scan_tokenE [OF k(2) c(3) at_input_NL])
  obtain b3 where b3: "scanf_s (number ?c) (NL # type_in (d # ts) @ rest)
      = Some (1, b3, NL # type_in ts @ rest)" "length b3 = length (number ?c)"
    "NUL \<in> set b3" "cstr b3 = d"
    by (rule scan_tokenE [OF k(3) c(4) at_input_NL])
  obtain b4 where b4: "strcat b3 (lit [NL]) = Some b4" "length b4 = 20" "NUL \<in> set b4"
    "cstr b4 = d @ [NL]"
    by (rule read_number_field [of b3 d]) (use b3 c(5) k(3) in simp_all)
  let ?s = "?c\<lparr>name := b1, surename := b2, number := b4\<rparr>"
  have s: "wf_sub ?s" "abs_sub ?s = (n, s, d @ [NL])"
    using b1 b2 b4 c(6) by (simp_all add: wf_sub_def raw_sub_def abs_sub_def)
  have st: "aset t sz ?s = Some (t[nat sz := ?s])"
    using t by (simp add: cmem wf_tab_def)
  note w = tab_set_last [OF t s(1)]
  have "0 < sz + 1" using t(1) by (simp add: wf_tab_def)
  from sort_arr_returns [OF u w(1) this] show ?thesis
    using c(1) b1(1) b2(1) b3(1) b4(1) st w(2) s(2)
    by (auto simp: add_sub_arr_def elim!: returnsE)
qed

text \<open>The two names \<open>del_sub\<close> and \<open>lookup\<close> ask for, as the fields of a contact.\<close>

lemma ask_arr_returns:
  assumes k: "token 20 n" "token 20 s" "length nm = 20" "length sn = 20"
    and i: "at_input inp (type_in (n # s # ts) @ rest)"
  obtains sb where "scanf_ss nm sn inp = Some (name sb, surename sb, NL # type_in ts @ rest)"
    "key_sub sb" "cstr (name sb) = n" "cstr (surename sb) = s"
proof -
  have u: "20 \<le> length nm" "20 \<le> length sn" using k by simp_all
  obtain b1 where b1: "scanf_s nm inp = Some (1, b1, NL # type_in (s # ts) @ rest)"
    "NUL \<in> set b1" "cstr b1 = n"
    by (rule scan_tokenE [OF k(1) u(1) i])
  obtain b2 where b2: "scanf_s sn (NL # type_in (s # ts) @ rest) = Some (1, b2, NL # type_in ts @ rest)"
    "NUL \<in> set b2" "cstr b2 = s"
    by (rule scan_tokenE [OF k(2) u(2) at_input_NL])
  show ?thesis
    by (rule that [of "\<lparr>name = b1, surename = b2, number = []\<rparr>"])
      (use b1 b2 in \<open>simp_all add: scanf_ss_def key_sub_def\<close>)
qed

lemma del_sub_arr_returns:
  assumes t: "wf_tab t sz" and k: "token 20 n" "token 20 s" "length nm = 20" "length sn = 20"
    and i: "at_input inp (type_in (n # s # ts) @ rest)"
  shows "returns (del_sub_arr nm sn t sz inp) (\<lambda>(t', sz', inp', os). wf_tab t' sz' \<and>
     entries t' sz' = skip_del (matches n s) (entries t sz) \<and> inp' = NL # type_in ts @ rest \<and>
     os = spec_outs (Del n s) (entries t sz))"
proof -
  obtain sb where sb: "scanf_ss nm sn inp = Some (name sb, surename sb, NL # type_in ts @ rest)"
    "key_sub sb" "cstr (name sb) = n" "cstr (surename sb) = s"
    by (rule ask_arr_returns [OF k i])
  from del_arr_loop_returns [OF t order_refl sb(2), of False] show ?thesis
    using sb by (auto simp: del_sub_arr_def ask_def elim!: returnsE)
qed

lemma lookup_arr_returns:
  assumes t: "wf_tab t sz" and k: "token 20 n" "token 20 s" "length nm = 20" "length sn = 20"
    and i: "at_input inp (type_in (n # s # ts) @ rest)"
  shows "lookup_arr nm sn t sz inp = Some (NL # type_in ts @ rest, spec_outs (Find n s) (entries t sz))"
proof -
  obtain sb where sb: "scanf_ss nm sn inp = Some (name sb, surename sb, NL # type_in ts @ rest)"
    "key_sub sb" "cstr (name sb) = n" "cstr (surename sb) = s"
    by (rule ask_arr_returns [OF k i])
  obtain p q where p: "t = p @ q" "sz = int (length p)" "wf_block p" "entries t sz = map abs_sub p"
    by (rule wf_tab_split [OF t])
  have "lookup_loop sz 0 p sb = Some (concat (map found_line (filter (key_match sb) (map abs_sub p))))"
    using lookup_loop_Some [OF p(3) sb(2), of 0 sz] p(2) by simp
  from lookup_loop_frame [OF this] show ?thesis
    using sb p by (auto simp: lookup_arr_def lookup_arr_loop_eq ask_def Let_def found_line_def
      filter_empty_conv)
qed

lemma print_subs_arr_returns:
  assumes "wf_tab t sz"
  shows "print_subs_arr t sz = Some (spec_outs Show (entries t sz))"
proof -
  obtain p q where p: "t = p @ q" "sz = int (length p)" "wf_block p" "entries t sz = map abs_sub p"
    by (rule wf_tab_split [OF assms])
  have "print_loop sz 0 p = Some (concat (map (\<lambda>k. list_line k (map abs_sub p ! k)) [0 ..< length p]))"
    using print_loop_Some [OF p(3), of 0 sz] p(2) by simp
  from print_loop_frame [OF this] show ?thesis
    using p by (simp add: print_subs_arr_def print_arr_loop_eq del: nth_map)
qed

lemma save_arr_returns:
  assumes "wf_tab t sz" "length buf = 100"
  shows "save_arr sz 0 t buf [] = Some (concat (map render (entries t sz)))"
proof -
  obtain p q where p: "t = p @ q" "sz = int (length p)" "wf_block p" "entries t sz = map abs_sub p"
    by (rule wf_tab_split [OF assms(1)])
  have "save_loop sz 0 p buf [] = Some (concat (map render (map abs_sub p)))"
    using save_loop_Some [OF p(3), of 0 sz buf "[]"] assms(2) p(2) by simp
  from save_loop_frame [OF this] show ?thesis using p by (simp add: save_arr_eq)
qed

section \<open>Loading\<close>

definition sized_arr :: "env_arr \<Rightarrow> bool" where
  "sized_arr e \<longleftrightarrow> raw_sub (a_sub e) \<and> length (a_name e) = 20 \<and> length (a_surename e) = 20 \<and>
     length (a_contacts e) = 100 \<and> (\<forall>s \<in> set (a_contacts e). raw_sub s) \<and>
     length (a_num e) = 20 \<and> length (a_mass e) = 100 \<and> length (a_arr e) = 100"

lemma load_arr_returns:
  assumes "\<forall>c \<in> set cs. valid c" "length mass = 100" "wf_tab t sz" "sz + int (length cs) \<le> 100"
  shows "returns (load_arr mass (concat (map render cs)) t sz) (\<lambda>(t', sz').
     wf_tab t' sz' \<and> entries t' sz' = entries t sz @ cs)"
  using assms
proof (induction cs arbitrary: mass t sz)
  case Nil
  then show ?case by (subst load_arr.simps) (simp add: fgets_eof)
next
  case (Cons c cs)
  have c: "valid c" and room: "sz < int CONTACT_SIZE"
    using Cons.prems by (simp_all add: CONTACT_SIZE_def)
  note f = valid_fields [OF c]
  obtain l where l: "render c = l @ [NL]" "NL \<notin> set l" "NUL \<notin> set l" "length l < 60" "l \<noteq> []"
    using render_line [OF c] by metis
  have "returns (fgets mass CONTACT_SIZE (l @ NL # concat (map render cs)))
    (\<lambda>(g, b, r). g \<and> r = concat (map render cs) \<and> length b = length mass \<and> NUL \<in> set b \<and>
      cstr b = l @ [NL])"
    using l Cons.prems by (intro fgets_returns) (auto simp: CONTACT_SIZE_def)
  then obtain m1 where m1: "fgets mass CONTACT_SIZE (l @ NL # concat (map render cs)) =
      Some (True, m1, concat (map render cs))" "length m1 = 100" "NUL \<in> set m1"
      "cstr m1 = l @ [NL]" using Cons.prems by (auto elim!: returnsE)
  have cmp: "strcmp m1 (lit [NL]) = Some (strcmp_bytes (l @ [NL]) [NL])"
    "strcmp_bytes (l @ [NL]) [NL] \<noteq> 0"
    using m1 l by (simp_all add: strcmp_def cmem strcmp_bytes_eq)
  have sp: "split_on (CHR '' '') (cstr m1) = [fst c, fst (snd c), snd (snd c)]"
    using f(1) l(1) m1(4) by simp
  obtain m2 ws where tok: "stok (CONTACT_SIZE div 3) m1 (CHR '' '') = Some (3, m2, ws)"
    "map (\<lambda>o'. cstr (drop o' m2)) ws = [fst c, fst (snd c), snd (snd c)]"
    "length m2 = 100" "\<forall>o' \<in> set ws. NUL \<in> set (drop o' m2)"
    by (rule stok_Some [OF m1(3), of "CHR '' ''" "CONTACT_SIZE div 3"])
      (auto simp: sp m1(2) CONTACT_SIZE_def)
  obtain o0 o1 o2 where ws: "ws = [o0, o1, o2]"
    using tok(2) by (cases ws rule: list.exhaust; auto simp: map_eq_Cons_conv)
  let ?c = "t ! nat sz"
  have t: "aref t sz = Some ?c" "raw_sub ?c" using tab_unused [OF Cons.prems(3) room] by simp_all
  obtain x where x: "strcpy (name ?c) (drop (ws ! 0) m2) = Some x" "length x = 20" "NUL \<in> set x"
    "cstr x = fst c"
    using strcpy_Some [of "drop (ws ! 0) m2" "name ?c"] tok ws f t by (auto simp: raw_sub_def)
  obtain y where y: "strcpy (surename ?c) (drop (ws ! 1) m2) = Some y" "length y = 20" "NUL \<in> set y"
    "cstr y = fst (snd c)"
    using strcpy_Some [of "drop (ws ! 1) m2" "surename ?c"] tok ws f t by (auto simp: raw_sub_def)
  obtain z where z: "strcpy (number ?c) (drop (ws ! 2) m2) = Some z" "length z = 20" "NUL \<in> set z"
    "cstr z = snd (snd c)"
    using strcpy_Some [of "drop (ws ! 2) m2" "number ?c"] tok ws f t by (auto simp: raw_sub_def)
  let ?s = "?c\<lparr>name := x, surename := y, number := z\<rparr>"
  have s: "wf_sub ?s" "abs_sub ?s = c"
    using x y z by (simp_all add: wf_sub_def raw_sub_def abs_sub_def)
  have st: "aset t sz ?s = Some (t[nat sz := ?s])"
    using Cons.prems(3) room by (simp add: cmem wf_tab_def)
  note w = tab_set_last [OF Cons.prems(3) room s(1)]
  have "returns (load_arr m2 (concat (map render cs)) (t[nat sz := ?s]) (sz + 1)) (\<lambda>(t', sz').
     wf_tab t' sz' \<and> entries t' sz' = entries t sz @ c # cs)"
    using Cons.IH [OF _ tok(3) w(1)] Cons.prems w(2) s(2) by simp
  moreover have "concat (map render (c # cs)) = l @ NL # concat (map render cs)" using l by simp
  ultimately show ?case using m1(1) cmp tok(1) t(1) x(1) y(1) z(1) st
    by (subst load_arr.simps) (simp add: stok_arr_eq)
qed

section \<open>The command loop\<close>

definition stable_arr :: "world_arr \<Rightarrow> bool" where
  "stable_arr w \<longleftrightarrow> wf_tab (subs w) (size_of_subs w) \<and> length (num_a w) = 20"

definition ready_arr :: "world_arr \<Rightarrow> string \<Rightarrow> bool" where
  "ready_arr w rest \<longleftrightarrow> stable_arr w \<and> at_input (stdin_a w) rest"

abbreviation view_arr :: "world_arr \<Rightarrow> contact list" where
  "view_arr w \<equiv> entries (subs w) (size_of_subs w)"

text \<open>The effect of a command, and when it may be given: an addition needs room in the table.\<close>

fun spec_tab :: "cmd \<Rightarrow> contact list \<Rightarrow> contact list" where
  "spec_tab (Del n s) cs = skip_del (matches n s) cs"
| "spec_tab c cs = spec_book c cs"

definition ok_tab :: "cmd \<Rightarrow> contact list \<Rightarrow> bool" where
  "ok_tab c cs \<longleftrightarrow> valid_cmd c \<and> (is_add c \<longrightarrow> length cs < CONTACT_SIZE)"

lemma step_arr_returns:
  assumes e: "sized_arr e" and c: "ok_tab c (view_arr w)" and w: "ready_arr w (type_in (tokens c) @ rest)"
  shows "returns (step_arr e w) (\<lambda>(ct, w'). ct = Continue \<and> ready_arr w' rest \<and>
     view_arr w' = spec_tab c (view_arr w) \<and>
     outs_a w' = outs_a w @ prompt @ [Shell ''clear''] @ spec_outs c (view_arr w))"
proof -
  obtain d ts where tk: "tokens c = [d] # ts"
    "d \<in> {CHR ''1'', CHR ''2'', CHR ''3'', CHR ''4'', CHR ''5''}" by (rule tokens_digit)
  have i: "at_input (stdin_a w) (type_in ([d] # ts) @ rest)" "length (num_a w) = 20"
    using w tk(1) by (simp_all add: ready_arr_def stable_arr_def)
  obtain nm where nm: "scanf_s (num_a w) (stdin_a w) = Some (1, nm, NL # type_in ts @ rest)" "length nm = 20"
    and cmp: "strcmp nm (lit ''1'') = Some (strcmp_bytes [d] ''1'')"
    "strcmp nm (lit ''2'') = Some (strcmp_bytes [d] ''2'')"
    "strcmp nm (lit ''3'') = Some (strcmp_bytes [d] ''3'')"
    "strcmp nm (lit ''4'') = Some (strcmp_bytes [d] ''4'')"
    "strcmp nm (lit ''5'') = Some (strcmp_bytes [d] ''5'')"
    by (rule read_number [OF i(1) digit_token [OF tk(2)] i(2)])
  have t: "wf_tab (subs w) (size_of_subs w)" using w by (simp add: ready_arr_def stable_arr_def)
  have u: "raw_sub (a_sub e)" "length (a_name e) = 20" "length (a_surename e) = 20"
    using e by (simp_all add: sized_arr_def)
  have inp: "at_input (NL # type_in ts @ rest) (type_in ts @ rest)" by simp
  note post = ready_arr_def stable_arr_def type_in_def
  show ?thesis
  proof (cases c)
    case (Add n s m)
    have k: "token 20 n" "token 20 s" "token 19 m" "size_of_subs w < int CONTACT_SIZE"
      using c Add length_entries [OF t] by (simp_all add: ok_tab_def)
    have ts: "ts = n # s # m # []" using tk(1) Add by simp
    from add_sub_arr_returns [OF u(1) t k(4) k(1-3) inp [unfolded ts]] show ?thesis
      using Add nm tk(1) cmp unfolding ts
      by (auto simp: step_arr_def Let_def strcmp_bytes_eq post elim!: returnsE)
  next
    case (Del n s)
    have k: "token 20 n" "token 20 s" using c Del by (simp_all add: ok_tab_def)
    have ts: "ts = n # s # []" using tk(1) Del by simp
    from del_sub_arr_returns [OF t k u(2,3) inp [unfolded ts]] show ?thesis
      using Del nm tk(1) cmp unfolding ts
      by (auto simp: step_arr_def Let_def strcmp_bytes_eq post simp del: spec_outs.simps
        elim!: returnsE)
  next
    case Show
    then show ?thesis using nm tk(1) cmp t
      by (auto simp: step_arr_def Let_def strcmp_bytes_eq post print_subs_arr_returns [OF t])
  next
    case (Find n s)
    have k: "token 20 n" "token 20 s" using c Find by (simp_all add: ok_tab_def)
    have ts: "ts = n # s # []" using tk(1) Find by simp
    from lookup_arr_returns [OF t k u(2,3) inp [unfolded ts]] show ?thesis
      using Find nm tk(1) cmp t unfolding ts
      by (auto simp: step_arr_def Let_def strcmp_bytes_eq post simp del: spec_outs.simps)
  qed
qed

lemma step_arr_exit:
  assumes w: "ready_arr w (type_in [''5''] @ rest)"
  shows "returns (step_arr e w) (\<lambda>(ct, w'). ct = Break \<and> stable_arr w' \<and> view_arr w' = view_arr w \<and>
     outs_a w' = outs_a w @ prompt @ [Shell ''clear''])"
proof -
  have i: "at_input (stdin_a w) (type_in [''5''] @ rest)" "length (num_a w) = 20" "token 20 ''5''"
    using w digit_token by (simp_all add: ready_arr_def stable_arr_def)
  show ?thesis
    by (rule read_number [OF i(1,3,2)])
      (use w in \<open>simp add: step_arr_def Let_def strcmp_bytes_eq stable_arr_def ready_arr_def\<close>)
qed

interpretation array_shell: command_shell sized_arr step_arr loop_arr ready_arr stable_arr view_arr
  outs_a "prompt @ [Shell ''clear'']" tokens "[''5'']" ok_tab spec_tab spec_outs
  by unfold_locales (simp_all only: append_assoc loop_arr.simps step_arr_returns step_arr_exit)

section \<open>Properties of the program\<close>

text \<open>A concrete environment and a table of two equal contacts, for the instances below.\<close>

definition demo_env_arr :: env_arr where
  "demo_env_arr = \<lparr>a_sub = blank_sub, a_name = replicate 20 NUL, a_surename = replicate 20 NUL,
     a_contacts = replicate 100 blank_sub, a_num = replicate 20 NUL, a_mass = replicate 100 NUL,
     a_arr = replicate 100 NUL\<rparr>"

lemma sized_demo_env_arr: "sized_arr demo_env_arr"
  by (simp add: sized_arr_def demo_env_arr_def raw_blank_sub)

lemma demo_tab:
  "wf_tab (replicate 100 blank_sub) 2" "key_sub blank_sub" "key_match blank_sub ([], [], [])"
  "entries (replicate 100 blank_sub) 2 = [([], [], []), ([], [], [])]"
proof -
  have n: "nat (2 :: int) = Suc (Suc 0)" "(100 :: nat) = Suc (Suc 98)" by simp_all
  show "wf_tab (replicate 100 blank_sub) 2"
    by (simp add: wf_tab_def wf_block_def wf_sub_def raw_blank_sub CONTACT_SIZE_def)
      (simp add: blank_sub_def)
  show "key_sub blank_sub" "key_match blank_sub ([], [], [])"
    by (simp_all add: key_sub_def matches_def blank_sub_def cstr_def)
  show "entries (replicate 100 blank_sub) 2 = [([], [], []), ([], [], [])]"
    unfolding entries_def n by (simp add: abs_sub_def blank_sub_def cstr_def)
qed

text \<open>
  C2. The array contact book as a whole: started on a \<open>book.txt\<close> of at most 100 valid contacts
  it loads them in the order of the file, runs every command of a session with the effect and the
  output of the specification (where a deletion is \<open>skip_del\<close> and every addition finds room), and
  writes the resulting list back.
\<close>

theorem main_arr_session:
  assumes "sized_arr e" "\<forall>c \<in> set cs. valid c" "length cs \<le> 100"
    and "ok_run ok_tab spec_tab cmds cs" "length cmds < fuel"
  shows "main_arr e fuel (Some (concat (map render cs))) (session cmds @ rest) =
     (let (cs', os) = run_cmds spec_tab spec_outs cmds cs
      in Some (Return 0, Some (concat (map render cs')), os @ prompt @ [Shell ''clear'']))"
proof -
  have "wf_tab (a_contacts e) 0" "entries (a_contacts e) 0 = []"
    using assms(1) by (simp_all add: wf_tab_def sized_arr_def wf_block_def CONTACT_SIZE_def entries_def)
  then obtain t n where ld: "load_arr (a_mass e) (concat (map render cs)) (a_contacts e) 0 = Some (t, n)"
    "wf_tab t n" "entries t n = cs"
    using load_arr_returns [of cs "a_mass e" "a_contacts e" 0] assms(1-3)
    by (auto simp: sized_arr_def elim!: returnsE)
  let ?w = "\<lparr>subs = t, size_of_subs = n, num_a = a_num e, stdin_a = session cmds @ rest, outs_a = []\<rparr>"
  have "ready_arr ?w (session cmds @ rest)" "ok_run ok_tab spec_tab cmds (view_arr ?w)"
    using ld assms(1,4) by (simp_all add: ready_arr_def stable_arr_def sized_arr_def)
  from array_shell.loop_session [OF assms(1) this(2,1) assms(5)]
  obtain w where w: "loop_arr fuel e ?w = Some (Break, w)" "stable_arr w"
    "view_arr w = fst (run_cmds spec_tab spec_outs cmds cs)"
    "outs_a w = snd (run_cmds spec_tab spec_outs cmds cs) @ prompt @ [Shell ''clear'']"
    using ld(3) by (auto elim!: returnsE)
  have "save_arr (size_of_subs w) 0 (subs w) (a_arr e) [] = Some (concat (map render (view_arr w)))"
    using w(2) assms(1) by (intro save_arr_returns) (simp_all add: stable_arr_def sized_arr_def)
  then show ?thesis using ld(1) w by (simp add: main_arr_def case_prod_beta Let_def)
qed


theorem main_arr_session_witness:
  "main_arr demo_env_arr 4 (Some (''Zed Ray 77'' @ [NL] @ ''Bob Kay 12'' @ [NL]))
     (session [Find ''Zed'' ''Kay'', Add ''Al'' ''May'' ''5'', Del ''Zed'' ''Ray''] @ [])
   = Some (Return 0, Some (''Al May 5'' @ [NL] @ ''Bob Kay 12'' @ [NL]),
       prompt @ [Shell ''clear''] @ ask @ not_found
       @ prompt @ [Shell ''clear'', Print ''enter name: '', Print ''enter surename: '',
         Print ''enter number: '', Print [NL]]
       @ prompt @ [Shell ''clear''] @ ask @ prompt @ [Shell ''clear''])"
proof -
  let ?cs = "[(''Zed'', ''Ray'', ''77'' @ [NL]), (''Bob'', ''Kay'', ''12'' @ [NL])]"
  let ?cmds = "[Find ''Zed'' ''Kay'', Add ''Al'' ''May'' ''5'', Del ''Zed'' ''Ray'']"
  have "\<forall>c \<in> set ?cs. valid c" by (simp add: valid_def plain_def NL_def NUL_def)
  moreover have "ok_run ok_tab spec_tab ?cmds ?cs"
    by (simp add: ok_tab_def token_def isspace_def NUL_def CONTACT_SIZE_def)
  ultimately show ?thesis
    using main_arr_session [OF sized_demo_env_arr, of ?cs ?cmds 4 "[]"]
    by (simp add: render_def matches_def less_char_def insort_key_def)
qed

text \<open>
  C32. \<open>del_sub\<close> of the array version, called as a whole: it reads two words and removes exactly the contacts with
  this name that do not stand right behind a removed one, so all of them if no two neighbours match.  The others stay, in
  their order, the count is smaller by the number of those removed, and the message is printed if none matches.
\<close>

theorem del_sub_arr_removes:
  assumes "wf_tab t sz" "token 20 n" "token 20 s" "length nm = 20" "length sn = 20" "at_input inp (type_in (n # s # ts) @ rest)"
  shows "\<exists>t' sz' os. del_sub_arr nm sn t sz inp = Some (t', sz', NL # type_in ts @ rest, os) \<and> wf_tab t' sz' \<and>
    entries t' sz' = nths (entries t sz) {k. \<not> gone (matches n s) (entries t sz) k} \<and>
    sz' = sz - int (card {k. k < nat sz \<and> gone (matches n s) (entries t sz) k}) \<and>
    os = ask @ (if \<exists>c \<in> set (entries t sz). matches n s c then [] else not_found) \<and>
    (successively (\<lambda>c c'. \<not> (matches n s c \<and> matches n s c')) (entries t sz) \<longrightarrow>
       entries t' sz' = filter (\<lambda>c. \<not> matches n s c) (entries t sz))"
proof -
  obtain t' sz' os where r: "del_sub_arr nm sn t sz inp = Some (t', sz', NL # type_in ts @ rest, os)"
    "wf_tab t' sz'" "entries t' sz' = skip_del (matches n s) (entries t sz)" "os = spec_outs (Del n s) (entries t sz)"
    using del_sub_arr_returns [OF assms] by (auto elim!: returnsE)
  let ?G = "{k. k < nat sz \<and> gone (matches n s) (entries t sz) k}"
  have l: "int (length (entries t sz)) = sz" by (rule length_entries [OF assms(1)])
  have "{k. k < length (entries t sz) \<and> k \<in> {k. \<not> gone (matches n s) (entries t sz) k}} = {..<nat sz} - ?G" using l by auto
  then have "length (entries t' sz') = card ({..<nat sz} - ?G)" by (simp add: r(3) skip_del_nths length_nths)
  also have "\<dots> = nat sz - card ?G" by (subst card_Diff_subset) auto
  finally have "int (length (entries t' sz')) = int (nat sz - card ?G)" by simp
  moreover have "card ?G \<le> nat sz" using card_mono [of "{..<nat sz}" ?G] by fastforce
  ultimately have "sz' = sz - int (card ?G)" using length_entries [OF r(2)] l by simp
  then show ?thesis using r skip_del_separate by (auto simp: skip_del_nths)
qed

text \<open>Of three neighbours with the name the first and the third go, the second stays.\<close>

definition row_of :: "string \<Rightarrow> string \<Rightarrow> string \<Rightarrow> Sub" where
  "row_of n s d = \<lparr>name = n @ replicate (20 - length n) NUL, surename = s @ replicate (20 - length s) NUL, number = d @ replicate (20 - length d) NUL\<rparr>"

definition four_tab :: "Sub list" where
  "four_tab = [row_of ''Al'' ''May'' ''1'', row_of ''Al'' ''May'' ''2'', row_of ''Al'' ''May'' ''3'', row_of ''Bob'' ''Kay'' ''4''] @ replicate 96 blank_sub"

lemma four_tab: "wf_tab four_tab 4" "entries four_tab 4 = [(''Al'', ''May'', ''1''), (''Al'', ''May'', ''2''), (''Al'', ''May'', ''3''), (''Bob'', ''Kay'', ''4'')]"
proof -
  have n: "nat (4 :: int) = Suc (Suc (Suc (Suc 0)))" by simp
  show "entries four_tab 4 = [(''Al'', ''May'', ''1''), (''Al'', ''May'', ''2''), (''Al'', ''May'', ''3''), (''Bob'', ''Kay'', ''4'')]"
    unfolding entries_def n by (simp add: four_tab_def row_of_def abs_sub_def cstr_def NUL_def numeral_eq_Suc)
  show "wf_tab four_tab 4" unfolding wf_tab_def n
    by (auto simp: four_tab_def row_of_def wf_block_def wf_sub_def raw_sub_def raw_blank_sub [unfolded raw_sub_def] CONTACT_SIZE_def numeral_eq_Suc)
qed

theorem del_sub_arr_removes_witness:
  "\<exists>t' sz' os. del_sub_arr (replicate 20 NUL) (replicate 20 NUL) four_tab 4 (type_in [''Al'', ''May'']) = Some (t', sz', [NL], os) \<and>
    entries t' sz' = [(''Al'', ''May'', ''2''), (''Bob'', ''Kay'', ''4'')]"
proof -
  have "token 20 ''Al''" "token 20 ''May''" by (simp_all add: token_def isspace_def NUL_def)
  from del_sub_arr_removes [OF four_tab(1) this, of "replicate 20 NUL" "replicate 20 NUL" "type_in [''Al'', ''May'']" "[]" "[]"]
  obtain t' sz' os where "del_sub_arr (replicate 20 NUL) (replicate 20 NUL) four_tab 4 (type_in [''Al'', ''May'']) = Some (t', sz', NL # type_in [], os)"
    "entries t' sz' = nths (entries four_tab 4) {k. \<not> gone (matches ''Al'' ''May'') (entries four_tab 4) k}" by auto
  moreover have "nths (entries four_tab 4) {k. \<not> gone (matches ''Al'' ''May'') (entries four_tab 4) k} = [(''Al'', ''May'', ''2''), (''Bob'', ''Kay'', ''4'')]"
    by (simp add: four_tab(2) nths_Cons matches_def)
  ultimately show ?thesis by (simp add: type_in_def)
qed

text \<open>
  Of two neighbouring contacts with the given name \<open>del_sub\<close> of the array version removes only
  the first: the element that moves to the index of the deleted one is never compared.
\<close>

theorem del_sub_arr_keeps_adjacent:
  assumes "wf_tab t sz" "key_sub sb" "entries t sz = xs @ c # c' # ys"
    and "key_match sb c" "key_match sb c'" "\<forall>x \<in> set xs. \<not> key_match sb x"
  shows "\<exists>t' sz'. del_arr_loop sz 0 t (name sb) (surename sb) False = Some (t', sz', True) \<and>
    c' \<in> set (entries t' sz')"
proof -
  have "skip_del (key_match sb) (entries t sz) = xs @ c' # skip_del (key_match sb) ys"
    unfolding assms(3) using assms(4-6) by (intro skip_del_adjacent)
  then show ?thesis
    using del_arr_loop_returns [OF assms(1) order_refl assms(2), of False] assms(3-5)
    by (auto elim!: returnsE)
qed

theorem del_sub_arr_keeps_adjacent_witness:
  "\<exists>t' sz'. del_arr_loop 2 0 (replicate 100 blank_sub) (name blank_sub) (surename blank_sub) False
     = Some (t', sz', True) \<and> ([], [], []) \<in> set (entries t' sz')"
  by (rule del_sub_arr_keeps_adjacent [OF demo_tab(1,2), of "[]" "([], [], [])" _ "[]"])
    (use demo_tab(3,4) in simp_all)

end
