(* ===== verification/Interpreter.thy ===== *)
theory Interpreter
  imports ContactBook_Main
begin

text \<open>
  The command interpreter \<open>pipes/command_interpreter/cmd.c\<close>.  The buffer \<open>path\<close> holds the shown
  directory followed by a slash, \<open>poz_of_slesh\<close> the index of the last slash of the directory.
  What the interpreter asks of the system (which paths can be executed, which are directories,
  what fresh memory holds) is the record \<open>sys\<close>; what it does to the outside is a list of events.
  Undefined behaviour of a forked child makes the whole model undefined.
\<close>

section \<open>String routines\<close>

function stok_cmd_loop ::
  "nat \<Rightarrow> char \<Rightarrow> nat \<Rightarrow> char list \<Rightarrow> nat list \<Rightarrow> (int \<times> char list \<times> nat list) option" where
  "stok_cmd_loop cap symb i src strs =
     (if i < length src then
        if src ! i \<noteq> NUL then
          if src ! i = symb then
            (if length strs < cap
             then stok_cmd_loop cap symb (i + 1) (src[i := NUL]) (strs @ [i + 1]) else None)
          else stok_cmd_loop cap symb (i + 1) src strs
        else Some (int (length strs), src, strs)
      else None)"
  by pat_completeness auto
termination by (relation "measure (\<lambda>(cap, symb, i, src, strs). length src - i)") auto

declare stok_cmd_loop.simps [simp del]

definition stok_cmd :: "nat \<Rightarrow> char list \<Rightarrow> char \<Rightarrow> (int \<times> char list \<times> nat list) option" where
  "stok_cmd cap src symb = (if 0 < cap then stok_cmd_loop cap symb 0 src [0] else None)"

function slesh_loop :: "nat \<Rightarrow> nat \<Rightarrow> char list \<Rightarrow> nat \<Rightarrow> nat option" where
  "slesh_loop len i str poz =
     (if i < len then
        (if i < length str
         then slesh_loop len (i + 1) str (if str ! i = CHR ''/'' then i else poz) else None)
      else Some poz)"
  by pat_completeness auto
termination by (relation "measure (\<lambda>(len, i, str, poz). len - i)") auto

declare slesh_loop.simps [simp del]

definition find_last_slesh :: "char list \<Rightarrow> nat option" where
  "find_last_slesh str = do { len \<leftarrow> strlen str; slesh_loop len 0 str 0 }"

section \<open>The interpreter\<close>

definition SIZE :: nat where "SIZE = 255"

text \<open>
  Executing a file \<open>p\<close> with the arguments \<open>as\<close>; creating a file; a change of directory that was
  tried; text on the standard output.
\<close>

datatype event = Exec string "string list" | Create string | Chdir string | Say string

text \<open>
  \<open>exec_ok cwd p\<close>: \<open>execl\<close> of the path \<open>p\<close> succeeds in the directory \<open>cwd\<close>.  \<open>dir_ok p\<close>: \<open>p\<close> names a
  directory, so that \<open>opendir\<close> and \<open>chdir\<close> succeed.  \<open>fresh k n\<close>: the contents of the block that
  the \<open>n\<close>-th call of \<open>malloc\<close> in the program text returns in round \<open>k\<close> of the loop.
\<close>

record sys =
  exec_ok :: "string \<Rightarrow> string \<Rightarrow> bool"
  dir_ok :: "string \<Rightarrow> bool"
  fresh :: "nat \<Rightarrow> nat \<Rightarrow> char list"

record shell =
  path :: "char list"
  poz_of_slesh :: nat
  cwd :: string
  rounds :: nat
  events :: "event list"

definition say :: "event list \<Rightarrow> shell \<Rightarrow> shell" where
  "say es s = s\<lparr>events := events s @ es\<rparr>"

definition chdir :: "sys \<Rightarrow> string \<Rightarrow> shell \<Rightarrow> shell" where
  "chdir sy p s = say [Chdir p] (if dir_ok sy p then s\<lparr>cwd := p\<rparr> else s)"

text \<open>
  Reading a line with \<open>getchar\<close>: at end of input it returns \<open>EOF\<close>, which converted to \<open>char\<close> is
  the byte 255 and never the newline the loop waits for.
\<close>

fun getchar :: "string \<Rightarrow> char \<times> string" where
  "getchar [] = (CHR 0xFF, [])"
| "getchar (c # cs) = (c, cs)"

function read_loop :: "char list \<Rightarrow> int \<Rightarrow> string \<Rightarrow> (int \<times> char list \<times> string) option" where
  "read_loop comand co inp =
     (let (tmp, rest) = getchar inp in
      if tmp \<noteq> NL then
        (if 0 \<le> co \<and> co < int (length comand)
         then read_loop (comand[nat co := tmp]) (co + 1) rest else None)
      else Some (co, comand, rest))"
  by pat_completeness auto
termination by (relation "measure (\<lambda>(comand, co, inp). nat (int (length comand) - co))") auto

declare read_loop.simps [simp del]

text \<open>The child of a command of one word, and of one with an argument.\<close>

definition child_single :: "sys \<Rightarrow> shell \<Rightarrow> char list \<Rightarrow> event list option" where
  "child_single sy s comand =
     do { t \<leftarrow> strcpy (fresh sy (rounds s) 3) (path s); tmp_word \<leftarrow> strcat t comand;
          p1 \<leftarrow> rd_str tmp_word;
          if exec_ok sy (cwd s) p1 then Some [Exec p1 [p1]]
          else
            do { a \<leftarrow> strcat (fresh sy (rounds s) 4) (lit ''/usr/bin/''); tmp_arr \<leftarrow> strcat a comand;
                 p2 \<leftarrow> rd_str tmp_arr; c \<leftarrow> rd_str comand;
                 Some (if exec_ok sy (cwd s) p2 then [Exec p2 [c]]
                       else [Say (''Unknown comand'' @ [NL])]) } }"

definition child_args :: "sys \<Rightarrow> shell \<Rightarrow> char list \<Rightarrow> char list \<Rightarrow> event list option" where
  "child_args sy s w0 w1 =
     do { t \<leftarrow> strcpy (fresh sy (rounds s) 7) (path s); tmp_word \<leftarrow> strcat t w1;
          p0 \<leftarrow> rd_str w0; p1 \<leftarrow> rd_str w1;
          if exec_ok sy (cwd s) p0 then Some [Exec p0 [p0, p1]]
          else
            do { a \<leftarrow> strcat (fresh sy (rounds s) 8) (lit ''/usr/bin/''); tmp_arr \<leftarrow> strcat a w0;
                 p2 \<leftarrow> rd_str tmp_arr; arg \<leftarrow> rd_str tmp_word;
                 Some (if exec_ok sy (cwd s) p2 then [Exec p2 [p0, arg]]
                       else [Say (''Unknown comand'' @ [NL])]) } }"

definition cd_up :: "sys \<Rightarrow> shell \<Rightarrow> shell option" where
  "cd_up sy s =
     do { p \<leftarrow> aset (path s) (int (poz_of_slesh s)) NUL; d \<leftarrow> rd_str p;
          let s1 = chdir sy d (s\<lparr>path := p\<rparr>);
          k \<leftarrow> find_last_slesh (path s1); p' \<leftarrow> strcat (path s1) (lit ''/'');
          Some (s1\<lparr>poz_of_slesh := k, path := p'\<rparr>) }"

definition cd_into :: "sys \<Rightarrow> shell \<Rightarrow> char list \<Rightarrow> shell option" where
  "cd_into sy s w1 =
     do { t \<leftarrow> strcpy (fresh sy (rounds s) 5) (path s); tmp_path \<leftarrow> strcat t w1;
          d \<leftarrow> rd_str tmp_path;
          if dir_ok sy d then
            do { let s1 = chdir sy d s;
                 p \<leftarrow> strcpy (path s1) tmp_path; k \<leftarrow> find_last_slesh p; p' \<leftarrow> strcat p (lit ''/'');
                 Some (s1\<lparr>poz_of_slesh := k, path := p'\<rparr>) }
          else Some (say [Say (''Unknown dir'' @ [NL])] s) }"

definition cmd_cd :: "sys \<Rightarrow> shell \<Rightarrow> char list \<Rightarrow> shell option" where
  "cmd_cd sy s w1 =
     do { up \<leftarrow> strcmp w1 (lit ''..'');
          if up = 0
          then do { _ \<leftarrow> strcpy (fresh sy (rounds s) 5) (path s); cd_up sy s }
          else cd_into sy s w1 }"

definition cmd_create :: "sys \<Rightarrow> shell \<Rightarrow> char list \<Rightarrow> shell option" where
  "cmd_create sy s w1 =
     do { t \<leftarrow> strcpy (fresh sy (rounds s) 6) (path s); tmp_file \<leftarrow> strcat t w1; f \<leftarrow> rd_str tmp_file;
          Some (say [Create f] s) }"

text \<open>The command with at least two words, after \<open>stok\<close>.\<close>

definition run_words :: "sys \<Rightarrow> shell \<Rightarrow> char list \<Rightarrow> char list \<Rightarrow> shell option" where
  "run_words sy s w0 w1 =
     do { cd \<leftarrow> strcmp w0 (lit ''cd'');
          if cd = 0 then cmd_cd sy s w1
          else
            do { cr \<leftarrow> strcmp w0 (lit ''>'');
                 if cr = 0 then cmd_create sy s w1
                 else do { es \<leftarrow> child_args sy s w0 w1; Some (say es s) } } }"

text \<open>One round of the loop; the flag says whether it goes on.\<close>

definition shell_round :: "sys \<Rightarrow> shell \<Rightarrow> string \<Rightarrow> (bool \<times> shell \<times> string) option" where
  "shell_round sy s0 inp =
     do { shown \<leftarrow> rd_str (path s0);
          let s = say [Say (shown @ '':'')] s0;
          (co, c1, rest) \<leftarrow> read_loop (fresh sy (rounds s) 2) 0 inp;
          comand \<leftarrow> aset c1 co NUL;
          q \<leftarrow> strcmp comand (lit ''quit'');
          if q = 0 then Some (False, s, rest)
          else
            do { (n, comand', words) \<leftarrow> stok_cmd SIZE comand (CHR '' '');
                 s' \<leftarrow> (if n = 1
                       then do { es \<leftarrow> child_single sy s comand'; Some (say es s) }
                       else run_words sy s (drop (words ! 0) comand') (drop (words ! 1) comand'));
                 Some (True, s'\<lparr>rounds := rounds s' + 1\<rparr>, rest) } }"

fun shell_loop :: "nat \<Rightarrow> sys \<Rightarrow> shell \<Rightarrow> string \<Rightarrow> (bool \<times> shell \<times> string) option" where
  "shell_loop 0 sy s inp = Some (True, s, inp)"
| "shell_loop (Suc fuel) sy s inp =
     do { (go, s', rest) \<leftarrow> shell_round sy s inp;
          if go then shell_loop fuel sy s' rest else Some (False, s', rest) }"

text \<open>\<open>main\<close>: \<open>dir\<close> is what \<open>getcwd\<close> stores into the first block.\<close>

definition shell_main :: "nat \<Rightarrow> sys \<Rightarrow> string \<Rightarrow> string \<Rightarrow> (bool \<times> shell \<times> string) option" where
  "shell_main fuel sy dir inp =
     do { p \<leftarrow> wr_at (fresh sy 0 0) 0 (dir @ [NUL]);
          k \<leftarrow> find_last_slesh p; p' \<leftarrow> strcat p (lit ''/'');
          shell_loop fuel sy
            \<lparr>path = p', poz_of_slesh = k, cwd = dir, rounds = 0, events = []\<rparr> inp }"

end
