(* ===== verification/Interpreter_Correct.thy ===== *)
theory Interpreter_Correct
  imports Interpreter
begin

text \<open>
  Correctness of \<open>pipes/command_interpreter/cmd.c\<close>: reading a line, splitting it, and the current
  directory as the pair of the shown path and the directory of the process.
\<close>

section \<open>String routines\<close>

lemma stok_cmd_loop_eq: "stok_cmd_loop cap c i b ws = stok_loop cap c i b ws"
  by (induction cap c i b ws rule: stok_cmd_loop.induct)
    (subst stok_cmd_loop.simps, subst stok_loop.simps, auto)

lemma stok_cmd_eq: "stok_cmd = stok"
  by (intro ext) (simp add: stok_cmd_def stok_def stok_cmd_loop_eq)

text \<open>The index of the last slash, 0 when there is none.\<close>

definition last_slash :: "string \<Rightarrow> nat" where
  "last_slash s = length s - Suc (length (takeWhile (\<lambda>c. c \<noteq> CHR ''/'') (rev s)))"

lemma last_slash_none: "CHR ''/'' \<notin> set s \<Longrightarrow> last_slash s = 0"
proof -
  assume "CHR ''/'' \<notin> set s"
  then have eq: "takeWhile (\<lambda>c. c \<noteq> CHR ''/'') (rev s) = rev s" by (auto simp: takeWhile_eq_all_conv)
  show ?thesis unfolding last_slash_def eq by simp
qed

lemma last_slash_append: "CHR ''/'' \<notin> set n \<Longrightarrow> last_slash (p @ CHR ''/'' # n) = length p"
proof -
  assume "CHR ''/'' \<notin> set n"
  then have "takeWhile (\<lambda>c. c \<noteq> CHR ''/'') (rev n @ CHR ''/'' # rev p) = rev n"
    by (subst takeWhile_append2) auto
  then show ?thesis by (simp add: last_slash_def)
qed

lemma last_slash_Cons:
  "last_slash (x # xs) = (if CHR ''/'' \<in> set xs then Suc (last_slash xs) else 0)"
proof (cases "CHR ''/'' \<in> set xs")
  case True
  then obtain p n where "xs = p @ CHR ''/'' # n" "CHR ''/'' \<notin> set n" by (metis split_list_last)
  then show ?thesis using last_slash_append [of n p] last_slash_append [of n "x # p"] by simp
next
  case False
  then show ?thesis
    using last_slash_append [of xs "[]"] last_slash_none [of "x # xs"] by (cases "x = CHR ''/''") auto
qed

lemma last_slash_less: "CHR ''/'' \<in> set s \<Longrightarrow> last_slash s < length s"
  by (auto simp: last_slash_def intro: diff_less)

lemma last_slash_le: "last_slash s \<le> length s"
  by (simp add: last_slash_def)

lemma slesh_loop_Some:
  assumes "len \<le> length b" "i \<le> len"
  shows "slesh_loop len i b poz =
     Some (if CHR ''/'' \<in> set (drop i (take len b)) then i + last_slash (drop i (take len b)) else poz)"
  using assms
proof (induction len i b poz rule: slesh_loop.induct)
  case (1 len i b poz)
  show ?case
  proof (cases "i < len")
    case False
    then show ?thesis using "1.prems" by (subst slesh_loop.simps) simp
  next
    case True
    then have d: "drop i (take len b) = b ! i # drop (Suc i) (take len b)"
      using "1.prems" by (subst Cons_nth_drop_Suc [symmetric]) auto
    show ?thesis using "1.IH" [OF True] "1.prems" True
      by (subst slesh_loop.simps) (auto simp: d last_slash_Cons)
  qed
qed

lemma find_last_slesh_Some: "NUL \<in> set b \<Longrightarrow> find_last_slesh b = Some (last_slash (cstr b))"
proof -
  assume b: "NUL \<in> set b"
  then have t: "take (length (cstr b)) b = cstr b" using cstr_decomp by (metis append_eq_conv_conj)
  then show ?thesis using b length_cstr [OF b] last_slash_none [of "cstr b"]
    by (simp add: find_last_slesh_def cmem slesh_loop_Some)
qed

section \<open>Reading a line\<close>

lemma read_loop_line:
  assumes "NL \<notin> set l" "n + length l \<le> length b"
  shows "read_loop b (int n) (l @ NL # rest) =
     Some (int (n + length l), take n b @ l @ drop (n + length l) b, rest)"
  using assms
proof (induction l arbitrary: n b)
  case Nil
  then show ?case by (subst read_loop.simps) simp
next
  case (Cons x l)
  have "read_loop (b[n := x]) (int (Suc n)) (l @ NL # rest) =
     Some (int (Suc n + length l), take (Suc n) (b[n := x]) @ l @ drop (Suc n + length l) (b[n := x]), rest)"
    using Cons.prems by (intro Cons.IH) auto
  moreover have "take (Suc n) (b[n := x]) = take n b @ [x]"
    using Cons.prems by (simp add: take_Suc_conv_app_nth)
  moreover have "drop (Suc n + length l) (b[n := x]) = drop (Suc n + length l) b" by simp
  ultimately show ?case using Cons.prems by (subst read_loop.simps) (auto simp: add.commute)
qed

lemma read_loop_overflow:
  "0 \<le> n \<Longrightarrow> NL \<notin> set (take (nat (int (length b) - n) + 1) inp) \<Longrightarrow> read_loop b n inp = None"
proof (induction b n inp rule: read_loop.induct)
  case (1 b n inp)
  show ?case
  proof (cases "n < int (length b)")
    case True
    obtain tmp rest where t: "getchar inp = (tmp, rest)" by (cases "getchar inp")
    have k: "nat (int (length b) - n) + 1 = Suc (Suc (nat (int (length b) - (n + 1))))" using True by simp
    have "tmp \<noteq> NL" using t "1.prems"(2) unfolding k by (cases inp) (auto simp: NL_def)
    moreover have "NL \<notin> set (take (nat (int (length b) - (n + 1)) + 1) rest)"
      using t "1.prems"(2) unfolding k by (cases inp) auto
    ultimately show ?thesis using True t "1.IH" [OF t [symmetric] refl] "1.prems"(1)
      by (subst read_loop.simps) simp
  next
    case False
    have "fst (getchar inp) \<noteq> NL" using "1.prems" by (cases inp) (auto simp: NL_def)
    then show ?thesis using False "1.prems"(1)
      by (subst read_loop.simps) (simp add: case_prod_beta Let_def)
  qed
qed

text \<open>A line of at most 254 characters, and the words it is split into.\<close>

definition line_ok :: "string \<Rightarrow> bool" where
  "line_ok l \<longleftrightarrow> NL \<notin> set l \<and> NUL \<notin> set l \<and> length l < SIZE"

definition sized_sys :: "sys \<Rightarrow> bool" where
  "sized_sys sy \<longleftrightarrow> (\<forall>k n. length (fresh sy k n) = SIZE)"

lemma read_command:
  assumes "line_ok l" "length b = SIZE"
  obtains co c1 comand where "read_loop b 0 (l @ NL # rest) = Some (co, c1, rest)"
    "aset c1 co NUL = Some comand" "length comand = SIZE" "NUL \<in> set comand" "cstr comand = l"
proof
  let ?r = "drop (length l) b"
  have n: "length l \<le> length b" "length l < length b" using assms by (simp_all add: line_ok_def)
  show "read_loop b 0 (l @ NL # rest) = Some (int (length l), l @ ?r, rest)"
    using read_loop_line [of l 0 b rest] assms(1) n by (simp add: line_ok_def)
  have "?r = b ! length l # drop (Suc (length l)) b" using n(2) by (simp add: Cons_nth_drop_Suc)
  then show "aset (l @ ?r) (int (length l)) NUL = Some (l @ NUL # drop (Suc (length l)) b)"
    by (simp add: aset_def list_update_append)
  show "length (l @ NUL # drop (Suc (length l)) b) = SIZE" using assms(2) n by simp
  show "NUL \<in> set (l @ NUL # drop (Suc (length l)) b)" by simp
  show "cstr (l @ NUL # drop (Suc (length l)) b) = l"
    by (rule cstr_lit) (use assms(1) in \<open>simp add: line_ok_def\<close>)
qed

text \<open>The array of 255 pointers always suffices: a command of 254 characters has at most 255 words.\<close>

lemma stok_command:
  assumes "NUL \<in> set comand" "cstr comand = l" "line_ok l"
  obtains comand' words where
    "stok_cmd SIZE comand (CHR '' '') = Some (int (length (split_on (CHR '' '') l)), comand', words)"
    "map (\<lambda>o'. cstr (drop o' comand')) words = split_on (CHR '' '') l"
    "length comand' = length comand" "\<forall>o' \<in> set words. NUL \<in> set (drop o' comand')"
proof -
  have "count_list l (CHR '' '') \<le> length l" by (rule count_le_length)
  then have "length (split_on (CHR '' '') (cstr comand)) \<le> SIZE"
    using assms(2,3) by (simp add: length_split_on line_ok_def)
  from stok_Some [OF assms(1) this] show ?thesis using that assms(2) by (metis stok_cmd_eq)
qed

section \<open>The current directory\<close>

text \<open>The prompt shows the directory \<open>d\<close>, and \<open>poz_of_slesh\<close> is where its last component starts.\<close>

definition shows_dir :: "string \<Rightarrow> shell \<Rightarrow> bool" where
  "shows_dir d s \<longleftrightarrow> length (path s) = SIZE \<and> NUL \<in> set (path s) \<and> cstr (path s) = d @ ''/'' \<and>
     poz_of_slesh s = last_slash d"

lemma NUL_slash [simp]: "NUL \<noteq> CHR ''/''" "CHR ''/'' \<noteq> NUL"
  by (simp_all add: NUL_def)

lemma lit_slash: "NUL \<in> set (lit ''/'')" "cstr (lit ''/'') = ''/''"
  by (simp_all add: lit_def cstr_def)

lemma shows_dir_short: "shows_dir d s \<Longrightarrow> length d + 1 < SIZE \<and> NUL \<notin> set d"
  using length_cstr [of "path s"] NUL_notin_cstr [of "path s"] by (auto simp: shows_dir_def)

text \<open>Storing a directory \<open>d\<close> in the buffer, as all three places of the program do.\<close>

lemma show_path:
  assumes "NUL \<in> set p" "length p = SIZE" "cstr p = d" "length d + 1 < SIZE"
  obtains p' where "find_last_slesh p = Some (last_slash d)" "strcat p (lit ''/'') = Some p'"
    "\<forall>s. shows_dir d (s\<lparr>poz_of_slesh := last_slash d, path := p'\<rparr>)"
proof -
  obtain p' where "strcat p (lit ''/'') = Some p'" "length p' = length p" "NUL \<in> set p'"
    "cstr p' = cstr p @ cstr (lit ''/'')"
    by (rule strcat_Some [OF lit_slash(1) assms(1)]) (use assms(2-4) lit_slash(2) in simp_all)
  then show ?thesis
    using that assms lit_slash(2) find_last_slesh_Some [OF assms(1)] by (simp add: shows_dir_def)
qed

definition parent :: "string \<Rightarrow> string" where
  "parent d = take (last_slash d) d"

lemma cd_up_returns:
  assumes "shows_dir d s"
  shows "returns (cd_up sy s) (\<lambda>s'. shows_dir (parent d) s' \<and>
     cwd s' = (if dir_ok sy (parent d) then parent d else cwd s) \<and> rounds s' = rounds s \<and>
     events s' = events s @ [Chdir (parent d)])"
proof -
  let ?k = "poz_of_slesh s" and ?p = "(path s)[poz_of_slesh s := NUL]"
  have s: "length (path s) = SIZE" "NUL \<in> set (path s)" "cstr (path s) = d @ ''/''" "?k = last_slash d"
    using assms by (simp_all add: shows_dir_def)
  have k: "?k \<le> length d" by (simp add: s(4) last_slash_le)
  then have "?k \<le> length (cstr (path s))" by (simp add: s(3))
  from cstr_cut [OF s(2) this] have p: "NUL \<in> set ?p" "cstr ?p = parent d"
    using k by (simp_all add: s(3,4) parent_def)
  have short: "length (parent d) + 1 < SIZE"
    using shows_dir_short [OF assms] last_slash_le [of d] by (simp add: parent_def)
  have st: "aset (path s) (int ?k) NUL = Some ?p"
    using \<open>?k \<le> length (cstr (path s))\<close> length_cstr [OF s(2)] by (simp add: aset_def)
  obtain p' where p': "find_last_slesh ?p = Some (last_slash (parent d))"
    "strcat ?p (lit ''/'') = Some p'"
    "\<forall>s'. shows_dir (parent d) (s'\<lparr>poz_of_slesh := last_slash (parent d), path := p'\<rparr>)"
    by (rule show_path [OF p(1) _ p(2) short]) (use s(1) in simp_all)
  show ?thesis using st p p'
    by (simp add: cd_up_def cmem Let_def chdir_def say_def)
qed

lemma cd_into_returns:
  assumes "shows_dir d s" "sized_sys sy" "NUL \<in> set w1" "length d + length (cstr w1) + 2 < SIZE"
  shows "returns (cd_into sy s w1) (\<lambda>s'. rounds s' = rounds s \<and>
     (let d' = d @ ''/'' @ cstr w1 in
      if dir_ok sy d' then shows_dir d' s' \<and> cwd s' = d' \<and> events s' = events s @ [Chdir d']
      else shows_dir d s' \<and> cwd s' = cwd s \<and> events s' = events s @ [Say (''Unknown dir'' @ [NL])]))"
proof -
  have s: "length (path s) = SIZE" "NUL \<in> set (path s)" "cstr (path s) = d @ ''/''"
    using assms(1) by (simp_all add: shows_dir_def)
  let ?d = "d @ ''/'' @ cstr w1"
  obtain t where t: "strcpy (fresh sy (rounds s) 5) (path s) = Some t" "length t = SIZE" "NUL \<in> set t"
    "cstr t = d @ ''/''"
    using strcpy_Some [OF s(2), of "fresh sy (rounds s) 5"] assms(2,4) s(3)
    by (auto simp: sized_sys_def)
  obtain tp where tp: "strcat t w1 = Some tp" "length tp = SIZE" "NUL \<in> set tp" "cstr tp = ?d"
    using strcat_Some [OF assms(3) t(3)] assms(4) t(2,4) by auto
  obtain p where p: "strcpy (path s) tp = Some p" "length p = SIZE" "NUL \<in> set p" "cstr p = ?d"
    using strcpy_Some [OF tp(3), of "path s"] tp(4) s(1) assms(4) by auto
  have short: "length ?d + 1 < SIZE" using assms(4) by simp
  obtain p' where p': "find_last_slesh p = Some (last_slash ?d)" "strcat p (lit ''/'') = Some p'"
    "\<forall>s'. shows_dir ?d (s'\<lparr>poz_of_slesh := last_slash ?d, path := p'\<rparr>)"
    by (rule show_path [OF p(3,2,4) short])
  show ?thesis using assms(1) t(1) tp p p'
    by (simp add: cd_into_def cmem Let_def chdir_def say_def) (simp add: shows_dir_def)
qed

section \<open>Rounds of the loop\<close>

lemma NL_space_neq [simp]: "isspace (CHR '' '')" by (simp add: isspace_def)

text \<open>A path put together from the shown directory and a word, in a fresh block.\<close>

lemma join_path:
  assumes "shows_dir d s" "length b = SIZE" "NUL \<in> set w" "length d + length (cstr w) + 1 < SIZE"
  obtains t p where "strcpy b (path s) = Some t" "strcat t w = Some p" "length p = SIZE" "NUL \<in> set p"
    "cstr p = d @ ''/'' @ cstr w"
proof -
  have s: "length (path s) = SIZE" "NUL \<in> set (path s)" "cstr (path s) = d @ ''/''"
    using assms(1) by (simp_all add: shows_dir_def)
  obtain t where t: "strcpy b (path s) = Some t" "length t = SIZE" "NUL \<in> set t" "cstr t = d @ ''/''"
    using strcpy_Some [OF s(2), of b] assms(2,4) s(3) by auto
  obtain p where "strcat t w = Some p" "length p = SIZE" "NUL \<in> set p" "cstr p = d @ ''/'' @ cstr w"
    using strcat_Some [OF assms(3) t(3)] assms(4) t(2,4) by auto
  with t(1) show ?thesis using that by blast
qed

text \<open>The second attempt: the contents \<open>g\<close> of a fresh block, then \<open>/usr/bin/\<close> and the command.\<close>

lemma usr_bin_path:
  assumes "length b = SIZE" "NUL \<in> set b" "NUL \<in> set w" "length (cstr b) + length (cstr w) + 9 < SIZE"
  obtains a p where "strcat b (lit ''/usr/bin/'') = Some a" "strcat a w = Some p" "NUL \<in> set p"
    "cstr p = cstr b @ ''/usr/bin/'' @ cstr w"
proof -
  have l: "NUL \<in> set (lit ''/usr/bin/'')" "cstr (lit ''/usr/bin/'') = ''/usr/bin/''"
    by (simp_all add: lit_def cstr_def NUL_def)
  obtain a where a: "strcat b (lit ''/usr/bin/'') = Some a" "length a = SIZE" "NUL \<in> set a"
    "cstr a = cstr b @ ''/usr/bin/''"
    using strcat_Some [OF l(1) assms(2)] assms(1,4) l(2) by auto
  obtain p where "strcat a w = Some p" "NUL \<in> set p" "cstr p = cstr b @ ''/usr/bin/'' @ cstr w"
    using strcat_Some [OF assms(3) a(3)] assms(4) a(2,4) by auto
  with a(1) show ?thesis using that by blast
qed

definition run_spec :: "sys \<Rightarrow> string \<Rightarrow> string \<times> string list \<Rightarrow> string \<times> string list \<Rightarrow> event list" where
  "run_spec sy c first second =
     (if exec_ok sy c (fst first) then [Exec (fst first) (snd first)]
      else if exec_ok sy c (fst second) then [Exec (fst second) (snd second)]
      else [Say (''Unknown comand'' @ [NL])])"

lemma child_single_returns:
  assumes "shows_dir d s" "sized_sys sy" "NUL \<in> set c" "NUL \<in> set (fresh sy (rounds s) 4)"
    and "length d + length (cstr c) + 1 < SIZE"
    and "length (cstr (fresh sy (rounds s) 4)) + length (cstr c) + 9 < SIZE"
  shows "child_single sy s c = Some (run_spec sy (cwd s)
     (d @ ''/'' @ cstr c, [d @ ''/'' @ cstr c])
     (cstr (fresh sy (rounds s) 4) @ ''/usr/bin/'' @ cstr c, [cstr c]))"
proof -
  have f: "length (fresh sy (rounds s) n) = SIZE" for n using assms(2) by (simp add: sized_sys_def)
  obtain t p where t: "strcpy (fresh sy (rounds s) 3) (path s) = Some t" "strcat t c = Some p"
    "NUL \<in> set p" "cstr p = d @ ''/'' @ cstr c"
    by (rule join_path [OF assms(1) f assms(3,5)])
  obtain a q where a: "strcat (fresh sy (rounds s) 4) (lit ''/usr/bin/'') = Some a" "strcat a c = Some q"
    "NUL \<in> set q" "cstr q = cstr (fresh sy (rounds s) 4) @ ''/usr/bin/'' @ cstr c"
    by (rule usr_bin_path [OF f assms(4,3,6)])
  show ?thesis using t a assms(3) by (simp add: child_single_def run_spec_def cmem)
qed

lemma child_args_returns:
  assumes "shows_dir d s" "sized_sys sy" "NUL \<in> set w0" "NUL \<in> set w1"
    and "NUL \<in> set (fresh sy (rounds s) 8)" "length d + length (cstr w1) + 1 < SIZE"
    and "length (cstr (fresh sy (rounds s) 8)) + length (cstr w0) + 9 < SIZE"
  shows "child_args sy s w0 w1 = Some (run_spec sy (cwd s) (cstr w0, [cstr w0, cstr w1])
     (cstr (fresh sy (rounds s) 8) @ ''/usr/bin/'' @ cstr w0, [cstr w0, d @ ''/'' @ cstr w1]))"
proof -
  have f: "length (fresh sy (rounds s) n) = SIZE" for n using assms(2) by (simp add: sized_sys_def)
  obtain t p where t: "strcpy (fresh sy (rounds s) 7) (path s) = Some t" "strcat t w1 = Some p"
    "NUL \<in> set p" "cstr p = d @ ''/'' @ cstr w1"
    by (rule join_path [OF assms(1) f assms(4,6)])
  obtain a q where a: "strcat (fresh sy (rounds s) 8) (lit ''/usr/bin/'') = Some a" "strcat a w0 = Some q"
    "NUL \<in> set q" "cstr q = cstr (fresh sy (rounds s) 8) @ ''/usr/bin/'' @ cstr w0"
    by (rule usr_bin_path [OF f assms(5,3,7)])
  show ?thesis using t a assms(3,4) by (simp add: child_args_def run_spec_def cmem)
qed

text \<open>The three kinds of line a round can read.\<close>

lemma strcmp_words [cmem]:
  "NUL \<in> set b \<Longrightarrow> strcmp b (lit ''quit'') = Some (strcmp_bytes (cstr b) ''quit'')"
  "NUL \<in> set b \<Longrightarrow> strcmp b (lit ''cd'') = Some (strcmp_bytes (cstr b) ''cd'')"
  "NUL \<in> set b \<Longrightarrow> strcmp b (lit ''..'') = Some (strcmp_bytes (cstr b) ''..'')"
  "NUL \<in> set b \<Longrightarrow> strcmp b (lit ''>'') = Some (strcmp_bytes (cstr b) ''>'')"
  by (simp_all add: strcmp_lit NUL_def)

abbreviation asked :: "string \<Rightarrow> shell \<Rightarrow> shell" where
  "asked d \<equiv> say [Say ((d @ ''/'') @ '':'')]"

lemma shows_dir_say [simp]: "shows_dir d (say es s) = shows_dir d s"
  by (simp add: shows_dir_def say_def)

lemma round_quit:
  assumes "shows_dir d s" "sized_sys sy"
  shows "shell_round sy s (''quit'' @ NL # rest) = Some (False, asked d s, rest)"
proof -
  have q: "line_ok ''quit''" "length (fresh sy (rounds (asked d s)) 2) = SIZE"
    using assms(2) by (simp_all add: line_ok_def NL_def NUL_def SIZE_def sized_sys_def)
  obtain co c1 c where "read_loop (fresh sy (rounds (asked d s)) 2) 0 (''quit'' @ NL # rest) = Some (co, c1, rest)"
    "aset c1 co NUL = Some c" "NUL \<in> set c" "cstr c = ''quit''"
    by (rule read_command [OF q])
  then show ?thesis using assms(1)
    by (simp add: shell_round_def shows_dir_def cmem Let_def strcmp_bytes_eq)
qed

lemma stok_one:
  assumes "NUL \<in> set b" "c \<notin> set (cstr b)" "0 < cap"
  shows "stok cap b c = Some (1, b, [0])"
proof -
  obtain r where r: "b = cstr b @ NUL # r" using cstr_decomp [OF assms(1)] by blast
  have n: "count_list (cstr b) c = 0" "nulled c (cstr b) = cstr b" "offsets c 0 (cstr b) = []"
    using assms(2) by (auto simp: nulled_def intro: map_idI) (metis count_notin length_0_conv length_offsets)
  have "stok cap b c = stok_loop cap c (length ([] :: string)) ([] @ cstr b @ NUL # r) [0]"
    using assms(3) r by (simp add: stok_def)
  also have "\<dots> = Some (1, cstr b @ NUL # r, [0])"
    by (subst stok_loop_eq) (use assms(3) n in simp_all)
  finally show ?thesis using r by simp
qed

lemma round_line:
  assumes "shows_dir d s" "sized_sys sy" "line_ok l" "l \<noteq> ''quit''"
  obtains c where "NUL \<in> set c" "cstr c = l" "shell_round sy s (l @ NL # rest) =
     do { (n, c', ws) \<leftarrow> stok_cmd SIZE c (CHR '' '');
          s' \<leftarrow> (if n = 1 then do { es \<leftarrow> child_single sy (asked d s) c'; Some (say es (asked d s)) }
                else run_words sy (asked d s) (drop (ws ! 0) c') (drop (ws ! 1) c'));
          Some (True, s'\<lparr>rounds := rounds s' + 1\<rparr>, rest) }"
proof -
  have f: "length (fresh sy (rounds (asked d s)) 2) = SIZE" using assms(2) by (simp add: sized_sys_def)
  obtain co c1 c where "read_loop (fresh sy (rounds (asked d s)) 2) 0 (l @ NL # rest) = Some (co, c1, rest)"
    "aset c1 co NUL = Some c" "NUL \<in> set c" "cstr c = l"
    by (rule read_command [OF assms(3) f])
  then show ?thesis using assms(1,4) that [of c]
    by (simp add: shell_round_def shows_dir_def cmem Let_def strcmp_bytes_eq)
qed

lemma round_single:
  assumes "shows_dir d s" "sized_sys sy" "line_ok l" "CHR '' '' \<notin> set l" "l \<noteq> ''quit''"
  obtains c where "NUL \<in> set c" "cstr c = l" "shell_round sy s (l @ NL # rest) =
     do { es \<leftarrow> child_single sy (asked d s) c;
          Some (True, (say es (asked d s))\<lparr>rounds := rounds s + 1\<rparr>, rest) }"
proof -
  obtain c where c: "NUL \<in> set c" "cstr c = l" "shell_round sy s (l @ NL # rest) =
     do { (n, c', ws) \<leftarrow> stok_cmd SIZE c (CHR '' '');
          s' \<leftarrow> (if n = 1 then do { es \<leftarrow> child_single sy (asked d s) c'; Some (say es (asked d s)) }
                else run_words sy (asked d s) (drop (ws ! 0) c') (drop (ws ! 1) c'));
          Some (True, s'\<lparr>rounds := rounds s' + 1\<rparr>, rest) }"
    by (rule round_line [OF assms(1-3,5)])
  have "stok_cmd SIZE c (CHR '' '') = Some (1, c, [0])"
    unfolding stok_cmd_eq using c(1,2) assms(4) by (intro stok_one) (simp_all add: SIZE_def)
  with c that show ?thesis by (simp add: say_def)
qed

lemma round_words:
  assumes "shows_dir d s" "sized_sys sy" "line_ok l" "split_on (CHR '' '') l = w0 # w1 # ws"
  obtains a b where "NUL \<in> set a" "cstr a = w0" "NUL \<in> set b" "cstr b = w1"
    "shell_round sy s (l @ NL # rest) =
     do { s' \<leftarrow> run_words sy (asked d s) a b; Some (True, s'\<lparr>rounds := rounds s' + 1\<rparr>, rest) }"
proof -
  have q: "l \<noteq> ''quit''" using assms(4) by auto
  obtain c where c: "NUL \<in> set c" "cstr c = l" "shell_round sy s (l @ NL # rest) =
     do { (n, c', ws) \<leftarrow> stok_cmd SIZE c (CHR '' '');
          s' \<leftarrow> (if n = 1 then do { es \<leftarrow> child_single sy (asked d s) c'; Some (say es (asked d s)) }
                else run_words sy (asked d s) (drop (ws ! 0) c') (drop (ws ! 1) c'));
          Some (True, s'\<lparr>rounds := rounds s' + 1\<rparr>, rest) }"
    by (rule round_line [OF assms(1-3) q])
  obtain c' os where t: "stok_cmd SIZE c (CHR '' '') = Some (int (length (split_on (CHR '' '') l)), c', os)"
    "map (\<lambda>o'. cstr (drop o' c')) os = split_on (CHR '' '') l" "\<forall>o' \<in> set os. NUL \<in> set (drop o' c')"
    by (rule stok_command [OF c(1,2) assms(3)])
  obtain o0 o1 os' where "os = o0 # o1 # os'"
    using t(2) assms(4) by (cases os rule: list.exhaust; auto simp: map_eq_Cons_conv)
  with t c(3) assms(4) that [of "drop o0 c'" "drop o1 c'"] show ?thesis by simp
qed

text \<open>\<open>cd ..\<close> and \<open>cd w\<close>.\<close>

definition word :: "string \<Rightarrow> bool" where
  "word w \<longleftrightarrow> NL \<notin> set w \<and> NUL \<notin> set w \<and> CHR '' '' \<notin> set w"

lemma cd_words: "word w \<Longrightarrow> split_on (CHR '' '') (''cd '' @ w) = [''cd'', w]"
  by (simp add: split_on_no_sep word_def)

lemma cd_line_ok: "word w \<Longrightarrow> length w + 3 < SIZE \<Longrightarrow> line_ok (''cd '' @ w)"
  by (auto simp: line_ok_def word_def NL_def NUL_def)

lemma round_cd_up:
  assumes "shows_dir d s" "sized_sys sy"
  shows "returns (shell_round sy s (''cd ..'' @ NL # rest)) (\<lambda>(go, s', rest'). go \<and> rest' = rest \<and>
     shows_dir (parent d) s' \<and> cwd s' = (if dir_ok sy (parent d) then parent d else cwd s) \<and>
     events s' = events s @ [Say ((d @ ''/'') @ '':''), Chdir (parent d)])"
proof -
  have w: "word ''..''" "length ''..'' + 3 < SIZE" by (simp_all add: word_def NL_def NUL_def SIZE_def)
  obtain a b where r: "NUL \<in> set a" "cstr a = ''cd''" "NUL \<in> set b" "cstr b = ''..''"
    "shell_round sy s ((''cd '' @ ''..'') @ NL # rest) =
     do { s' \<leftarrow> run_words sy (asked d s) a b; Some (True, s'\<lparr>rounds := rounds s' + 1\<rparr>, rest) }"
    by (rule round_words [OF assms cd_line_ok [OF w] cd_words [OF w(1)]])
  have p: "NUL \<in> set (path (asked d s))" "length (cstr (path (asked d s))) < length (fresh sy (rounds (asked d s)) 5)"
    using assms length_cstr [of "path s"] by (auto simp: shows_dir_def say_def sized_sys_def)
  obtain t where t: "strcpy (fresh sy (rounds (asked d s)) 5) (path (asked d s)) = Some t"
    by (rule strcpy_Some [OF p])
  have "shows_dir d (asked d s)" using assms(1) by simp
  from cd_up_returns [OF this, of sy] show ?thesis using r t
    by (auto simp: run_words_def cmd_cd_def cmem strcmp_bytes_eq shows_dir_def say_def elim!: returnsE)
qed

lemma round_cd_into:
  assumes "shows_dir d s" "sized_sys sy" "word w" "w \<noteq> ''..''" "length d + length w + 3 < SIZE"
    and "dir_ok sy (d @ ''/'' @ w)"
  shows "returns (shell_round sy s (''cd '' @ w @ NL # rest)) (\<lambda>(go, s', rest'). go \<and> rest' = rest \<and>
     shows_dir (d @ ''/'' @ w) s' \<and> cwd s' = d @ ''/'' @ w \<and>
     events s' = events s @ [Say ((d @ ''/'') @ '':''), Chdir (d @ ''/'' @ w)])"
proof -
  have len: "length w + 3 < SIZE" using assms(5) by simp
  obtain a b where r: "NUL \<in> set a" "cstr a = ''cd''" "NUL \<in> set b" "cstr b = w"
    "shell_round sy s ((''cd '' @ w) @ NL # rest) =
     do { s' \<leftarrow> run_words sy (asked d s) a b; Some (True, s'\<lparr>rounds := rounds s' + 1\<rparr>, rest) }"
    by (rule round_words [OF assms(1,2) cd_line_ok [OF assms(3) len] cd_words [OF assms(3)]])
  have "shows_dir d (asked d s)" "length d + length (cstr b) + 2 < SIZE" using assms(1,5) r(4) by simp_all
  from cd_into_returns [OF this(1) assms(2) r(3) this(2)] show ?thesis using r assms(4,6)
    by (auto simp: run_words_def cmd_cd_def cmem strcmp_bytes_eq shows_dir_def say_def Let_def elim!: returnsE)
qed

lemma parent_append: "CHR ''/'' \<notin> set n \<Longrightarrow> parent (d @ ''/'' @ n) = d"
  using last_slash_append [of n d] by (simp add: parent_def)

lemma round_cd_back:
  assumes "shows_dir (d @ ''/'' @ w) s" "sized_sys sy" "CHR ''/'' \<notin> set w" "dir_ok sy d"
  obtains s' where "shell_round sy s (''cd ..'' @ NL # rest) = Some (True, s', rest)"
    "shows_dir d s'" "cwd s' = d"
    "events s' = events s @ [Say (((d @ ''/'' @ w) @ ''/'') @ '':''), Chdir d]"
proof -
  have "returns (shell_round sy s (''cd ..'' @ NL # rest)) (\<lambda>(go, s', rest'). go \<and> rest' = rest \<and>
     shows_dir d s' \<and> cwd s' = d \<and>
     events s' = events s @ [Say (((d @ ''/'' @ w) @ ''/'') @ '':''), Chdir d])"
    using round_cd_up [OF assms(1,2), of rest]
    unfolding parent_append [OF assms(3)] by (simp only: assms(4) if_True)
  then show ?thesis
  proof (rule returnsE)
    fix x assume x: "shell_round sy s (''cd ..'' @ NL # rest) = Some x" "case x of (go, s', rest') \<Rightarrow>
      go \<and> rest' = rest \<and> shows_dir d s' \<and> cwd s' = d \<and>
      events s' = events s @ [Say (((d @ ''/'' @ w) @ ''/'') @ '':''), Chdir d]"
    obtain go s' r where "x = (go, s', r)" by (cases x)
    then show ?thesis using x by (intro that [of s']) simp_all
  qed
qed

section \<open>Properties of the program\<close>

text \<open>A concrete system of two directories, for the instances below.\<close>

definition demo_sys :: sys where
  "demo_sys = \<lparr>exec_ok = (\<lambda>c p. p = ''/usr/bin/ls''),
     dir_ok = (\<lambda>p. p = ''/home'' \<or> p = ''/home/a''), fresh = (\<lambda>_ _. replicate SIZE NUL)\<rparr>"

definition demo_shell :: "string \<Rightarrow> shell" where
  "demo_shell d = \<lparr>path = d @ CHR ''/'' # replicate (SIZE - length d - 1) NUL,
     poz_of_slesh = last_slash d, cwd = d, rounds = 0, events = []\<rparr>"

lemma demo_sys_sized: "sized_sys demo_sys"
  by (simp add: sized_sys_def demo_sys_def)

lemma demo_shows: "NUL \<notin> set d \<Longrightarrow> length d + 1 < SIZE \<Longrightarrow> shows_dir d (demo_shell d)"
proof -
  assume d: "NUL \<notin> set d" "length d + 1 < SIZE"
  then obtain k where k: "SIZE - length d - 1 = Suc k" by (metis add_diff_cancel_right' diff_add_inverse
    less_imp_Suc_add add_Suc_right diff_Suc_eq_diff_pred add.commute diff_diff_left)
  have "cstr ((d @ ''/'') @ NUL # replicate k NUL) = d @ ''/''" using d(1) by (intro cstr_lit) simp
  then show ?thesis using d k by (simp add: shows_dir_def demo_shell_def)
qed

text \<open>
  C15. Going into a directory and back: from a prompt that shows the directory of the process,
  \<open>cd w\<close> and \<open>cd ..\<close> change the directory of the process to \<open>d/w\<close> and back to \<open>d\<close>, the prompt shows
  each of them, and \<open>quit\<close> ends the loop.
\<close>

theorem cd_and_back:
  assumes "sized_sys sy" "shows_dir d s" "word w" "CHR ''/'' \<notin> set w" "w \<noteq> ''..''"
    and "length d + length w + 3 < SIZE" "dir_ok sy (d @ ''/'' @ w)" "dir_ok sy d" "2 < fuel"
  shows "\<exists>s'. shell_loop fuel sy s (''cd '' @ w @ NL # ''cd ..'' @ NL # ''quit'' @ NL # rest)
      = Some (False, s', rest) \<and> shows_dir d s' \<and> cwd s' = d \<and>
    events s' = events s @ [Say (d @ ''/:''), Chdir (d @ ''/'' @ w), Say (d @ ''/'' @ w @ ''/:''),
      Chdir d, Say (d @ ''/:'')]"
proof -
  let ?d = "d @ ''/'' @ w"
  have "fuel = Suc (Suc (Suc (fuel - 3)))" using assms(9) by simp
  then obtain k where f: "fuel = Suc (Suc (Suc k))" by blast
  obtain s1 where s1: "shell_round sy s (''cd '' @ w @ NL # ''cd ..'' @ NL # ''quit'' @ NL # rest) =
      Some (True, s1, ''cd ..'' @ NL # ''quit'' @ NL # rest)" "shows_dir ?d s1" "cwd s1 = ?d"
    "events s1 = events s @ [Say ((d @ ''/'') @ '':''), Chdir ?d]"
    using round_cd_into [OF assms(2,1,3,5,6,7), of "''cd ..'' @ NL # ''quit'' @ NL # rest"]
    by (auto elim!: returnsE)
  obtain s2 where s2: "shell_round sy s1 (''cd ..'' @ NL # ''quit'' @ NL # rest) =
      Some (True, s2, ''quit'' @ NL # rest)" "shows_dir d s2" "cwd s2 = d"
    "events s2 = events s1 @ [Say ((?d @ ''/'') @ '':''), Chdir d]"
    by (rule round_cd_back [OF s1(2) assms(1,4,8)])
  have "shell_loop fuel sy s (''cd '' @ w @ NL # ''cd ..'' @ NL # ''quit'' @ NL # rest)
      = Some (False, asked d s2, rest)"
    unfolding f shell_loop.simps s1(1) by (simp add: s2(1) round_quit [OF s2(2) assms(1)] del: append_Cons)
  moreover have "shows_dir d (asked d s2)" "cwd (asked d s2) = d" using s2(2,3) by (simp_all add: say_def shows_dir_def)
  moreover have "events (asked d s2) = events s @ [Say (d @ ''/:''), Chdir ?d, Say (?d @ ''/:''),
      Chdir d, Say (d @ ''/:'')]" using s1(4) s2(4) by (simp add: say_def)
  ultimately show ?thesis by simp
qed

theorem cd_and_back_witness:
  "\<exists>s'. shell_loop 3 demo_sys (demo_shell ''/home'') (''cd '' @ ''a'' @ NL # ''cd ..'' @ NL # ''quit'' @ NL # [])
      = Some (False, s', []) \<and> shows_dir ''/home'' s' \<and> cwd s' = ''/home'' \<and>
    events s' = events (demo_shell ''/home'') @ [Say (''/home'' @ ''/:''), Chdir (''/home'' @ ''/'' @ ''a''),
      Say (''/home'' @ ''/'' @ ''a'' @ ''/:''), Chdir ''/home'', Say (''/home'' @ ''/:'')]"
  by (rule cd_and_back [OF demo_sys_sized demo_shows])
    (simp_all add: word_def NL_def NUL_def SIZE_def demo_sys_def demo_shell_def)

text \<open>
  At a top-level directory the prompt and the process part: \<open>cd ..\<close> from \<open>/n\<close> passes the empty
  path to \<open>chdir\<close>, which fails, so the prompt shows \<open>/\<close> while the process stays in \<open>/n\<close>.
\<close>

theorem cd_up_at_top:
  assumes "sized_sys sy" "shows_dir (''/'' @ n) s" "CHR ''/'' \<notin> set n" "cwd s = ''/'' @ n"
    and "\<not> dir_ok sy []"
  shows "\<exists>s'. shell_round sy s (''cd ..'' @ NL # rest) = Some (True, s', rest) \<and>
    cstr (path s') = ''/'' \<and> cwd s' = ''/'' @ n"
proof -
  have "parent (''/'' @ n) = []" using parent_append [OF assms(3), of "[]"] by simp
  then show ?thesis using round_cd_up [OF assms(2,1), of rest] assms(4,5)
    by (auto simp: shows_dir_def elim!: returnsE)
qed

theorem cd_up_at_top_witness:
  "\<exists>s'. shell_round demo_sys (demo_shell (''/'' @ ''home'')) (''cd ..'' @ NL # []) = Some (True, s', []) \<and>
    cstr (path s') = ''/'' \<and> cwd s' = ''/'' @ ''home''"
  by (rule cd_up_at_top [OF demo_sys_sized demo_shows])
    (simp_all add: NUL_def SIZE_def demo_sys_def demo_shell_def)

text \<open>
  A command of one word runs the file of that name in the shown directory, and if that cannot
  be executed tries a second path: what the fresh block from \<open>malloc\<close> holds, followed by \<open>/usr/bin/\<close>
  and the command.  So the fallback is the intended \<open>/usr/bin\<close> path only if the block happens to
  start with a terminator.
\<close>

theorem single_word_runs:
  assumes "sized_sys sy" "shows_dir d s" "word w" "w \<noteq> ''quit''" "length w < SIZE"
    and "length d + length w + 1 < SIZE" "NUL \<in> set (fresh sy (rounds s) 4)"
    and "length (cstr (fresh sy (rounds s) 4)) + length w + 9 < SIZE"
  shows "\<exists>s'. shell_round sy s (w @ NL # rest) = Some (True, s', rest) \<and> shows_dir d s' \<and>
    cwd s' = cwd s \<and> events s' = events s @ Say (d @ ''/:'') # run_spec sy (cwd s)
      (d @ ''/'' @ w, [d @ ''/'' @ w])
      (cstr (fresh sy (rounds s) 4) @ ''/usr/bin/'' @ w, [w])"
proof -
  have l: "line_ok w" "CHR '' '' \<notin> set w" using assms(3,5) by (simp_all add: line_ok_def word_def)
  obtain c where c: "NUL \<in> set c" "cstr c = w" "shell_round sy s (w @ NL # rest) =
     do { es \<leftarrow> child_single sy (asked d s) c;
          Some (True, (say es (asked d s))\<lparr>rounds := rounds s + 1\<rparr>, rest) }"
    by (rule round_single [OF assms(2,1) l assms(4)])
  have "shows_dir d (asked d s)" using assms(2) by (simp only: shows_dir_say)
  moreover have "rounds (asked d s) = rounds s" "cwd (asked d s) = cwd s"
    by (simp_all add: say_def)
  ultimately show ?thesis using c assms child_single_returns [of d "asked d s" sy c]
    by (auto simp: say_def shows_dir_def)
qed

theorem single_word_runs_witness:
  "\<exists>s'. shell_round demo_sys (demo_shell ''/home'') (''ls'' @ NL # []) = Some (True, s', []) \<and>
    events s' = [Say ''/home/:'', Exec ''/usr/bin/ls'' [''ls'']]"
  using single_word_runs [OF demo_sys_sized demo_shows, of "''/home''" "''ls''" "[]"]
  by (auto simp: word_def NL_def NUL_def SIZE_def demo_sys_def demo_shell_def cstr_def run_spec_def)

text \<open>
  A line that does not end within the 255 bytes of the command buffer, and also end of input,
  makes the reading loop write past the buffer: the program has no defined behaviour then.
\<close>

theorem long_line_overflows:
  assumes "sized_sys sy" "shows_dir d s" "NL \<notin> set (take (SIZE + 1) inp)"
  shows "shell_round sy s inp = None"
proof -
  have "length (fresh sy (rounds (asked d s)) 2) = SIZE" using assms(1) by (simp add: sized_sys_def)
  then have "read_loop (fresh sy (rounds (asked d s)) 2) 0 inp = None"
    using assms(3) by (intro read_loop_overflow) simp_all
  then show ?thesis using assms(2) by (simp add: shell_round_def shows_dir_def cmem Let_def)
qed

theorem long_line_overflows_witness:
  "shell_round demo_sys (demo_shell ''/home'') ''ls'' = None"
  by (rule long_line_overflows [OF demo_sys_sized demo_shows])
    (simp_all add: NL_def NUL_def SIZE_def)

end
