(* ===== verification/Keys.thy ===== *)
theory Keys
  imports Main
begin

text \<open>The keys of the two programs that run on curses, the values \<open>getch\<close> returns for them.\<close>

definition KEY_AT :: int where "KEY_AT = 64"
definition KEY_BACKSPACE :: int where "KEY_BACKSPACE = 263"
definition KEY_BTAB :: int where "KEY_BTAB = 353"
definition KEY_DOWN :: int where "KEY_DOWN = 258"
definition KEY_LEFT :: int where "KEY_LEFT = 260"
definition KEY_NL :: int where "KEY_NL = 10"
definition KEY_RIGHT :: int where "KEY_RIGHT = 261"
definition KEY_TILDE :: int where "KEY_TILDE = 126"
definition KEY_UP :: int where "KEY_UP = 259"

lemmas key_defs = KEY_AT_def KEY_BACKSPACE_def KEY_BTAB_def KEY_DOWN_def KEY_LEFT_def KEY_NL_def KEY_RIGHT_def KEY_TILDE_def KEY_UP_def

end
