(* ===== verification/FileManager.thy ===== *)
theory FileManager
  imports CLib Keys "HOL-Library.Word"
begin

text \<open>
  The two-pane file manager \<open>file_manager/file_manage.c\<close>.  A pane is the record \<open>List\<close> of the program:
  the names of the entries of its directory, the index \<open>local\<close> of the chosen entry, the path.  What is
  drawn is the list of lines of the pane's window, each a name and whether it is a directory (the
  colour).  The system (directory contents, size of the terminal, files that can be executed) is a parameter.
\<close>

section \<open>Data\<close>

definition MAX_PATH_LEN :: nat where "MAX_PATH_LEN = 30000"
definition NAME_SIZE :: nat where "NAME_SIZE = 70"
definition LEN :: nat where "LEN = 30000"

record Pane =
  poz :: int
  local :: int
  str :: "char list list"
  path :: "char list"

text \<open>
  \<open>ls p\<close>: the sorted entries \<open>scandir\<close> finds in \<open>p\<close>, \<open>None\<close> when it fails; \<open>opens p\<close>: whether \<open>opendir\<close> opens \<open>p\<close>;
  \<open>LINES\<close> and \<open>COLS\<close>: the size of the screen; \<open>execs f\<close>: whether \<open>execl\<close> can run the file.
\<close>

record dirs =
  ls :: "string \<Rightarrow> string list option"
  opens :: "string \<Rightarrow> bool"
  LINES :: int
  COLS :: int
  execs :: "string \<Rightarrow> bool"

type_synonym line = "string \<times> bool"

datatype fm_event = Flash | Run string | Edit string | Prompt

text \<open>
  The local variables of one run of the outer loop, the windows, the sizes and places of their frames, and what happened.
\<close>

record fm =
  panes :: "Pane list"
  row :: int
  cols :: int
  side :: int
  windows :: "line list list"
  frames :: "(int \<times> int \<times> int \<times> int) list"
  fm_log :: "fm_event list"


section \<open>Drawing and storing a directory\<close>

text \<open>
  The loop that draws the entries \<open>names[i]\<close>, \<open>i < hi\<close>: it appends the name to the path (after
  \<open>sep\<close>, which is a slash where the path has none yet), asks whether that opens as a directory, and
  cuts the path again at \<open>len\<close>.
\<close>

function draw_loop ::
  "dirs \<Rightarrow> string \<Rightarrow> nat \<Rightarrow> int \<Rightarrow> int \<Rightarrow> char list list \<Rightarrow> char list \<Rightarrow> (char list \<times> line list) option" where
  "draw_loop sy sep len hi i names p =
     (if i < hi then
        do { nm \<leftarrow> aref names i;
             p0 \<leftarrow> strcat p (lit sep); p1 \<leftarrow> strcat p0 nm;
             d \<leftarrow> rd_str p1; n \<leftarrow> rd_str nm;
             p2 \<leftarrow> aset p1 (int len) NUL;
             (p', lns) \<leftarrow> draw_loop sy sep len hi (i + 1) names p2;
             Some (p', (n, opens sy d) # lns) }
      else Some (p, []))"
  by pat_completeness auto
termination by (relation "measure (\<lambda>(sy, sep, len, hi, i, names, p). nat (hi - i))") auto

text \<open>The loop that copies the names into the array \<open>str\<close> of the pane.\<close>

function store_loop :: "int \<Rightarrow> int \<Rightarrow> char list list \<Rightarrow> char list list \<Rightarrow> char list list option" where
  "store_loop n i names rows =
     (if i < n then
        do { nm \<leftarrow> aref names i; r \<leftarrow> aref rows i; r' \<leftarrow> strcpy r nm; rows' \<leftarrow> aset rows i r';
             store_loop n (i + 1) names rows' }
      else Some rows)"
  by pat_completeness auto
termination by (relation "measure (\<lambda>(n, i, names, rows). nat (n - i))") auto

declare draw_loop.simps [simp del] store_loop.simps [simp del]

definition scandir :: "dirs \<Rightarrow> string \<Rightarrow> int \<times> char list list" where
  "scandir sy d = (case ls sy d of None \<Rightarrow> (-1, []) | Some ns \<Rightarrow> (int (length ns), map lit ns))"

text \<open>What the outer loop does first, for each of the two panes.\<close>

definition open_pane :: "dirs \<Rightarrow> Pane \<Rightarrow> (Pane \<times> line list) option" where
  "open_pane sy l =
     do { tl \<leftarrow> strlen (path l); d \<leftarrow> rd_str (path l);
          let (n, names) = scandir sy d;
          (p, lns) \<leftarrow> draw_loop sy [] tl (if n > 31 then 31 else n) 1 names (path l);
          rows \<leftarrow> store_loop n 1 names (str l);
          Some (\<lparr>poz = n, local = 1, str = rows, path = p\<rparr>, lns) }"

text \<open>The frames of the panes, as the arguments of \<open>newwin\<close>: the screen as wide as it is now is halved.\<close>

definition pane_frames :: "dirs \<Rightarrow> (int \<times> int \<times> int \<times> int) list" where
  "pane_frames sy = [(32, COLS sy div 2, 0, 0), (32, COLS sy div 2, 0, COLS sy div 2)]"

definition open_panes :: "dirs \<Rightarrow> int \<Rightarrow> int \<Rightarrow> Pane list \<Rightarrow> fm_event list \<Rightarrow> fm option" where
  "open_panes sy glob_side glob_cols ps lg =
     do { l0 \<leftarrow> aref ps 0; l1 \<leftarrow> aref ps 1;
          (l0', w0) \<leftarrow> open_pane sy l0; (l1', w1) \<leftarrow> open_pane sy l1;
          Some \<lparr>panes = [l0', l1'], row = 1, cols = glob_cols, side = glob_side,
            windows = [w0, w1], frames = pane_frames sy, fm_log = lg\<rparr> }"

section \<open>Keys\<close>

definition set_pane :: "fm \<Rightarrow> Pane \<Rightarrow> fm option" where
  "set_pane s l = do { ps \<leftarrow> aset (panes s) (side s) l; Some (s\<lparr>panes := ps\<rparr>) }"

definition set_window :: "fm \<Rightarrow> line list \<Rightarrow> fm option" where
  "set_window s lns = do { ws \<leftarrow> aset (windows s) (side s) lns; Some (s\<lparr>windows := ws\<rparr>) }"

definition flash :: "fm \<Rightarrow> fm" where
  "flash s = s\<lparr>fm_log := fm_log s @ [Flash]\<rparr>"

definition key_btab :: "dirs \<Rightarrow> fm \<Rightarrow> fm option" where
  "key_btab sy s =
     (let s1 = (if side s = 0 then s\<lparr>cols := COLS sy div 2 + 1, side := 1\<rparr>
                else s\<lparr>cols := 1, side := 0\<rparr>)
      in do { l \<leftarrow> aref (panes s1) (side s1); set_pane (s1\<lparr>row := 1\<rparr>) (l\<lparr>local := 1\<rparr>) })"

text \<open>Redrawing a page: the entries from \<open>i\<close> up to \<open>hi\<close>.\<close>

definition draw_page :: "dirs \<Rightarrow> int \<Rightarrow> int \<Rightarrow> Pane \<Rightarrow> (Pane \<times> line list) option" where
  "draw_page sy hi i l =
     do { len \<leftarrow> strlen (path l);
          (p, lns) \<leftarrow> draw_loop sy [] len hi i (str l) (path l);
          Some (l\<lparr>path := p\<rparr>, lns) }"

definition key_up :: "dirs \<Rightarrow> fm \<Rightarrow> fm option" where
  "key_up sy s =
     do { l \<leftarrow> aref (panes s) (side s);
          if row s > 1 then set_pane (s\<lparr>row := row s - 1\<rparr>) (l\<lparr>local := local l - 1\<rparr>)
          else if local l > 1 then
            do { (l', lns) \<leftarrow> draw_page sy (local l) (local l - 30) l;
                 s1 \<leftarrow> set_window (s\<lparr>row := 30\<rparr>) lns;
                 set_pane s1 (l'\<lparr>local := local l' - 1\<rparr>) }
          else Some (flash s) }"

definition key_down :: "dirs \<Rightarrow> fm \<Rightarrow> fm option" where
  "key_down sy s =
     do { l \<leftarrow> aref (panes s) (side s);
          if poz l - 1 < 30 then
            (if row s < poz l - 1
             then set_pane (s\<lparr>row := row s + 1\<rparr>) (l\<lparr>local := local l + 1\<rparr>) else Some s)
          else if row s < 30 \<and> local l < poz l - 1
          then set_pane (s\<lparr>row := row s + 1\<rparr>) (l\<lparr>local := local l + 1\<rparr>)
          else if local l < poz l - 1 then
            do { let l1 = l\<lparr>local := local l + 1\<rparr>;
                 (l', lns) \<leftarrow> draw_page sy
                   (if poz l1 > local l1 + 30 then local l1 + 30 else poz l1) (local l1) l1;
                 s1 \<leftarrow> set_window (s\<lparr>row := 1\<rparr>) lns;
                 set_pane s1 l' }
          else Some (flash s) }"

text \<open>
  Enter: the result tells whether the inner loop is left because the entry is not a directory, and
  the length at which the path is cut afterwards (\<open>glob\<close>).
\<close>

definition key_enter :: "dirs \<Rightarrow> fm \<Rightarrow> (nat option \<times> fm) option" where
  "key_enter sy s =
     do { l \<leftarrow> aref (panes s) (side s);
          slen \<leftarrow> strlen (path l);
          nm \<leftarrow> aref (str l) (local l);
          p \<leftarrow> strcat (path l) nm; d \<leftarrow> rd_str p;
          let (count, names) = scandir sy d;
          if \<not> opens sy d then
            do { s' \<leftarrow> set_pane s (l\<lparr>path := p\<rparr>); Some (Some slen, s') }
          else if count > 0 then
            do { tlen \<leftarrow> strlen p;
                 (p1, lns) \<leftarrow> draw_loop sy ''/'' tlen (if count > 31 then 31 else count) 1 names p;
                 rows \<leftarrow> store_loop count 1 names (str l);
                 p2 \<leftarrow> strcat p1 (lit ''/'');
                 s1 \<leftarrow> set_window (s\<lparr>row := 1\<rparr>) lns;
                 s' \<leftarrow> set_pane s1 (l\<lparr>poz := count, str := rows, local := 1, path := p2\<rparr>);
                 Some (None, s') }
          else do { s' \<leftarrow> set_pane s (l\<lparr>path := p\<rparr>); Some (None, s') } }"

section \<open>The loops\<close>

text \<open>
  The inner loop on the keys still to be typed: it ends at a tilde (result \<open>None\<close>) or at an entry
  that is not a directory (result \<open>glob\<close>).  The first argument is the variable \<open>c\<close>, which is not
  initialised before the first test of the loop; \<open>None\<close> as the keys left means that the program is
  still waiting for a key.
\<close>

fun browse :: "dirs \<Rightarrow> int \<Rightarrow> int list \<Rightarrow> fm \<Rightarrow> (nat option \<times> int list option \<times> fm) option" where
  "browse sy c ks s =
     (if c = KEY_TILDE then Some (None, Some ks, s)
      else (case ks of
        [] \<Rightarrow> Some (None, None, s)
      | k # ks' \<Rightarrow>
          if k = KEY_BTAB then do { s' \<leftarrow> key_btab sy s; browse sy k ks' s' }
          else if k = KEY_UP then do { s' \<leftarrow> key_up sy s; browse sy k ks' s' }
          else if k = KEY_DOWN then do { s' \<leftarrow> key_down sy s; browse sy k ks' s' }
          else if k = KEY_NL then
            do { (g, s') \<leftarrow> key_enter sy s;
                 (case g of Some glob \<Rightarrow> Some (Some glob, Some ks', s') | None \<Rightarrow> browse sy k ks' s') }
          else browse sy k ks' s))"

declare browse.simps [simp del]

text \<open>
  The handler of \<open>SIGWINCH\<close>: curses follows the size that is read from the terminal.  While the inner loop waits for a key
  the size may change: each element of the list has the keys before a change, and the new size.
\<close>

definition fm_winch :: "16 word \<times> 16 word \<Rightarrow> dirs \<Rightarrow> dirs" where
  "fm_winch sz sy = sy\<lparr>LINES := uint (fst sz), COLS := uint (snd sz)\<rparr>"

fun browse_resized ::
  "dirs \<Rightarrow> int \<Rightarrow> (int list \<times> 16 word \<times> 16 word) list \<Rightarrow> int list \<Rightarrow> fm \<Rightarrow> (nat option \<times> int list option \<times> fm) option" where
  "browse_resized sy c [] ks s = browse sy c ks s"
| "browse_resized sy c ((ts, sz) # rs) ks s =
     do { (g, left, s') \<leftarrow> browse sy c ts s;
          (case left of Some r \<Rightarrow> Some (g, Some (r @ concat (map fst rs) @ ks), s')
           | None \<Rightarrow> browse_resized (fm_winch sz sy) (last (c # ts)) rs ks s') }"

text \<open>
  What the child does with a file: \<open>execl\<close> runs it, and when that fails opens it in the editor \<open>vim\<close>.
  Where that fails too both calls have returned, and the child goes on (\<open>None\<close>).
\<close>

definition hand_over :: "dirs \<Rightarrow> string \<Rightarrow> fm_event option" where
  "hand_over sy f =
     (if execs sy f then Some (Run f) else if execs sy ''/usr/bin/vim'' then Some (Edit f) else None)"

text \<open>
  How a run of the outer loop stands: ended, with the keys that are left; waiting for a key; or cut
  off by the fuel.  The state is that of the process that ended or waits.
\<close>

datatype fm_end = Ended "int list" fm | Waiting fm | Cut_off

text \<open>
  What a round of the outer loop finds: the indeterminate first value of \<open>c\<close>, and whether \<open>fork\<close> makes a child.
\<close>

type_synonym round = "int \<times> bool"

definition this_round :: "round list \<Rightarrow> round" where
  "this_round rs = hd (rs @ [(0, True)])"

text \<open>
  The parent after the child: the prompt, a key, and the path is cut back.  The result is \<open>None\<close> in place of
  the keys left while no key has come.
\<close>

definition after_child :: "nat \<Rightarrow> int list \<Rightarrow> fm \<Rightarrow> (int list option \<times> fm) option" where
  "after_child glob ks s =
     (let s1 = s\<lparr>fm_log := fm_log s @ [Prompt]\<rparr>
      in case ks of
        [] \<Rightarrow> Some (None, s1)
      | _ # ks' \<Rightarrow>
          do { l \<leftarrow> aref (panes s1) (side s1); p \<leftarrow> aset (path l) (int glob) NUL;
               s2 \<leftarrow> set_pane s1 (l\<lparr>path := p\<rparr>); Some (Some ks', s2) })"

text \<open>
  The outer loop, for at most \<open>fuel\<close> rounds.  A child that neither \<open>execl\<close> has replaced is a second
  run of the same loop, from a copy of the variables: its path is not cut, and it takes the keys while the parent
  waits for its end.
\<close>

fun fm_loop ::
  "nat \<Rightarrow> dirs \<Rightarrow> round list \<Rightarrow> int \<Rightarrow> int \<Rightarrow> Pane list \<Rightarrow> int list \<Rightarrow> fm_event list \<Rightarrow> (round list \<times> fm_end) option" where
  "fm_loop 0 sy rs gs gc ps ks lg = Some (rs, Cut_off)"
| "fm_loop (Suc fuel) sy rs gs gc ps ks lg =
     do { s \<leftarrow> open_panes sy gs gc ps lg;
          (g, left, s') \<leftarrow> browse sy (fst (this_round rs)) ks s;
          (case left of
             None \<Rightarrow> Some (tl rs, Waiting s')
           | Some ks' \<Rightarrow>
               (case g of
                  None \<Rightarrow> Some (tl rs, Ended ks' s')
                | Some glob \<Rightarrow>
                    do { l \<leftarrow> aref (panes s') (side s'); f \<leftarrow> rd_str (path l);
                         (rs', e) \<leftarrow>
                           (if \<not> snd (this_round rs) then Some (tl rs, Ended ks' s')
                            else case hand_over sy f of
                              Some ev \<Rightarrow> Some (tl rs, Ended ks' (s'\<lparr>fm_log := fm_log s' @ [ev]\<rparr>))
                            | None \<Rightarrow> fm_loop fuel sy (tl rs) (side s') (cols s') (panes s') ks' (fm_log s'));
                         (case e of
                            Ended ks2 u \<Rightarrow>
                              do { (left2, s2) \<leftarrow> after_child glob ks2 (s'\<lparr>fm_log := fm_log u\<rparr>);
                                   (case left2 of
                                      None \<Rightarrow> Some (rs', Waiting s2)
                                    | Some ks3 \<Rightarrow> fm_loop fuel sy rs' (side s2) (cols s2) (panes s2) ks3 (fm_log s2)) }
                          | _ \<Rightarrow> Some (rs', e)) })) }"

text \<open>\<open>main\<close>: both panes start in the working directory.\<close>

definition fm_main ::
  "nat \<Rightarrow> dirs \<Rightarrow> round list \<Rightarrow> Pane list \<Rightarrow> int list \<Rightarrow> (round list \<times> fm_end) option" where
  "fm_main fuel sy rs ps ks =
     do { l0 \<leftarrow> aref ps 0; l1 \<leftarrow> aref ps 1;
          p0 \<leftarrow> strcpy (path l0) (lit ''./''); p1 \<leftarrow> strcpy (path l1) (lit ''./'');
          fm_loop fuel sy rs 0 1
            [l0\<lparr>poz := 1, path := p0\<rparr>, l1\<lparr>poz := 1, path := p1\<rparr>] ks [] }"

section \<open>The screen\<close>

text \<open>
  What curses shows of the lines written to a pane with \<open>"%s\\n"\<close>: a name that reaches the right edge goes on in the
  next row.
\<close>

function name_rows :: "nat \<Rightarrow> string \<Rightarrow> string list" where
  "name_rows w n = (if 0 < w \<and> w \<le> length n then take w n # name_rows w (drop w n) else [n])"
  by pat_completeness auto
termination by (relation "measure (\<lambda>(w, n). length n)") auto

declare name_rows.simps [simp del]

definition printing :: "char \<Rightarrow> bool" where
  "printing c \<longleftrightarrow> 32 \<le> (of_char c :: nat) \<and> (of_char c :: nat) < 127"

text \<open>
  Row \<open>r\<close> of the 30 rows of a sub-window that is \<open>w\<close> columns wide; \<open>None\<close> where nothing is written, where a
  name has other than printing characters, and for the last row when the names take more rows than there are.
\<close>

definition screen_row :: "nat \<Rightarrow> line list \<Rightarrow> nat \<Rightarrow> line option" where
  "screen_row w lns r =
     (let rws = concat (map (\<lambda>(n, d). map (\<lambda>t. (t, d)) (name_rows w n)) lns)
      in if list_all (\<lambda>(n, d). list_all printing n) lns \<and> r < length rws \<and> r < (if length rws \<le> 30 then 30 else 29)
         then Some (rws ! r) else None)"

text \<open>
  The row at whose beginning \<open>move (row, cols)\<close> puts the cursor: the sub-window lies one row and one column
  inside the frame of the pane, which has to fit the screen.
\<close>

definition under_cursor :: "dirs \<Rightarrow> fm \<Rightarrow> line option" where
  "under_cursor sy s =
     (let (h, w, y, x) = frames s ! nat (side s)
      in if y + h \<le> LINES sy \<and> cols s = x + 1 \<and> y + 1 \<le> row s
         then screen_row (nat (w - 2)) (windows s ! nat (side s)) (nat (row s - (y + 1))) else None)"

end
