(* ===== verification/FileManager_Correct.thy ===== *)
theory FileManager_Correct
  imports FileManager
begin

text \<open>
  Correctness of \<open>file_manager/file_manage.c\<close>: the loops that draw and store a directory, the
  invariant that ties the cursor line, the chosen entry and the drawn page together, and what each
  key does to them.
\<close>

section \<open>Drawing and storing\<close>

definition entry_line :: "dirs \<Rightarrow> string \<Rightarrow> char list \<Rightarrow> line" where
  "entry_line sy pre nm = (cstr nm, opens sy (pre @ cstr nm))"

lemma draw_loop_returns:
  assumes "NUL \<in> set p" "cstr p = pre" "NUL \<notin> set sep" "0 \<le> i" "hi \<le> int (length names)"
    and "\<forall>k. nat i \<le> k \<and> k < nat hi \<longrightarrow> NUL \<in> set (names ! k) \<and>
      length pre + length sep + length (cstr (names ! k)) < length p"
  shows "returns (draw_loop sy sep (length pre) hi i names p) (\<lambda>(p', lns).
     length p' = length p \<and> NUL \<in> set p' \<and> cstr p' = pre \<and>
     lns = map (\<lambda>k. entry_line sy (pre @ sep) (names ! k)) [nat i ..< nat hi])"
  using assms
proof (induction sy sep "length pre" hi i names p rule: draw_loop.induct)
  case (1 sy sep hi i names p)
  show ?case
  proof (cases "i < hi")
    case False
    then show ?thesis using "1.prems" by (subst draw_loop.simps) simp
  next
    case True
    let ?nm = "names ! nat i"
    have i: "aref names i = Some ?nm" "nat (i + 1) = Suc (nat i)"
      using True "1.prems" by (simp_all add: cmem)
    have "[nat i ..< nat hi] = nat i # [nat (i + 1) ..< nat hi]"
      unfolding i(2) using True "1.prems"(4) by (intro upt_conv_Cons) simp
    have nm: "NUL \<in> set ?nm" "length pre + length sep + length (cstr ?nm) < length p"
      using "1.prems"(4,6) True by auto
    have sep: "NUL \<in> set (lit sep)" "cstr (lit sep) = sep"
      using "1.prems"(3) by (simp_all add: lit_def cstr_lit)
    obtain p0 where p0: "strcat p (lit sep) = Some p0" "length p0 = length p" "NUL \<in> set p0"
      "cstr p0 = pre @ sep"
      by (rule strcat_Some [OF sep(1) "1.prems"(1)]) (use nm sep(2) "1.prems"(2) in simp_all)
    obtain p1 where p1: "strcat p0 ?nm = Some p1" "length p1 = length p" "NUL \<in> set p1"
      "cstr p1 = pre @ sep @ cstr ?nm"
      by (rule strcat_Some [OF nm(1) p0(3)]) (use nm p0 in simp_all)
    have l: "length pre \<le> length (cstr p1)" by (simp add: p1(4))
    define p2 where "p2 = p1[length pre := NUL]"
    have p2: "aset p1 (int (length pre)) NUL = Some p2" "length p2 = length p" "NUL \<in> set p2"
      "cstr p2 = pre"
      using nm(2) p1(2) cstr_cut [OF p1(3) l] by (simp_all add: aset_def p2_def p1(4))
    have rd: "rd_str p1 = Some (pre @ sep @ cstr ?nm)" "rd_str ?nm = Some (cstr ?nm)"
      using p1 nm by (simp_all add: cmem)
    have "returns (draw_loop sy sep (length pre) hi (i + 1) names p2) (\<lambda>(p', lns).
       length p' = length p2 \<and> NUL \<in> set p' \<and> cstr p' = pre \<and>
       lns = map (\<lambda>k. entry_line sy (pre @ sep) (names ! k)) [nat (i + 1) ..< nat hi])"
      by (rule "1.hyps" [OF True i(1) p0(1) p1(1) rd p2(1) p2(3,4) "1.prems"(3) _ "1.prems"(5)])
        (use "1.prems"(4,6) p2(2) i(2) in auto)
    then show ?thesis
      using True i(1) p0(1) p1(1) rd p2 \<open>[nat i ..< nat hi] = _\<close>
      by (subst draw_loop.simps) (auto simp: entry_line_def elim!: returnsE)
  qed
qed

text \<open>What the copied names have in common with the names the directory has.\<close>

lemma store_loop_returns:
  assumes "0 \<le> i" "n \<le> int (length names)" "n \<le> int (length rows)"
    and "\<forall>k. nat i \<le> k \<and> k < nat n \<longrightarrow> NUL \<in> set (names ! k) \<and> length (cstr (names ! k)) < length (rows ! k)"
  shows "returns (store_loop n i names rows) (\<lambda>rows'. length rows' = length rows \<and>
     (\<forall>k < length rows. length (rows' ! k) = length (rows ! k)) \<and>
     (\<forall>k. nat i \<le> k \<and> k < nat n \<longrightarrow> NUL \<in> set (rows' ! k) \<and> cstr (rows' ! k) = cstr (names ! k)) \<and>
     (\<forall>k < nat i. rows' ! k = rows ! k))"
  using assms
proof (induction n i names rows rule: store_loop.induct)
  case (1 n i names rows)
  show ?case
  proof (cases "i < n")
    case False
    then have "nat n \<le> nat i" by simp
    then show ?thesis using False "1.prems" by (subst store_loop.simps) auto
  next
    case True
    let ?nm = "names ! nat i" and ?r = "rows ! nat i"
    have n: "nat i < length names" "nat i < length rows" "nat (i + 1) = Suc (nat i)" "nat i < nat n"
      using True "1.prems" by auto
    have rd: "aref names i = Some ?nm" "aref rows i = Some ?r"
      using True "1.prems" by (simp_all add: cmem)
    obtain r' where r': "strcpy ?r ?nm = Some r'" "length r' = length ?r" "NUL \<in> set r'" "cstr r' = cstr ?nm"
      using strcpy_Some [of ?nm ?r] "1.prems"(4) n(4) by auto
    have st: "aset rows i r' = Some (rows[nat i := r'])" using n "1.prems"(1) by (simp add: aset_def)
    have "returns (store_loop n (i + 1) names (rows[nat i := r'])) (\<lambda>rows'.
       length rows' = length (rows[nat i := r']) \<and>
       (\<forall>k < length (rows[nat i := r']). length (rows' ! k) = length (rows[nat i := r'] ! k)) \<and>
       (\<forall>k. nat (i + 1) \<le> k \<and> k < nat n \<longrightarrow> NUL \<in> set (rows' ! k) \<and> cstr (rows' ! k) = cstr (names ! k)) \<and>
       (\<forall>k < nat (i + 1). rows' ! k = rows[nat i := r'] ! k))"
      using "1.prems" by (intro "1.IH" [OF True rd r'(1) st]) (auto simp: n(3))
    then show ?thesis
    proof (rule returnsE)
      fix rows' assume e: "store_loop n (i + 1) names (rows[nat i := r']) = Some rows'"
        and q: "length rows' = length (rows[nat i := r']) \<and>
       (\<forall>k < length (rows[nat i := r']). length (rows' ! k) = length (rows[nat i := r'] ! k)) \<and>
       (\<forall>k. nat (i + 1) \<le> k \<and> k < nat n \<longrightarrow> NUL \<in> set (rows' ! k) \<and> cstr (rows' ! k) = cstr (names ! k)) \<and>
       (\<forall>k < nat (i + 1). rows' ! k = rows[nat i := r'] ! k)"
      have at: "rows' ! nat i = r'" using q n by simp
      have "length (rows' ! k) = length (rows ! k)" if "k < length rows" for k
        using q that r'(2) by (cases "k = nat i") auto
      moreover have "NUL \<in> set (rows' ! k) \<and> cstr (rows' ! k) = cstr (names ! k)"
        if "nat i \<le> k" "k < nat n" for k
        using q that at r'(3,4) n(3) by (cases "k = nat i") auto
      moreover have "\<forall>k < nat i. rows' ! k = rows ! k" using q n(3) by auto
      ultimately show ?thesis using True rd r'(1) st e q
        by (subst store_loop.simps) simp
    qed
  qed
qed

lemma store_loop_long_name:
  assumes "0 \<le> i" "i \<le> int k" "int k < n" "NUL \<in> set (names ! k)"
    and "length (rows ! k) \<le> length (cstr (names ! k))" "k < length rows"
  shows "store_loop n i names rows = None"
  using assms
proof (induction n i names rows rule: store_loop.induct)
  case (1 n i names rows)
  have n: "i < n" using "1.prems" by simp
  show ?case
  proof (cases "i = int k")
    case True
    then have "strcpy (rows ! k) (names ! k) = None"
      using "1.prems" by (intro strcpy_None) simp_all
    then show ?thesis using True n "1.prems"
      by (subst store_loop.simps) (auto simp: aref_def)
  next
    case False
    have "store_loop n (i + 1) names rows' = None" if "aref names i = Some nm" "aref rows i = Some r"
      "strcpy r nm = Some r'" "aset rows i r' = Some rows'" for nm r r' rows'
    proof (rule "1.IH" [OF n that])
      show "length (rows' ! k) \<le> length (cstr (names ! k))" "k < length rows'"
        using that(4) False "1.prems" by (auto simp: aset_def split: if_splits)
    qed (use "1.prems" False in auto)
    then show ?thesis using n by (subst store_loop.simps) (auto split: Option.bind_split)
  qed
qed

section \<open>The invariant of the browser\<close>

text \<open>
  A pane: the arrays have their sizes, the entries from 1 to \<open>poz - 1\<close> are names, and the path leaves
  room for one more name and two slashes.
\<close>

definition wf_pane :: "Pane \<Rightarrow> bool" where
  "wf_pane l \<longleftrightarrow> length (path l) = MAX_PATH_LEN \<and> NUL \<in> set (path l) \<and>
     length (cstr (path l)) + NAME_SIZE + 2 < MAX_PATH_LEN \<and>
     length (str l) = LEN \<and> (\<forall>r \<in> set (str l). length r = NAME_SIZE) \<and>
     poz l \<le> int LEN \<and> (\<forall>k. 1 \<le> k \<and> k < nat (poz l) \<longrightarrow> NUL \<in> set (str l ! k))"

definition wf_fm :: "fm \<Rightarrow> bool" where
  "wf_fm s \<longleftrightarrow> length (panes s) = 2 \<and> length (windows s) = 2 \<and> side s \<in> {0, 1} \<and>
     (\<forall>l \<in> set (panes s). wf_pane l)"

abbreviation pane :: "fm \<Rightarrow> Pane" where
  "pane s \<equiv> panes s ! nat (side s)"

abbreviation window :: "fm \<Rightarrow> line list" where
  "window s \<equiv> windows s ! nat (side s)"

text \<open>The lines of the entries \<open>a\<close> to \<open>b - 1\<close> of a pane.\<close>

definition page :: "dirs \<Rightarrow> Pane \<Rightarrow> int \<Rightarrow> int \<Rightarrow> line list" where
  "page sy l a b = map (\<lambda>k. entry_line sy (cstr (path l)) (str l ! k)) [nat a ..< nat b]"

text \<open>
  The cursor is on the line of the chosen entry: the window shows the page of 30 entries that the
  entry \<open>local\<close> belongs to, and \<open>row\<close> is its line there.
\<close>

definition on_page :: "dirs \<Rightarrow> fm \<Rightarrow> bool" where
  "on_page sy s \<longleftrightarrow> (let l = pane s; a = local l - row s + 1 in
     1 \<le> row s \<and> row s \<le> 30 \<and> 1 \<le> local l \<and> local l < poz l \<and> 0 \<le> a - 1 \<and> 30 dvd (a - 1) \<and>
     window s = page sy l a (min (poz l) (a + 30)))"

lemma page_path [simp]: "page sy (l\<lparr>local := x\<rparr>) a b = page sy l a b"
  by (simp add: page_def)

lemma on_page_chosen:
  assumes "on_page sy s"
  shows "nat (row s) - 1 < length (window s) \<and>
    window s ! (nat (row s) - 1) = entry_line sy (cstr (path (pane s))) (str (pane s) ! nat (local (pane s)))"
proof -
  let ?l = "pane s"
  let ?a = "local ?l - row s + 1"
  have h: "1 \<le> row s" "row s \<le> 30" "local ?l < poz ?l" "0 \<le> ?a - 1"
    "window s = page sy ?l ?a (min (poz ?l) (?a + 30))"
    using assms by (simp_all add: on_page_def Let_def)
  have m: "local ?l < min (poz ?l) (?a + 30)" using h(2,3) by simp
  define r a b where "r = nat (row s - 1)" "a = nat ?a" "b = nat (min (poz ?l) (?a + 30))"
  then have i: "row s = int (Suc r)" "?a = int a" "min (poz ?l) (?a + 30) = int b"
    using h(1,4) m by simp_all
  have lo: "local ?l = int (a + r)" using i(1,2) by simp
  have "local ?l < int b" using m by (simp only: i(3))
  then have "a + r < b" by (simp add: lo)
  then have "r < length (map f [a ..< b])" "map f [a ..< b] ! r = f (a + r)" for f :: "nat \<Rightarrow> line" by simp_all
  moreover have "nat (row s) - 1 = r" "nat (local ?l) = a + r" by (simp add: i(1), simp add: lo)
  ultimately show ?thesis unfolding h(5) page_def i(3) unfolding i(2) by simp
qed

lemma wf_paneD:
  assumes "wf_pane l" "1 \<le> k" "k < nat (poz l)"
  shows "NUL \<in> set (str l ! k)" "length (cstr (str l ! k)) < NAME_SIZE" "k < length (str l)"
proof -
  show n: "NUL \<in> set (str l ! k)" and k: "k < length (str l)" using assms by (auto simp: wf_pane_def)
  have "length (str l ! k) = NAME_SIZE" using assms(1) k by (simp add: wf_pane_def)
  then show "length (cstr (str l ! k)) < NAME_SIZE" using length_cstr [OF n] by simp
qed

lemma draw_page_returns:
  assumes "wf_pane l" "1 \<le> a" "b \<le> poz l"
  shows "returns (draw_page sy b a l) (\<lambda>(l', lns). \<exists>p. l' = l\<lparr>path := p\<rparr> \<and> wf_pane l' \<and>
     cstr p = cstr (path l) \<and> lns = page sy l a b)"
proof -
  have p: "NUL \<in> set (path l)" "length (path l) = MAX_PATH_LEN" using assms(1) by (simp_all add: wf_pane_def)
  have "returns (draw_loop sy [] (length (cstr (path l))) b a (str l) (path l)) (\<lambda>(p', lns).
     length p' = length (path l) \<and> NUL \<in> set p' \<and> cstr p' = cstr (path l) \<and>
     lns = map (\<lambda>k. entry_line sy (cstr (path l) @ []) (str l ! k)) [nat a ..< nat b])"
  proof (rule draw_loop_returns [OF p(1) refl])
    show "\<forall>k. nat a \<le> k \<and> k < nat b \<longrightarrow> NUL \<in> set (str l ! k) \<and>
      length (cstr (path l)) + length [] + length (cstr (str l ! k)) < length (path l)"
    proof (intro allI impI)
      fix k assume k: "nat a \<le> k \<and> k < nat b"
      then have "1 \<le> k" "k < nat (poz l)" using assms(2,3) by auto
      from wf_paneD [OF assms(1) this] show "NUL \<in> set (str l ! k) \<and>
        length (cstr (path l)) + length [] + length (cstr (str l ! k)) < length (path l)"
        using assms(1) by (simp add: wf_pane_def)
    qed
    show "b \<le> int (length (str l))" using assms(1,3) by (simp add: wf_pane_def)
  qed (use assms(2) in auto)
  then obtain p' where p': "draw_loop sy [] (length (cstr (path l))) b a (str l) (path l) =
      Some (p', page sy l a b)" "length p' = length (path l)" "NUL \<in> set p'" "cstr p' = cstr (path l)"
    by (auto simp: page_def elim!: returnsE)
  moreover have "wf_pane (l\<lparr>path := p'\<rparr>)" using assms(1) p'(2-4) by (simp add: wf_pane_def)
  ultimately show ?thesis using p(1) by (auto simp: draw_page_def cmem)
qed

section \<open>The keys\<close>

lemma wf_fm_side:
  assumes "wf_fm s"
  shows "aref (panes s) (side s) = Some (pane s)" "wf_pane (pane s)"
    "nat (side s) < length (panes s)" "nat (side s) < length (windows s)" "0 \<le> side s" "side s < 2"
  using assms by (auto simp: wf_fm_def cmem)

lemma set_pane_Some:
  "wf_fm s \<Longrightarrow> panes t = panes s \<Longrightarrow> side t = side s \<Longrightarrow>
   set_pane t l = Some (t\<lparr>panes := (panes s)[nat (side s) := l]\<rparr>)"
  using wf_fm_side(3,5,6) [of s] by (auto simp: set_pane_def aset_def wf_fm_def)

lemma set_window_Some:
  "wf_fm s \<Longrightarrow> windows t = windows s \<Longrightarrow> side t = side s \<Longrightarrow>
   set_window t lns = Some (t\<lparr>windows := (windows s)[nat (side s) := lns]\<rparr>)"
  using wf_fm_side(4,5,6) [of s] by (auto simp: set_window_def aset_def wf_fm_def)

lemma wf_fm_update:
  assumes "wf_fm s" "wf_pane l" "length ws = 2" "side t = side s"
    "panes t = (panes s)[nat (side s) := l]" "windows t = ws"
  shows "wf_fm t"
  using assms set_update_subset_insert [of "panes s" "nat (side s)" l] by (auto simp: wf_fm_def)

text \<open>Moving inside the page.\<close>

definition moved :: "fm \<Rightarrow> int \<Rightarrow> int \<Rightarrow> fm" where
  "moved s r x = s\<lparr>row := r, panes := (panes s)[nat (side s) := (pane s)\<lparr>local := x\<rparr>]\<rparr>"

lemma moved_pane: "wf_fm s \<Longrightarrow> pane (moved s r x) = (pane s)\<lparr>local := x\<rparr>"
  using wf_fm_side(3) [of s] by (simp add: moved_def)

lemma wf_moved: "wf_fm s \<Longrightarrow> wf_fm (moved s r x)"
  by (rule wf_fm_update [of s "(pane s)\<lparr>local := x\<rparr>" "windows s"])
    (use wf_fm_side(2) [of s] in \<open>auto simp: moved_def wf_pane_def wf_fm_def\<close>)

lemma on_page_moved:
  assumes "wf_fm s" "on_page sy s" "1 \<le> r" "r \<le> 30" "x - r = local (pane s) - row s" "x < poz (pane s)"
  shows "on_page sy (moved s r x)"
proof -
  have w: "window (moved s r x) = window s" "side (moved s r x) = side s" "row (moved s r x) = r"
    by (simp_all add: moved_def)
  have "x - r + 1 = local (pane s) - row s + 1" using assms(5) by simp
  then show ?thesis using assms w moved_pane [OF assms(1), of r x]
    by (simp add: on_page_def Let_def)
qed

text \<open>Turning to another page, at the line \<open>r\<close>.\<close>

definition turned :: "dirs \<Rightarrow> fm \<Rightarrow> int \<Rightarrow> int \<Rightarrow> fm \<Rightarrow> bool" where
  "turned sy s r x t \<longleftrightarrow> wf_fm t \<and> side t = side s \<and> cols t = cols s \<and> row t = r \<and> fm_log t = fm_log s \<and>
     (\<exists>p. cstr p = cstr (path (pane s)) \<and>
       panes t = (panes s)[nat (side s) := (pane s)\<lparr>local := x, path := p\<rparr>]) \<and>
     windows t = (windows s)[nat (side s) := page sy (pane s) (x - r + 1) (min (poz (pane s)) (x - r + 1 + 30))]"

lemma turned_pane: "wf_fm s \<Longrightarrow> turned sy s r x t \<Longrightarrow> local (pane t) = x \<and> poz (pane t) = poz (pane s) \<and>
    str (pane t) = str (pane s) \<and> cstr (path (pane t)) = cstr (path (pane s)) \<and>
    window t = page sy (pane s) (x - r + 1) (min (poz (pane s)) (x - r + 1 + 30))"
  using wf_fm_side(3,4) [of s] by (auto simp: turned_def)

lemma on_page_turned:
  assumes "wf_fm s" "turned sy s r x t" "1 \<le> r" "r \<le> 30" "r \<le> x" "30 dvd (x - r)" "x < poz (pane s)"
  shows "on_page sy t"
  using assms turned_pane [OF assms(1,2)]
  by (auto simp: on_page_def Let_def page_def turned_def)

lemma pane_update_order [simp]: "(l :: Pane)\<lparr>path := p, local := x\<rparr> = l\<lparr>local := x, path := p\<rparr>"
  by simp

lemma turned_I:
  assumes "wf_fm s" "wf_pane ((pane s)\<lparr>path := p\<rparr>)" "cstr p = cstr (path (pane s))"
    and "lns = page sy (pane s) (x - r + 1) (min (poz (pane s)) (x - r + 1 + 30))"
  shows "turned sy s r x (s\<lparr>row := r, windows := (windows s)[nat (side s) := lns],
    panes := (panes s)[nat (side s) := (pane s)\<lparr>local := x, path := p\<rparr>]\<rparr>)" (is "turned _ _ _ _ ?t")
proof -
  have "wf_fm ?t"
    by (rule wf_fm_update [OF assms(1), of "(pane s)\<lparr>local := x, path := p\<rparr>" "windows ?t"])
      (use assms(1,2) in \<open>simp_all add: wf_pane_def wf_fm_def\<close>)
  then show ?thesis using assms(3,4) by (auto simp: turned_def)
qed

lemma key_up_page:
  assumes "wf_fm s" "on_page sy s" "row s = 1" "1 < local (pane s)"
  shows "returns (key_up sy s) (\<lambda>t. turned sy s 30 (local (pane s) - 1) t)"
proof -
  let ?l = "pane s"
  note w = wf_fm_side [OF assms(1)]
  have "30 dvd (local ?l - 1)" "local ?l < poz ?l" using assms(2,3) by (simp_all add: on_page_def Let_def)
  then have a: "1 \<le> local ?l - 30" "local ?l \<le> poz ?l" using assms(4) by (auto dest: zdvd_imp_le)
  obtain p where p: "draw_page sy (local ?l) (local ?l - 30) ?l =
      Some (?l\<lparr>path := p\<rparr>, page sy ?l (local ?l - 30) (local ?l))" "wf_pane (?l\<lparr>path := p\<rparr>)"
    "cstr p = cstr (path ?l)"
    using draw_page_returns [OF w(2) a] by (auto elim!: returnsE)
  have m: "page sy ?l (local ?l - 30) (local ?l) =
      page sy ?l (local ?l - 1 - 30 + 1) (min (poz ?l) (local ?l - 1 - 30 + 1 + 30))"
    using a by simp
  show ?thesis using turned_I [OF assms(1) p(2,3) m] assms(3,4) w(1) p(1)
    by (simp add: key_up_def set_window_Some [OF assms(1)] set_pane_Some [OF assms(1)])
qed

lemma key_down_page:
  assumes "wf_fm s" "on_page sy s" "30 \<le> poz (pane s) - 1" "row s = 30" "local (pane s) < poz (pane s) - 1"
  shows "returns (key_down sy s) (\<lambda>t. turned sy s 1 (local (pane s) + 1) t)"
proof -
  let ?l = "pane s" and ?l1 = "(pane s)\<lparr>local := local (pane s) + 1\<rparr>"
  let ?b = "if poz ?l1 > local ?l1 + 30 then local ?l1 + 30 else poz ?l1"
  note w = wf_fm_side [OF assms(1)]
  have a: "wf_pane ?l1" "1 \<le> local ?l1" "?b \<le> poz ?l1" using assms(2,4,5) w(2)
    by (auto simp: on_page_def Let_def wf_pane_def)
  obtain p where p: "draw_page sy ?b (local ?l1) ?l1 = Some (?l1\<lparr>path := p\<rparr>, page sy ?l1 (local ?l1) ?b)"
    "wf_pane (?l1\<lparr>path := p\<rparr>)" "cstr p = cstr (path ?l1)"
    using draw_page_returns [OF a] by (auto elim!: returnsE)
  have w1: "wf_pane (?l\<lparr>path := p\<rparr>)" "cstr p = cstr (path ?l)" using p(2,3) by (simp_all add: wf_pane_def)
  have m: "page sy ?l1 (local ?l1) ?b =
      page sy ?l (local ?l + 1 - 1 + 1) (min (poz ?l) (local ?l + 1 - 1 + 1 + 30))"
    by (simp add: min_def)
  show ?thesis using turned_I [OF assms(1) w1 m] assms(3,4,5) w(1) p(1)
    by (simp add: key_down_def Let_def set_window_Some [OF assms(1)] set_pane_Some [OF assms(1)])
qed

lemma on_pageD:
  assumes "on_page sy s"
  shows "1 \<le> row s" "row s \<le> 30" "1 \<le> local (pane s)" "local (pane s) < poz (pane s)"
    "row s \<le> local (pane s)" "30 dvd (local (pane s) - row s)"
  using assms by (simp_all add: on_page_def Let_def)

lemma flash_keeps [simp]: "wf_fm (flash s) = wf_fm s" "on_page sy (flash s) = on_page sy s"
    "panes (flash s) = panes s" "side (flash s) = side s" "row (flash s) = row s"
    "windows (flash s) = windows s" "cols (flash s) = cols s"
  by (simp_all add: wf_fm_def on_page_def flash_def)

definition follows :: "dirs \<Rightarrow> fm \<Rightarrow> int \<Rightarrow> fm \<Rightarrow> bool" where
  "follows sy s x t \<longleftrightarrow> wf_fm t \<and> on_page sy t \<and> side t = side s \<and> local (pane t) = x \<and>
     poz (pane t) = poz (pane s) \<and> str (pane t) = str (pane s) \<and> cstr (path (pane t)) = cstr (path (pane s))"

lemma follows_moved:
  assumes "wf_fm s" "on_page sy s" "1 \<le> r" "r \<le> 30" "x - r = local (pane s) - row s" "x < poz (pane s)"
  shows "follows sy s x (moved s r x)"
  using wf_moved [OF assms(1)] on_page_moved [OF assms] moved_pane [OF assms(1), of r x]
  by (simp add: follows_def) (simp add: moved_def)

lemma follows_turned:
  assumes "wf_fm s" "turned sy s r x t" "1 \<le> r" "r \<le> 30" "r \<le> x" "30 dvd (x - r)" "x < poz (pane s)"
  shows "follows sy s x t"
  using on_page_turned [OF assms] turned_pane [OF assms(1,2)] assms(2)
  by (simp add: follows_def) (simp add: turned_def)

lemma key_up_follows:
  assumes "wf_fm s" "on_page sy s"
  shows "returns (key_up sy s) (follows sy s (max 1 (local (pane s) - 1)))"
proof -
  note w = wf_fm_side [OF assms(1)] and p = on_pageD [OF assms(2)]
  consider "1 < row s" | "row s = 1" "1 < local (pane s)" | "row s = 1" "local (pane s) = 1"
    using p(1,3) by linarith
  then show ?thesis
  proof cases
    case 1
    have "follows sy s (local (pane s) - 1) (moved s (row s - 1) (local (pane s) - 1))"
      using assms p 1 by (intro follows_moved) auto
    moreover have "max 1 (local (pane s) - 1) = local (pane s) - 1" using 1 p by simp
    ultimately show ?thesis using 1 w(1)
      by (simp add: key_up_def set_pane_Some [OF assms(1)] moved_def)
  next
    case 2
    have d: "30 dvd (local (pane s) - 1)" using p(6) 2 by simp
    then have "30 \<le> local (pane s) - 1" using 2 by (auto dest: zdvd_imp_le)
    moreover have "30 dvd (local (pane s) - 1 - 30)" using d by (rule dvd_diff) simp
    ultimately have "follows sy s (local (pane s) - 1) t" if "turned sy s 30 (local (pane s) - 1) t" for t
      using assms(1) that p(4) by (intro follows_turned) auto
    moreover have "max 1 (local (pane s) - 1) = local (pane s) - 1" using 2 by simp
    ultimately show ?thesis using key_up_page [OF assms 2] by (auto elim!: returns_mono)
  next
    case 3
    then show ?thesis using assms w(1) by (simp add: key_up_def follows_def)
  qed
qed

lemma key_down_follows:
  assumes "wf_fm s" "on_page sy s"
  shows "returns (key_down sy s) (follows sy s (min (poz (pane s) - 1) (local (pane s) + 1)))"
proof -
  note w = wf_fm_side [OF assms(1)] and p = on_pageD [OF assms(2)]
  have small: "row s = local (pane s)" if "poz (pane s) - 1 < 30"
  proof -
    obtain k where "local (pane s) - row s = 30 * k" using p(6) by (auto elim: dvdE)
    moreover from this have "0 \<le> k" "k < 1" using p that by linarith+
    ultimately show ?thesis by simp
  qed
  show ?thesis
  proof (cases "local (pane s) < poz (pane s) - 1")
    case False
    then have m: "min (poz (pane s) - 1) (local (pane s) + 1) = local (pane s)" using p(4) by simp
    have k: "key_down sy s = Some s \<or> key_down sy s = Some (flash s)"
      using False small w(1) by (auto simp: key_down_def)
    show ?thesis using assms k unfolding m by (auto simp: follows_def)
  next
    case True
    then have m: "min (poz (pane s) - 1) (local (pane s) + 1) = local (pane s) + 1" by simp
    show ?thesis
    proof (cases "row s < 30")
      case row: True
      have "follows sy s (local (pane s) + 1) (moved s (row s + 1) (local (pane s) + 1))"
        using assms p row True by (intro follows_moved) auto
      moreover have "key_down sy s = Some (moved s (row s + 1) (local (pane s) + 1))"
        using True row small w(1) by (auto simp: key_down_def set_pane_Some [OF assms(1)] moved_def)
      ultimately show ?thesis unfolding m by simp
    next
      case False
      then have row: "row s = 30" using p(2) by simp
      have large: "30 \<le> poz (pane s) - 1" using small row p(4) True by force
      have "30 dvd (local (pane s) - 30 + 30)" using p(6) row by (intro dvd_add) auto
      then have "30 dvd (local (pane s) + 1 - 1)" by simp
      then have "follows sy s (local (pane s) + 1) t" if "turned sy s 1 (local (pane s) + 1) t" for t
        using follows_turned [OF assms(1) that] p(3) True by simp
      then show ?thesis unfolding m using key_down_page [OF assms large row True] by (auto elim!: returns_mono)
    qed
  qed
qed

text \<open>The chosen entry determines the line of the cursor and the page.\<close>

lemma on_page_unique:
  assumes "on_page sy s" "on_page sy t" "side t = side s" "local (pane t) = local (pane s)"
    "poz (pane t) = poz (pane s)" "str (pane t) = str (pane s)" "cstr (path (pane t)) = cstr (path (pane s))"
  shows "row t = row s" "window t = window s"
proof -
  note p = on_pageD [OF assms(1)] and q = on_pageD [OF assms(2)]
  have "30 dvd ((local (pane s) - row s) - (local (pane t) - row t))" using p(6) q(6) by (rule dvd_diff)
  then have "30 dvd (row t - row s)" unfolding assms(4) by simp
  then obtain k where "row t - row s = 30 * k" by (auto elim: dvdE)
  moreover from this have "-1 < k" "k < 1" using p(1,2) q(1,2) by linarith+
  ultimately show r: "row t = row s" by simp
  have w: "window s = page sy (pane s) (local (pane s) - row s + 1) (min (poz (pane s)) (local (pane s) - row s + 1 + 30))"
    "window t = page sy (pane t) (local (pane t) - row t + 1) (min (poz (pane t)) (local (pane t) - row t + 1 + 30))"
    using assms(1,2) unfolding on_page_def Let_def by blast+
  show "window t = window s" unfolding w page_def r assms(4-7) ..
qed

lemma scandir_Some: "ls sy d = Some ns \<Longrightarrow> scandir sy d = (int (length ns), map lit ns)"
  by (simp add: scandir_def)

text \<open>A directory that fits: names shorter than 70 bytes, as many as the array has rows.\<close>

definition fits :: "string list \<Rightarrow> bool" where
  "fits ns \<longleftrightarrow> length ns \<le> LEN \<and> (\<forall>n \<in> set ns. NUL \<notin> set n \<and> length n < NAME_SIZE)"

lemma fits_name: "fits ns \<Longrightarrow> k < length ns \<Longrightarrow>
    NUL \<in> set (map lit ns ! k) \<and> cstr (map lit ns ! k) = ns ! k \<and> length (ns ! k) < NAME_SIZE"
  by (auto simp: fits_def lit_def cstr_lit)

lemma store_names:
  assumes "fits ns" "length rows = LEN" "\<forall>r \<in> set rows. length r = NAME_SIZE"
  obtains rows' where "store_loop (int (length ns)) 1 (map lit ns) rows = Some rows'"
    "length rows' = LEN" "\<forall>r \<in> set rows'. length r = NAME_SIZE"
    "\<And>k. 1 \<le> k \<Longrightarrow> k < length ns \<Longrightarrow> NUL \<in> set (rows' ! k) \<and> cstr (rows' ! k) = ns ! k"
proof -
  have r: "length (rows ! k) = NAME_SIZE" if "k < LEN" for k using that assms(2,3) by simp
  have "returns (store_loop (int (length ns)) 1 (map lit ns) rows) (\<lambda>rows'. length rows' = length rows \<and>
     (\<forall>k < length rows. length (rows' ! k) = length (rows ! k)) \<and>
     (\<forall>k. nat 1 \<le> k \<and> k < nat (int (length ns)) \<longrightarrow>
        NUL \<in> set (rows' ! k) \<and> cstr (rows' ! k) = cstr (map lit ns ! k)) \<and>
     (\<forall>k < nat 1. rows' ! k = rows ! k))"
  proof (rule store_loop_returns)
    show "\<forall>k. nat 1 \<le> k \<and> k < nat (int (length ns)) \<longrightarrow>
      NUL \<in> set (map lit ns ! k) \<and> length (cstr (map lit ns ! k)) < length (rows ! k)"
      using fits_name [OF assms(1)] r assms(1) by (auto simp: fits_def)
  qed (use assms in \<open>simp_all add: fits_def\<close>)
  then show ?thesis
  proof (rule returnsE)
    fix rows' assume e: "store_loop (int (length ns)) 1 (map lit ns) rows = Some rows'"
      and q: "length rows' = length rows \<and>
     (\<forall>k < length rows. length (rows' ! k) = length (rows ! k)) \<and>
     (\<forall>k. nat 1 \<le> k \<and> k < nat (int (length ns)) \<longrightarrow>
        NUL \<in> set (rows' ! k) \<and> cstr (rows' ! k) = cstr (map lit ns ! k)) \<and>
     (\<forall>k < nat 1. rows' ! k = rows ! k)"
    show ?thesis
    proof (rule that [OF e])
      show "length rows' = LEN" using q assms(2) by simp
      show "\<forall>r \<in> set rows'. length r = NAME_SIZE" using q r assms(2) by (auto simp: in_set_conv_nth)
      show "NUL \<in> set (rows' ! k) \<and> cstr (rows' ! k) = ns ! k" if "1 \<le> k" "k < length ns" for k
        using q that fits_name [OF assms(1) that(2)] by simp
    qed
  qed
qed

text \<open>
  Listing a directory, as the outer loop and the key Enter do it: the first page is drawn and all names are
  stored; the lines drawn are the page of any pane with these rows and the path that was drawn.
\<close>

lemma list_directory:
  assumes "NUL \<in> set p" "cstr p = pre" "NUL \<notin> set sep" "fits ns" "length pre + length sep + NAME_SIZE \<le> length p"
    and "length str0 = LEN" "\<forall>r \<in> set str0. length r = NAME_SIZE"
  obtains p' lns rows where
    "draw_loop sy sep (length pre) (if int (length ns) > 31 then 31 else int (length ns)) 1 (map lit ns) p = Some (p', lns)"
    "length p' = length p" "NUL \<in> set p'" "cstr p' = pre"
    "store_loop (int (length ns)) 1 (map lit ns) str0 = Some rows" "length rows = LEN" "\<forall>r \<in> set rows. length r = NAME_SIZE"
    "\<forall>k. 1 \<le> k \<and> k < length ns \<longrightarrow> NUL \<in> set (rows ! k) \<and> cstr (rows ! k) = ns ! k"
    "\<forall>l. str l = rows \<and> cstr (path l) = pre @ sep \<longrightarrow> page sy l 1 (min (int (length ns)) 31) = lns"
proof -
  let ?hi = "if int (length ns) > 31 then 31 else int (length ns)"
  let ?lns = "map (\<lambda>k. entry_line sy (pre @ sep) (map lit ns ! k)) [1 ..< nat ?hi]"
  have "returns (draw_loop sy sep (length pre) ?hi 1 (map lit ns) p) (\<lambda>(p', lns).
     length p' = length p \<and> NUL \<in> set p' \<and> cstr p' = pre \<and>
     lns = map (\<lambda>k. entry_line sy (pre @ sep) (map lit ns ! k)) [nat 1 ..< nat ?hi])"
  proof (rule draw_loop_returns [OF assms(1-3)])
    show "\<forall>k. nat 1 \<le> k \<and> k < nat ?hi \<longrightarrow> NUL \<in> set (map lit ns ! k) \<and>
      length pre + length sep + length (cstr (map lit ns ! k)) < length p"
    proof (intro allI impI)
      fix k assume "nat 1 \<le> k \<and> k < nat ?hi"
      then have "k < length ns" by (simp split: if_splits)
      from fits_name [OF assms(4) this] show "NUL \<in> set (map lit ns ! k) \<and>
          length pre + length sep + length (cstr (map lit ns ! k)) < length p" using assms(5) by simp
    qed
  qed simp_all
  then obtain p' where p': "draw_loop sy sep (length pre) ?hi 1 (map lit ns) p = Some (p', ?lns)"
    "length p' = length p" "NUL \<in> set p'" "cstr p' = pre" by (auto elim!: returnsE)
  obtain rows where rows: "store_loop (int (length ns)) 1 (map lit ns) str0 = Some rows" "length rows = LEN"
    "\<forall>r \<in> set rows. length r = NAME_SIZE"
    "\<And>k. 1 \<le> k \<Longrightarrow> k < length ns \<Longrightarrow> NUL \<in> set (rows ! k) \<and> cstr (rows ! k) = ns ! k"
    using store_names [OF assms(4,6,7)] by blast
  then have n: "\<forall>k. 1 \<le> k \<and> k < length ns \<longrightarrow> NUL \<in> set (rows ! k) \<and> cstr (rows ! k) = ns ! k" by blast
  have "\<forall>l. str l = rows \<and> cstr (path l) = pre @ sep \<longrightarrow> page sy l 1 (min (int (length ns)) 31) = ?lns"
    unfolding page_def using n fits_name [OF assms(4)] by (auto simp: entry_line_def min_def)
  from that [OF p' rows(1-3) n this] show thesis .
qed

text \<open>The path extended by the chosen name.\<close>

lemma extend_path:
  assumes "wf_fm s" "1 \<le> local (pane s)" "local (pane s) < poz (pane s)"
    and "d = cstr (path (pane s)) @ cstr (str (pane s) ! nat (local (pane s)))"
  obtains p where "aref (str (pane s)) (local (pane s)) = Some (str (pane s) ! nat (local (pane s)))"
    "strcat (path (pane s)) (str (pane s) ! nat (local (pane s))) = Some p" "rd_str p = Some d"
    "length p = MAX_PATH_LEN" "NUL \<in> set p" "cstr p = d"
proof -
  let ?l = "pane s" and ?nm = "str (pane s) ! nat (local (pane s))"
  have w: "wf_pane ?l" by (rule wf_fm_side(2) [OF assms(1)])
  have k: "1 \<le> nat (local ?l)" "nat (local ?l) < nat (poz ?l)" using assms(2,3) by auto
  note nm = wf_paneD [OF w k]
  have p: "length (path ?l) = MAX_PATH_LEN" "NUL \<in> set (path ?l)"
    "length (cstr (path ?l)) + length (cstr ?nm) < length (path ?l)"
    using w nm(2) by (simp_all add: wf_pane_def)
  obtain p' where "strcat (path ?l) ?nm = Some p'" "length p' = length (path ?l)" "NUL \<in> set p'"
    "cstr p' = cstr (path ?l) @ cstr ?nm"
    by (rule strcat_Some [OF nm(1) p(2,3)])
  moreover have "aref (str ?l) (local ?l) = Some ?nm" using nm(3) assms(2) by (simp add: aref_def)
  ultimately show ?thesis using that p(1) assms(4) by (simp add: cmem)
qed

section \<open>The cursor on the screen\<close>

text \<open>The keys move the cursor inside the pane, and leave the frames as they are.\<close>

lemma set_keeps:
  "set_pane s l = Some t \<Longrightarrow> frames t = frames s \<and> cols t = cols s"
  "set_window s w = Some t \<Longrightarrow> frames t = frames s \<and> cols t = cols s"
  by (auto simp: set_pane_def set_window_def bind_eq_Some_conv')

lemma key_up_keeps: "key_up sy s = Some t \<Longrightarrow> frames t = frames s \<and> cols t = cols s"
  by (auto simp: key_up_def bind_eq_Some_conv' flash_def dest!: set_keeps split: if_splits)

lemma key_down_keeps: "key_down sy s = Some t \<Longrightarrow> frames t = frames s \<and> cols t = cols s"
  by (auto simp: key_down_def Let_def bind_eq_Some_conv' flash_def dest!: set_keeps split: if_splits)

lemma on_page_length: "on_page sy s \<Longrightarrow> length (window s) \<le> 30"
  by (simp add: on_page_def page_def Let_def)

lemma on_page_names:
  assumes "on_page sy s" "(n, d) \<in> set (window s)"
  shows "\<exists>k. 1 \<le> k \<and> k < nat (poz (pane s)) \<and> n = cstr (str (pane s) ! k)"
proof -
  let ?l = "pane s"
  let ?a = "local ?l - row s + 1"
  have h: "0 \<le> ?a - 1" "window s = page sy ?l ?a (min (poz ?l) (?a + 30))" using assms(1) by (simp_all add: on_page_def Let_def)
  then obtain k where "nat ?a \<le> k" "k < nat (min (poz ?l) (?a + 30))" "n = cstr (str ?l ! k)"
    using assms(2) by (auto simp: page_def entry_line_def)
  then show ?thesis using h(1) by (intro exI [of _ k]) auto
qed

text \<open>The lines of the window, counted from 0.\<close>

lemma on_page_line:
  assumes "on_page sy s" "r < length (window s)"
  shows "window s ! r = entry_line sy (cstr (path (pane s))) (str (pane s) ! nat (local (pane s) - row s + 1 + int r))"
proof -
  let ?l = "pane s"
  let ?a = "local ?l - row s + 1"
  have h: "0 \<le> ?a - 1" "window s = page sy ?l ?a (min (poz ?l) (?a + 30))" using assms(1) by (simp_all add: on_page_def Let_def)
  define a b where "a = nat ?a" "b = nat (min (poz ?l) (?a + 30))"
  then have "window s = map (\<lambda>k. entry_line sy (cstr (path ?l)) (str ?l ! k)) [a ..< b]" "nat (?a + int r) = a + r"
    using h by (simp_all add: page_def nat_add_distrib)
  then show ?thesis using assms(2) by simp
qed

text \<open>Names that are shorter than the window take one row each.\<close>

lemma short_rows:
  "\<forall>(n, d) \<in> set lns. length n < w \<Longrightarrow> concat (map (\<lambda>(n, d). map (\<lambda>t. (t, d)) (name_rows w n)) lns) = lns"
  by (induction lns) (auto simp: name_rows.simps)

lemma screen_row_short:
  assumes "\<forall>(n, d) \<in> set lns. length n < w \<and> list_all printing n" "length lns \<le> 30" "r < length lns"
  shows "screen_row w lns r = Some (lns ! r)"
proof -
  have "concat (map (\<lambda>(n, d). map (\<lambda>t. (t, d)) (name_rows w n)) lns) = lns" using assms(1) by (intro short_rows) auto
  then show ?thesis using assms by (auto simp: screen_row_def list_all_iff)
qed

lemma cursor_row:
  assumes "wf_fm s" "frames s = pane_frames sy" "32 \<le> LINES sy" "cols s = (if side s = 0 then 1 else COLS sy div 2 + 1)" "1 \<le> row s"
  shows "under_cursor sy s = screen_row (nat (COLS sy div 2 - 2)) (window s) (nat (row s) - 1)"
proof -
  have "nat (row s - 1) = nat (row s) - 1" by simp
  then show ?thesis using assms by (auto simp: under_cursor_def wf_fm_def pane_frames_def)
qed

lemma follows_under_cursor:
  assumes "wf_fm s" "follows sy s x u" "frames u = frames s" "cols u = cols s"
    and "frames s = pane_frames sy" "32 \<le> LINES sy" "cols s = (if side s = 0 then 1 else COLS sy div 2 + 1)"
    and "\<forall>k. 1 \<le> k \<and> k < nat (poz (pane s)) \<longrightarrow>
      int (length (cstr (str (pane s) ! k))) < COLS sy div 2 - 2 \<and> list_all printing (cstr (str (pane s) ! k))"
  shows "under_cursor sy u = Some (entry_line sy (cstr (path (pane s))) (str (pane s) ! nat x))"
proof -
  have f: "wf_fm u" "on_page sy u" "side u = side s" "local (pane u) = x" "poz (pane u) = poz (pane s)"
    "str (pane u) = str (pane s)" "cstr (path (pane u)) = cstr (path (pane s))"
    using assms(2) unfolding follows_def by blast+
  have "length n < nat (COLS sy div 2 - 2) \<and> list_all printing n" if "(n, d) \<in> set (window u)" for n d
    using on_page_names [OF f(2) that] assms(8) f(5,6) by fastforce
  then have "\<forall>(n, d) \<in> set (window u). length n < nat (COLS sy div 2 - 2) \<and> list_all printing n" by blast
  from screen_row_short [OF this on_page_length [OF f(2)] conjunct1 [OF on_page_chosen [OF f(2)]]]
  have "screen_row (nat (COLS sy div 2 - 2)) (window u) (nat (row u) - 1) =
      Some (entry_line sy (cstr (path (pane u))) (str (pane u) ! nat (local (pane u))))"
    unfolding conjunct2 [OF on_page_chosen [OF f(2)]] .
  moreover have "under_cursor sy u = screen_row (nat (COLS sy div 2 - 2)) (window u) (nat (row u) - 1)"
    using cursor_row [OF f(1)] on_pageD(1) [OF f(2)] unfolding assms(3,4) f(3) by (metis assms(5-7))
  ultimately show ?thesis using f(4,6,7) by simp
qed

section \<open>Properties of the program\<close>

text \<open>A concrete state, for the instances below: 39 entries in each pane, the first 30 named \<open>a\<close>.\<close>

definition demo_row :: "string \<Rightarrow> char list" where
  "demo_row n = n @ replicate (NAME_SIZE - length n) NUL"

definition demo_pane :: Pane where
  "demo_pane = \<lparr>poz = 40, local = 1,
     str = replicate 31 (demo_row ''a'') @ replicate (LEN - 31) (demo_row ''b''),
     path = ''./'' @ replicate (MAX_PATH_LEN - 2) NUL\<rparr>"

definition demo_dirs :: dirs where
  "demo_dirs = \<lparr>ls = (\<lambda>d. if d = ''./a'' then Some [''.'', ''..'', ''x''] else Some [''.'', replicate 70 (CHR ''y'')]),
     opens = (\<lambda>d. d = ''./a'' \<or> d = ''./b''), LINES = 40, COLS = 80, execs = (\<lambda>_. False)\<rparr>"

definition demo_fm :: fm where
  "demo_fm = \<lparr>panes = [demo_pane, demo_pane], row = 1, cols = 1, side = 0,
     windows = [page demo_dirs demo_pane 1 31, page demo_dirs demo_pane 31 40], frames = pane_frames demo_dirs, fm_log = []\<rparr>"

lemma demo_row: "NUL \<in> set (demo_row ''a'')" "NUL \<in> set (demo_row ''b'')" "cstr (demo_row ''a'') = ''a''"
    "cstr (demo_row ''b'') = ''b''" "length (demo_row ''a'') = NAME_SIZE" "length (demo_row ''b'') = NAME_SIZE"
  by (simp_all add: demo_row_def NAME_SIZE_def cstr_def NUL_def)

lemma demo_path: "cstr (path demo_pane) = ''./''" "NUL \<in> set (path demo_pane)"
    "length (path demo_pane) = MAX_PATH_LEN"
proof -
  have "cstr (''./'' @ NUL # replicate (MAX_PATH_LEN - 3) NUL) = ''./''"
    by (rule cstr_lit) (simp add: NUL_def)
  moreover have "path demo_pane = ''./'' @ NUL # replicate (MAX_PATH_LEN - 3) NUL"
    by (simp add: demo_pane_def MAX_PATH_LEN_def flip: replicate_Suc)
  ultimately show "cstr (path demo_pane) = ''./''" "NUL \<in> set (path demo_pane)"
    "length (path demo_pane) = MAX_PATH_LEN" by (simp_all add: MAX_PATH_LEN_def)
qed

lemma demo_names: "k < 31 \<Longrightarrow> str demo_pane ! k = demo_row ''a''"
    "31 \<le> k \<Longrightarrow> k < LEN \<Longrightarrow> str demo_pane ! k = demo_row ''b''"
  by (simp_all add: demo_pane_def nth_append)

lemma wf_demo: "wf_pane demo_pane" "wf_fm demo_fm" "poz demo_pane = 40" "local demo_pane = 1"
    "panes demo_fm = [demo_pane, demo_pane]" "side demo_fm = 0"
proof -
  have "NUL \<in> set (str demo_pane ! k)" if "k < 40" for k
    using that demo_names [of k] demo_row by (cases "k < 31") (auto simp: LEN_def)
  moreover have "length (str demo_pane) = LEN" "\<forall>r \<in> set (str demo_pane). length r = NAME_SIZE"
    by (auto simp: demo_pane_def LEN_def demo_row)
  ultimately show "wf_pane demo_pane" using demo_path
    by (simp add: wf_pane_def MAX_PATH_LEN_def NAME_SIZE_def) (simp add: demo_pane_def LEN_def)
  then show "wf_fm demo_fm" by (simp add: wf_fm_def demo_fm_def)
qed (simp_all add: demo_pane_def demo_fm_def)

lemma demo_on_page: "on_page demo_dirs demo_fm"
  by (simp add: on_page_def Let_def wf_demo) (simp add: demo_fm_def)

text \<open>
  C18. The cursor keys never leave the arrays and keep the cursor on the chosen entry.  On a screen that holds
  the 32 rows of the frames, with names of printing characters that are shorter than the sub-windows (two columns less
  than half the screen), from a state whose window shows the page of the chosen entry: \<open>KEY_UP\<close> chooses the entry
  before (if there is one), \<open>KEY_DOWN\<close> the entry after, and what the row of the screen under the cursor shows is the
  new entry.
\<close>

theorem cursor_keys_follow:
  assumes "wf_fm s" "on_page sy s" "frames s = pane_frames sy" "32 \<le> LINES sy"
    and "cols s = (if side s = 0 then 1 else COLS sy div 2 + 1)"
    and "\<forall>k. 1 \<le> k \<and> k < nat (poz (pane s)) \<longrightarrow>
      int (length (cstr (str (pane s) ! k))) < COLS sy div 2 - 2 \<and> list_all printing (cstr (str (pane s) ! k))"
  shows "\<exists>t t'. key_up sy s = Some t \<and> key_down sy s = Some t' \<and>
    follows sy s (max 1 (local (pane s) - 1)) t \<and>
    follows sy s (min (poz (pane s) - 1) (local (pane s) + 1)) t' \<and>
    under_cursor sy t =
      Some (entry_line sy (cstr (path (pane s))) (str (pane s) ! nat (max 1 (local (pane s) - 1)))) \<and>
    under_cursor sy t' =
      Some (entry_line sy (cstr (path (pane s))) (str (pane s) ! nat (min (poz (pane s) - 1) (local (pane s) + 1))))"
proof -
  obtain t where t: "key_up sy s = Some t" "follows sy s (max 1 (local (pane s) - 1)) t"
    using key_up_follows [OF assms(1,2)] by (auto elim!: returnsE)
  obtain t' where t': "key_down sy s = Some t'" "follows sy s (min (poz (pane s) - 1) (local (pane s) + 1)) t'"
    using key_down_follows [OF assms(1,2)] by (auto elim!: returnsE)
  have "under_cursor sy u = Some (entry_line sy (cstr (path (pane s))) (str (pane s) ! nat x))"
    if "follows sy s x u" "frames u = frames s" "cols u = cols s" for x u
    by (rule follows_under_cursor [OF assms(1) that(1,2,3) assms(3-6)])
  with t t' key_up_keeps [OF t(1)] key_down_keeps [OF t'(1)] show ?thesis by blast
qed

theorem cursor_keys_follow_witness:
  "\<exists>t. key_down demo_dirs demo_fm = Some t \<and> under_cursor demo_dirs t = Some (''a'', True)"
proof -
  have "nat (min (poz (pane demo_fm) - 1) (local (pane demo_fm) + 1)) = 2" by (simp add: wf_demo)
  then have e: "entry_line demo_dirs (cstr (path (pane demo_fm)))
      (str (pane demo_fm) ! nat (min (poz (pane demo_fm) - 1) (local (pane demo_fm) + 1))) = (''a'', True)"
    using demo_names(1) [of 2] demo_row demo_path
    by (simp only:) (simp add: wf_demo entry_line_def, simp add: demo_dirs_def)
  have f: "frames demo_fm = pane_frames demo_dirs" "32 \<le> LINES demo_dirs"
    "cols demo_fm = (if side demo_fm = 0 then 1 else COLS demo_dirs div 2 + 1)"
    by (simp_all add: demo_fm_def demo_dirs_def)
  have "\<forall>k. 1 \<le> k \<and> k < nat (poz (pane demo_fm)) \<longrightarrow>
      int (length (cstr (str (pane demo_fm) ! k))) < COLS demo_dirs div 2 - 2 \<and> list_all printing (cstr (str (pane demo_fm) ! k))"
  proof (intro allI impI)
    fix k :: nat
    assume "1 \<le> k \<and> k < nat (poz (pane demo_fm))"
    then have "cstr (str (pane demo_fm) ! k) \<in> {''a'', ''b''}"
      using demo_names [of k] demo_row by (cases "k < 31") (simp_all add: wf_demo LEN_def)
    then show "int (length (cstr (str (pane demo_fm) ! k))) < COLS demo_dirs div 2 - 2 \<and> list_all printing (cstr (str (pane demo_fm) ! k))"
      by (auto simp: printing_def demo_dirs_def)
  qed
  from cursor_keys_follow [OF wf_demo(2) demo_on_page f this] show ?thesis unfolding e by blast
qed

text \<open>
  A name as long as the sub-window is wide takes another row, and the lines behind it stand one row lower than
  the program counts: the cursor is on the entry before the chosen one.
\<close>

theorem long_name_shifts_cursor:
  assumes "wf_fm s" "on_page sy s" "frames s = pane_frames sy" "32 \<le> LINES sy"
    and "cols s = (if side s = 0 then 1 else COLS sy div 2 + 1)"
    and "window s = (n, d) # lns" "COLS sy div 2 - 2 \<le> int (length n)" "int (length n) < 2 * (COLS sy div 2 - 2)"
    and "\<forall>(m, e) \<in> set lns. int (length m) < COLS sy div 2 - 2" "\<forall>(m, e) \<in> set (window s). list_all printing m"
    and "3 \<le> row s" "row s < 30"
  shows "under_cursor sy s = Some (entry_line sy (cstr (path (pane s))) (str (pane s) ! nat (local (pane s) - 1)))"
proof -
  let ?w = "nat (COLS sy div 2 - 2)" and ?r = "nat (row s) - 1"
  have w: "0 < ?w" "?w \<le> length n" "length n < 2 * ?w" using assms(7,8) by auto
  have n: "name_rows ?w n = [take ?w n, drop ?w n]"
  proof -
    have "\<not> ?w \<le> length (drop ?w n)" using w(3) by simp
    then have "name_rows ?w (drop ?w n) = [drop ?w n]" by (simp add: name_rows.simps [of _ "drop ?w n"])
    then show ?thesis using w(1,2) by (subst name_rows.simps) simp
  qed
  have c: "concat (map (\<lambda>(n, d). map (\<lambda>t. (t, d)) (name_rows ?w n)) lns) = lns"
    using assms(9) by (intro short_rows) auto
  have l: "?r < length (window s)" "length (window s) \<le> 30" using on_page_chosen [OF assms(2)] on_page_length [OF assms(2)] by simp_all
  have r: "?r = Suc (Suc (nat (row s - 3)))" using assms(11) by simp
  have "?r < Suc (Suc (length lns))" "?r < 29" using l(1) assms(6,12) by simp_all
  moreover have "list_all (\<lambda>(n, d). list_all printing n) (window s)" using assms(10) by (simp add: list_all_iff)
  ultimately have "screen_row ?w (window s) ?r = Some (((take ?w n, d) # (drop ?w n, d) # lns) ! ?r)"
    unfolding assms(6) by (simp add: screen_row_def n c)
  also have "((take ?w n, d) # (drop ?w n, d) # lns) ! ?r = window s ! Suc (nat (row s - 3))" unfolding r by (simp add: assms(6))
  also have "window s ! Suc (nat (row s - 3)) = entry_line sy (cstr (path (pane s))) (str (pane s) ! nat (local (pane s) - 1))"
    using on_page_line [OF assms(2), of "Suc (nat (row s - 3))"] l(1) assms(11) by simp
  finally show ?thesis using cursor_row [OF assms(1,3-5)] assms(11) by simp
qed

definition demo_long :: fm where
  "demo_long = (let l = demo_pane\<lparr>local := 3, str := (str demo_pane)[1 := demo_row (replicate 40 (CHR ''x''))]\<rparr>
     in demo_fm\<lparr>panes := [l, demo_pane], row := 3, windows := [page demo_dirs l 1 31, []]\<rparr>)"

theorem long_name_shifts_cursor_witness:
  "under_cursor demo_dirs demo_long = Some (''a'', True) \<and> str (pane demo_long) ! 2 = demo_row ''a''"
proof -
  let ?x = "replicate 40 (CHR ''x'')" and ?l = "pane demo_long"
  have len: "length (str demo_pane) = LEN" using wf_demo(1) by (simp add: wf_pane_def)
  have ne: "?x \<noteq> ''a''" "?x \<noteq> ''b''" by (simp_all add: numeral_eq_Suc)
  have x: "cstr (demo_row ?x) = ?x" "NUL \<in> set (demo_row ?x)" "length (demo_row ?x) = NAME_SIZE"
    by (simp_all add: demo_row_def NAME_SIZE_def cstr_def NUL_def takeWhile_append numeral_eq_Suc)
  have l: "?l = demo_pane\<lparr>local := 3, str := (str demo_pane)[1 := demo_row ?x]\<rparr>" "side demo_long = 0" "row demo_long = 3"
    "windows demo_long = [page demo_dirs ?l 1 31, []]"
    by (simp_all add: demo_long_def demo_fm_def Let_def)
  have "wf_pane ?l" using wf_demo(1) x(2,3) unfolding l(1) wf_pane_def
    by (auto simp: nth_list_update dest!: set_update_subset_insert [THEN subsetD])
  then have w: "wf_fm demo_long" using wf_demo(1) by (simp add: wf_fm_def demo_long_def demo_fm_def Let_def)
  have o: "on_page demo_dirs demo_long" using l wf_demo(3) by (simp add: on_page_def Let_def)
  have s: "str ?l ! k = demo_row ''a''" if "2 \<le> k" "k < 31" for k using that demo_names(1) [of k] by (simp add: l(1))
  have p: "window demo_long = (?x, False) # map (\<lambda>k. (''a'', True)) [2 ..< 31]"
  proof -
    have "entry_line demo_dirs (cstr (path ?l)) (str ?l ! 1) = (?x, False)"
      using x(1) len demo_path(1) by (simp add: l(1) entry_line_def LEN_def) (simp add: demo_dirs_def ne)
    moreover have "entry_line demo_dirs (cstr (path ?l)) (str ?l ! k) = (''a'', True)" if "2 \<le> k" "k < 31" for k
      using s [OF that] demo_row(3) demo_path(1) by (simp add: l(1) entry_line_def) (simp add: demo_dirs_def)
    moreover have "[1 ..< 31] = 1 # [2 ..< 31 :: nat]" using upt_conv_Cons [of 1 31] by (simp only: Suc_1 One_nat_def [symmetric])
    ultimately show ?thesis by (simp add: l(2,4) page_def)
  qed
  have f: "frames demo_long = pane_frames demo_dirs" "32 \<le> LINES demo_dirs"
    "cols demo_long = (if side demo_long = 0 then 1 else COLS demo_dirs div 2 + 1)"
    by (simp_all add: demo_long_def demo_fm_def demo_dirs_def Let_def)
  have "under_cursor demo_dirs demo_long = Some (entry_line demo_dirs (cstr (path ?l)) (str ?l ! nat (local ?l - 1)))"
    by (rule long_name_shifts_cursor [OF w o f p]) (auto simp: demo_dirs_def printing_def l(3) p list_all_iff)
  then show ?thesis using s [of 2] demo_row(3) demo_path(1) by (simp add: l(1) entry_line_def) (simp add: demo_dirs_def)
qed

text \<open>
  \<open>KEY_DOWN\<close> and \<open>KEY_UP\<close> are inverse to each other away from the last entry, across a page
  boundary too: they return to the same entry, the same line and the same drawn page.
\<close>

theorem down_then_up:
  assumes "wf_fm s" "on_page sy s" "local (pane s) < poz (pane s) - 1"
  shows "\<exists>t u. key_down sy s = Some t \<and> key_up sy t = Some u \<and> side u = side s \<and>
    local (pane u) = local (pane s) \<and> row u = row s \<and> window u = window s"
proof -
  have p: "1 \<le> local (pane s)" using on_pageD [OF assms(2)] by simp
  obtain t where t: "key_down sy s = Some t" "follows sy s (min (poz (pane s) - 1) (local (pane s) + 1)) t"
    using key_down_follows [OF assms(1,2)] by (auto elim!: returnsE)
  have "min (poz (pane s) - 1) (local (pane s) + 1) = local (pane s) + 1" using assms(3) by simp
  then have ft: "follows sy s (local (pane s) + 1) t" using t(2) by (simp only:)
  then have wt: "wf_fm t" "on_page sy t" and lt: "local (pane t) = local (pane s) + 1"
    unfolding follows_def by blast+
  obtain u where u: "key_up sy t = Some u" "follows sy t (max 1 (local (pane t) - 1)) u"
    using key_up_follows [OF wt] by (auto elim!: returnsE)
  have "max 1 (local (pane t) - 1) = local (pane s)" using p unfolding lt by simp
  then have fu: "follows sy t (local (pane s)) u" using u(2) by simp
  have "on_page sy u" "side u = side s" "local (pane u) = local (pane s)" "poz (pane u) = poz (pane s)"
    "str (pane u) = str (pane s)" "cstr (path (pane u)) = cstr (path (pane s))"
    using ft fu unfolding follows_def by metis+
  from on_page_unique [OF assms(2) this] this show ?thesis using t(1) u(1) by blast
qed

theorem down_then_up_witness:
  "\<exists>t u. key_down demo_dirs demo_fm = Some t \<and> key_up demo_dirs t = Some u \<and> side u = side demo_fm \<and>
    local (pane u) = local (pane demo_fm) \<and> row u = row demo_fm \<and> window u = window demo_fm"
  by (rule down_then_up [OF wf_demo(2) demo_on_page]) (simp add: wf_demo)

text \<open>
  C17. Enter on a directory lists it: the pane's path becomes the path of the directory with a slash,
  its entries are the names \<open>scandir\<close> returned, the first page is drawn and its first entry chosen.
\<close>

theorem enter_lists_directory:
  assumes "wf_fm s" "1 \<le> local (pane s)" "local (pane s) < poz (pane s)"
    and "d = cstr (path (pane s)) @ cstr (str (pane s) ! nat (local (pane s)))"
    and "opens sy d" "ls sy d = Some ns" "fits ns" "2 \<le> length ns"
    and "length d + NAME_SIZE + 3 < MAX_PATH_LEN"
  shows "\<exists>t. key_enter sy s = Some (None, t) \<and> wf_fm t \<and> on_page sy t \<and> side t = side s \<and>
    cstr (path (pane t)) = d @ ''/'' \<and> local (pane t) = 1 \<and> poz (pane t) = int (length ns) \<and>
    (\<forall>k. 1 \<le> k \<and> k < length ns \<longrightarrow> cstr (str (pane t) ! k) = ns ! k)"
proof -
  let ?l = "pane s" and ?n = "int (length ns)" and ?hi = "if int (length ns) > 31 then 31 else int (length ns)"
  note w = wf_fm_side [OF assms(1)]
  obtain p where p: "aref (str ?l) (local ?l) = Some (str ?l ! nat (local ?l))"
    "strcat (path ?l) (str ?l ! nat (local ?l)) = Some p" "rd_str p = Some d"
    "length p = MAX_PATH_LEN" "NUL \<in> set p" "cstr p = d"
    by (rule extend_path [OF assms(1-4)])
  have sl: "strlen (path ?l) = Some (length (cstr (path ?l)))" "strlen p = Some (length d)"
    using w(2) p by (simp_all add: cmem wf_pane_def)
  have slash: "NUL \<notin> set ''/''" "NUL \<in> set (lit ''/'')" "cstr (lit ''/'') = ''/''"
    by (simp_all add: NUL_def lit_def cstr_def)
  have r: "length (str ?l) = LEN" "\<forall>r \<in> set (str ?l). length r = NAME_SIZE" using w(2) by (simp_all add: wf_pane_def)
  have room: "length d + length ''/'' + NAME_SIZE \<le> length p" using assms(9) p(4) by simp
  obtain p1 lns rows where p1: "draw_loop sy ''/'' (length d) ?hi 1 (map lit ns) p = Some (p1, lns)"
    "length p1 = length p" "NUL \<in> set p1" "cstr p1 = d"
    and rows: "store_loop ?n 1 (map lit ns) (str ?l) = Some rows" "length rows = LEN" "\<forall>r \<in> set rows. length r = NAME_SIZE"
    "\<forall>k. 1 \<le> k \<and> k < length ns \<longrightarrow> NUL \<in> set (rows ! k) \<and> cstr (rows ! k) = ns ! k"
    and drawn: "\<forall>l. str l = rows \<and> cstr (path l) = d @ ''/'' \<longrightarrow> page sy l 1 (min ?n 31) = lns"
    by (rule list_directory [OF p(5,6) slash(1) assms(7) room r, where sy = sy])
  obtain p2 where p2: "strcat p1 (lit ''/'') = Some p2" "length p2 = MAX_PATH_LEN" "NUL \<in> set p2"
    "cstr p2 = d @ ''/''"
    using strcat_Some [OF slash(2) p1(3)] p1(2,4) p(4) slash(3) assms(9) by auto
  let ?l' = "?l\<lparr>poz := ?n, str := rows, local := 1, path := p2\<rparr>"
  define t where "t = s\<lparr>row := 1, windows := (windows s)[nat (side s) := lns],
    panes := (panes s)[nat (side s) := ?l']\<rparr>"
  have "ns \<noteq> []" using assms(8) by auto
  then have e: "key_enter sy s = Some (None, t)"
    using w(1) p(1-3) sl p1(1) rows(1) p2(1) assms(5) unfolding t_def
    by (simp add: key_enter_def Let_def scandir_Some [OF assms(6)] set_window_Some [OF assms(1)]
        set_pane_Some [OF assms(1)])
  have l': "wf_pane ?l'" using p2 rows assms(7,9) by (simp add: wf_pane_def fits_def)
  have wt: "wf_fm t"
    by (rule wf_fm_update [OF assms(1) l', of "windows t"]) (use assms(1) in \<open>simp_all add: t_def wf_fm_def\<close>)
  have pt: "pane t = ?l'" "window t = lns" "side t = side s" "row t = 1"
    using w(3,4) by (simp_all add: t_def)
  have "page sy ?l' 1 (min ?n (1 + 30)) = lns" using drawn p2(4) by simp
  then have "on_page sy t" using assms(8) unfolding on_page_def Let_def pt(1,2,4) by simp
  moreover have "cstr (path (pane t)) = d @ ''/''" "local (pane t) = 1" "poz (pane t) = ?n"
    "\<forall>k. 1 \<le> k \<and> k < length ns \<longrightarrow> cstr (str (pane t) ! k) = ns ! k"
    unfolding pt(1) using p2(4) rows(4) by simp_all
  ultimately show ?thesis using e wt pt(3) by blast
qed

theorem enter_lists_directory_witness:
  "\<exists>t. key_enter demo_dirs demo_fm = Some (None, t) \<and> cstr (path (pane t)) = ''./a/'' \<and>
    poz (pane t) = 3 \<and> cstr (str (pane t) ! 2) = ''x''"
proof -
  have h: "cstr (path (pane demo_fm)) @ cstr (str (pane demo_fm) ! nat (local (pane demo_fm))) = ''./a''"
    "1 \<le> local (pane demo_fm)" "local (pane demo_fm) < poz (pane demo_fm)"
    using demo_names(1) [of 1] demo_row demo_path by (simp_all add: wf_demo)
  have "opens demo_dirs ''./a''" "ls demo_dirs ''./a'' = Some [''.'', ''..'', ''x'']"
    "fits [''.'', ''..'', ''x'']" "2 \<le> length [''.'', ''..'', ''x'']"
    "length ''./a'' + NAME_SIZE + 3 < MAX_PATH_LEN"
    by (simp_all add: demo_dirs_def fits_def LEN_def NAME_SIZE_def NUL_def MAX_PATH_LEN_def)
  from enter_lists_directory [OF wf_demo(2) h(2,3) h(1) [symmetric] this] show ?thesis by auto
qed

text \<open>
  Enter on an entry that is no directory leaves the inner loop with the path of the entry (which
  is then executed or edited) and the old length of the path, at which cutting restores the path.
\<close>

theorem enter_opens_file:
  assumes "wf_fm s" "1 \<le> local (pane s)" "local (pane s) < poz (pane s)"
    and "d = cstr (path (pane s)) @ cstr (str (pane s) ! nat (local (pane s)))" "\<not> opens sy d"
  shows "\<exists>glob q p. key_enter sy s = Some (Some glob, s\<lparr>panes := (panes s)[nat (side s) := (pane s)\<lparr>path := q\<rparr>]\<rparr>) \<and>
    NUL \<in> set q \<and> cstr q = d \<and> aset q (int glob) NUL = Some p \<and>
    NUL \<in> set p \<and> length p = MAX_PATH_LEN \<and> cstr p = cstr (path (pane s))"
proof -
  let ?l = "pane s"
  note w = wf_fm_side [OF assms(1)]
  obtain p where p: "aref (str ?l) (local ?l) = Some (str ?l ! nat (local ?l))"
    "strcat (path ?l) (str ?l ! nat (local ?l)) = Some p" "rd_str p = Some d"
    "length p = MAX_PATH_LEN" "NUL \<in> set p" "cstr p = d"
    by (rule extend_path [OF assms(1-4)])
  have sl: "strlen (path ?l) = Some (length (cstr (path ?l)))"
    using w(2) by (simp add: cmem wf_pane_def)
  have e: "key_enter sy s = Some (Some (length (cstr (path ?l))), s\<lparr>panes := (panes s)[nat (side s) := ?l\<lparr>path := p\<rparr>]\<rparr>)"
    using w(1) p(1-3) sl assms(5)
    by (simp add: key_enter_def Let_def case_prod_beta set_pane_Some [OF assms(1)])
  have k: "length (cstr (path ?l)) \<le> length (cstr p)" by (simp add: p(6) assms(4))
  let ?p = "p[length (cstr (path ?l)) := NUL]"
  have c: "cstr ?p = cstr (path ?l)" "NUL \<in> set ?p" "length ?p = MAX_PATH_LEN"
    using cstr_cut [OF p(5) k] p(4) by (simp_all add: p(6) assms(4))
  have "length (cstr (path ?l)) < length p" using k length_cstr [OF p(5)] by simp
  then have "aset p (int (length (cstr (path ?l)))) NUL = Some ?p" by (simp add: aset_def)
  then show ?thesis using e p(5,6) c by blast
qed

theorem enter_opens_file_witness:
  "\<exists>glob q p. key_enter (demo_dirs\<lparr>opens := (\<lambda>_. False)\<rparr>) demo_fm =
      Some (Some glob, demo_fm\<lparr>panes := (panes demo_fm)[0 := demo_pane\<lparr>path := q\<rparr>]\<rparr>) \<and>
    cstr q = ''./a'' \<and> aset q (int glob) NUL = Some p \<and> cstr p = ''./''"
proof -
  have h: "''./a'' = cstr (path (pane demo_fm)) @ cstr (str (pane demo_fm) ! nat (local (pane demo_fm)))"
    "1 \<le> local (pane demo_fm)" "local (pane demo_fm) < poz (pane demo_fm)"
    using demo_names(1) [of 1] demo_row demo_path by (simp_all add: wf_demo)
  show ?thesis using enter_opens_file [OF wf_demo(2) h(2,3,1), of "demo_dirs\<lparr>opens := (\<lambda>_. False)\<rparr>"]
    by (auto simp: wf_demo demo_path)
qed

text \<open>
  Names of 70 bytes or more do not fit the rows of \<open>str\<close>: entering a directory with such an entry
  writes past the row.
\<close>

theorem enter_long_name_overflows:
  assumes "wf_fm s" "1 \<le> local (pane s)" "local (pane s) < poz (pane s)"
    and "d = cstr (path (pane s)) @ cstr (str (pane s) ! nat (local (pane s)))"
    and "opens sy d" "ls sy d = Some ns" "1 \<le> k" "k < length ns" "length ns \<le> LEN"
    and "NUL \<notin> set (ns ! k)" "NAME_SIZE \<le> length (ns ! k)"
  shows "key_enter sy s = None"
proof -
  let ?l = "pane s"
  note w = wf_fm_side [OF assms(1)]
  obtain p where p: "aref (str ?l) (local ?l) = Some (str ?l ! nat (local ?l))"
    "strcat (path ?l) (str ?l ! nat (local ?l)) = Some p" "rd_str p = Some d"
    "length p = MAX_PATH_LEN" "NUL \<in> set p" "cstr p = d"
    by (rule extend_path [OF assms(1-4)])
  have "store_loop (int (length ns)) 1 (map lit ns) (str ?l) = None"
    using w(2) assms(7-11) by (intro store_loop_long_name [of _ k])
      (auto simp: wf_pane_def lit_def cstr_lit)
  moreover have "ns \<noteq> []" using assms(8) by auto
  ultimately show ?thesis using w(1) p(1-3) assms(5)
    by (simp add: key_enter_def Let_def scandir_Some [OF assms(6)] split: Option.bind_split)
qed

theorem enter_long_name_overflows_witness:
  "key_enter (demo_dirs\<lparr>ls := (\<lambda>_. Some [''.'', replicate 70 (CHR ''y'')])\<rparr>) demo_fm = None"
proof -
  have h: "''./a'' = cstr (path (pane demo_fm)) @ cstr (str (pane demo_fm) ! nat (local (pane demo_fm)))"
    "1 \<le> local (pane demo_fm)" "local (pane demo_fm) < poz (pane demo_fm)"
    using demo_names(1) [of 1] demo_row demo_path by (simp_all add: wf_demo)
  show ?thesis
    by (rule enter_long_name_overflows [OF wf_demo(2) h(2,3,1),
        where k = 1 and ns = "[''.'', replicate 70 (CHR ''y'')]"])
      (simp_all add: demo_dirs_def LEN_def NAME_SIZE_def NUL_def)
qed

text \<open>
  The tabulator key chooses the first entry of the other pane and puts the cursor on its first
  line, but does not redraw the pane: if its window shows a later page, the line under the cursor is
  not the chosen entry.
\<close>

theorem btab_keeps_old_page:
  assumes "wf_fm s" "side s = 0" "l = panes s ! 1" "31 < poz l"
    and "windows s ! 1 = page sy l 31 (min (poz l) 61)" "cstr (str l ! 31) \<noteq> cstr (str l ! 1)"
  shows "\<exists>t. key_btab sy s = Some t \<and> side t = 1 \<and> row t = 1 \<and> local (pane t) = 1 \<and>
    window t ! 0 \<noteq> entry_line sy (cstr (path (pane t))) (str (pane t) ! 1)"
proof -
  have n: "length (panes s) = 2" using assms(1) by (simp add: wf_fm_def)
  define t where "t = s\<lparr>cols := COLS sy div 2 + 1, side := 1, row := 1, panes := (panes s)[1 := l\<lparr>local := 1\<rparr>]\<rparr>"
  have e: "key_btab sy s = Some t"
    using n assms(2,3) by (simp add: key_btab_def Let_def set_pane_def aref_def aset_def t_def)
  have "[31 ..< nat (min (poz l) 61)] = 31 # [Suc 31 ..< nat (min (poz l) 61)]"
    using assms(4) by (intro upt_conv_Cons) simp
  then have "window t ! 0 = entry_line sy (cstr (path l)) (str l ! 31)"
    using assms(5) by (simp add: t_def page_def)
  then show ?thesis using e n assms(6) by (auto simp: t_def entry_line_def)
qed

theorem btab_keeps_old_page_witness:
  "\<exists>t. key_btab demo_dirs demo_fm = Some t \<and> side t = 1 \<and> row t = 1 \<and> local (pane t) = 1 \<and>
    window t ! 0 \<noteq> entry_line demo_dirs (cstr (path (pane t))) (str (pane t) ! 1)"
  by (rule btab_keeps_old_page [OF wf_demo(2,6) refl])
    (use demo_names(1) [of 1] demo_names(2) [of 31] demo_row in \<open>simp_all add: wf_demo LEN_def\<close>,
      simp add: demo_fm_def)

end
