(* ===== verification/FileManager_Main.thy ===== *)
theory FileManager_Main
  imports FileManager_Correct
begin

text \<open>
  A whole session of the file manager: what the outer loop establishes when it opens the panes, several
  keys in a row, and the hand-over of a file from the start of the program to its end.
\<close>

section \<open>Opening the panes\<close>

text \<open>A pane whose arrays have their sizes and whose path is \<open>d\<close>; its rows may hold anything.\<close>

definition ready :: "string \<Rightarrow> Pane \<Rightarrow> bool" where
  "ready d l \<longleftrightarrow> length (path l) = MAX_PATH_LEN \<and> NUL \<in> set (path l) \<and> cstr (path l) = d \<and>
     length d + NAME_SIZE + 2 < MAX_PATH_LEN \<and> length (str l) = LEN \<and> (\<forall>r \<in> set (str l). length r = NAME_SIZE)"

text \<open>A pane that shows the first page of the entries \<open>ns\<close>, the first of them chosen.\<close>

definition opened :: "dirs \<Rightarrow> string \<Rightarrow> string list \<Rightarrow> Pane \<Rightarrow> line list \<Rightarrow> bool" where
  "opened sy d ns l w \<longleftrightarrow> wf_pane l \<and> cstr (path l) = d \<and> local l = 1 \<and> poz l = int (length ns) \<and>
     (\<forall>k. 1 \<le> k \<and> k < length ns \<longrightarrow> cstr (str l ! k) = ns ! k) \<and> w = page sy l 1 (min (poz l) 31)"

lemma wf_ready: "wf_pane l \<Longrightarrow> ready (cstr (path l)) l"
  by (simp add: wf_pane_def ready_def)

lemma open_pane_opened:
  assumes "ready d l" "ls sy d = Some ns" "fits ns"
  obtains l' w where "open_pane sy l = Some (l', w)" "opened sy d ns l' w"
proof -
  let ?n = "int (length ns)" and ?hi = "if int (length ns) > 31 then 31 else int (length ns)"
  have p: "length (path l) = MAX_PATH_LEN" "NUL \<in> set (path l)" "cstr (path l) = d" "length d + NAME_SIZE + 2 < MAX_PATH_LEN"
    and r: "length (str l) = LEN" "\<forall>r \<in> set (str l). length r = NAME_SIZE" using assms(1) by (simp_all add: ready_def)
  have room: "NUL \<notin> set []" "length d + length [] + NAME_SIZE \<le> length (path l)" using p by simp_all
  obtain p1 w rows where p1: "draw_loop sy [] (length d) ?hi 1 (map lit ns) (path l) = Some (p1, w)"
    "length p1 = length (path l)" "NUL \<in> set p1" "cstr p1 = d"
    and rows: "store_loop ?n 1 (map lit ns) (str l) = Some rows" "length rows = LEN" "\<forall>r \<in> set rows. length r = NAME_SIZE"
    "\<forall>k. 1 \<le> k \<and> k < length ns \<longrightarrow> NUL \<in> set (rows ! k) \<and> cstr (rows ! k) = ns ! k"
    and drawn: "\<forall>l'. str l' = rows \<and> cstr (path l') = d @ [] \<longrightarrow> page sy l' 1 (min ?n 31) = w"
    by (rule list_directory [OF p(2,3) room(1) assms(3) room(2) r, where sy = sy])
  let ?l = "\<lparr>poz = ?n, local = 1, str = rows, path = p1\<rparr>"
  have "open_pane sy l = Some (?l, w)"
    using p p1(1) rows(1) by (simp add: open_pane_def cmem scandir_Some [OF assms(2)] Let_def)
  moreover have "wf_pane ?l" using p p1 rows assms(3) by (simp add: wf_pane_def fits_def)
  moreover have "w = page sy ?l 1 (min ?n 31)" using drawn p1(4) by simp
  ultimately show thesis using that p1(4) rows(4) by (simp add: opened_def)
qed

text \<open>The state in which the inner loop starts.\<close>

lemma open_panes_opened:
  assumes "ready d0 l0" "ready d1 l1" "ls sy d0 = Some ns0" "ls sy d1 = Some ns1" "fits ns0" "fits ns1"
    "gs \<in> {0, 1}" "ns = (if gs = 0 then ns0 else ns1)" "2 \<le> length ns" "d = (if gs = 0 then d0 else d1)"
  obtains s where "open_panes sy gs gc [l0, l1] lg = Some s" "wf_fm s" "on_page sy s" "side s = gs" "fm_log s = lg"
    "local (pane s) = 1" "poz (pane s) = int (length ns)" "cstr (path (pane s)) = d"
    "\<And>k. 1 \<le> k \<Longrightarrow> k < length ns \<Longrightarrow> cstr (str (pane s) ! k) = ns ! k"
    "ready d0 (panes s ! 0)" "ready d1 (panes s ! 1)"
    "opened sy d0 ns0 (panes s ! 0) (windows s ! 0)" "opened sy d1 ns1 (panes s ! 1) (windows s ! 1)" "row s = 1" "cols s = gc"
proof -
  obtain a w0 where a: "open_pane sy l0 = Some (a, w0)" "opened sy d0 ns0 a w0" by (rule open_pane_opened [OF assms(1,3,5)])
  obtain b w1 where b: "open_pane sy l1 = Some (b, w1)" "opened sy d1 ns1 b w1" by (rule open_pane_opened [OF assms(2,4,6)])
  let ?s = "\<lparr>panes = [a, b], row = 1, cols = gc, side = gs, windows = [w0, w1], frames = pane_frames sy, fm_log = lg\<rparr>"
  have o: "open_panes sy gs gc [l0, l1] lg = Some ?s" using a(1) b(1) by (simp add: open_panes_def aref_def)
  have p: "opened sy d ns (pane ?s) (window ?s)" using a(2) b(2) assms(7,8,10) by auto
  have "wf_fm ?s" using a(2) b(2) assms(7) by (simp add: wf_fm_def opened_def)
  moreover have "on_page sy ?s" using p assms(9) by (simp add: on_page_def opened_def Let_def)
  moreover have "ready d0 a" "ready d1 b" using a(2) b(2) wf_ready by (auto simp: opened_def)
  ultimately show thesis using that [OF o] p a(2) b(2) by (simp add: opened_def)
qed

text \<open>The state in which a child starts that goes on with a file as its path: that pane is empty.\<close>

lemma open_panes_file:
  assumes "length (path l0) = MAX_PATH_LEN" "rd_str (path l0) = Some f" "ls sy f = None" "ready d1 l1" "ls sy d1 = Some ns" "fits ns"
  obtains s where "open_panes sy gs gc [l0, l1] lg = Some s" "fm_log s = lg"
proof -
  obtain b w1 where b: "open_pane sy l1 = Some (b, w1)" "opened sy d1 ns b w1" by (rule open_pane_opened [OF assms(4-6)])
  have "NUL \<in> set (path l0)" using assms(2) by (auto simp: rd_str_def split: if_splits)
  then have "open_pane sy l0 = Some (\<lparr>poz = -1, local = 1, str = str l0, path = path l0\<rparr>, [])"
    using assms(2,3) by (simp add: open_pane_def scandir_def cmem draw_loop.simps store_loop.simps)
  then show thesis using that b(1) by (simp add: open_panes_def aref_def)
qed

section \<open>Several keys\<close>

lemma key_down_frame:
  assumes "key_down sy s = Some t" "wf_fm s" "local (pane s) < poz (pane s) - 1"
  shows "fm_log t = fm_log s" "side s = 0 \<Longrightarrow> panes t ! 1 = panes s ! 1" "side s = 1 \<Longrightarrow> panes t ! 0 = panes s ! 0"
  using assms wf_fm_side(1) [OF assms(2)]
  by (auto simp: key_down_def set_pane_def set_window_def aset_def Let_def bind_eq_Some_conv' split: if_splits)

lemma follows_trans: "follows sy s x t \<Longrightarrow> follows sy t y u \<Longrightarrow> follows sy s y u"
  unfolding follows_def by metis

text \<open>Moving down \<open>m\<close> entries, as far as there are any.\<close>

lemma keys_down:
  assumes "wf_fm s" "on_page sy s" "local (pane s) + int m < poz (pane s)" "c \<noteq> KEY_TILDE"
  shows "\<exists>t c'. follows sy s (local (pane s) + int m) t \<and> fm_log t = fm_log s \<and> c' \<noteq> KEY_TILDE \<and>
    (side s = 0 \<longrightarrow> panes t ! 1 = panes s ! 1) \<and> browse sy c (replicate m KEY_DOWN @ ks) s = browse sy c' ks t"
  using assms
proof (induction m arbitrary: s c)
  case 0
  then show ?case by (intro exI [of _ s] exI [of _ c]) (simp add: follows_def)
next
  case (Suc m)
  obtain t where t: "key_down sy s = Some t" "follows sy s (min (poz (pane s) - 1) (local (pane s) + 1)) t"
    using key_down_follows [OF Suc.prems(1,2)] by (auto elim!: returnsE)
  have l: "local (pane s) < poz (pane s) - 1" using Suc.prems(3) by simp
  then have "min (poz (pane s) - 1) (local (pane s) + 1) = local (pane s) + 1" by simp
  then have f: "follows sy s (local (pane s) + 1) t" using t(2) by simp
  have b: "browse sy c (replicate (Suc m) KEY_DOWN @ ks) s = browse sy KEY_DOWN (replicate m KEY_DOWN @ ks) t"
    using Suc.prems(4) t(1) by (subst browse.simps) (simp add: key_defs)
  have g: "wf_fm t" "on_page sy t" "local (pane t) + int m < poz (pane t)" and d: "side t = side s"
    using f Suc.prems(3) by (auto simp: follows_def)
  obtain u c' where u: "follows sy t (local (pane t) + int m) u" "fm_log u = fm_log t" "c' \<noteq> KEY_TILDE"
    "browse sy KEY_DOWN (replicate m KEY_DOWN @ ks) t = browse sy c' ks u"
    "side t = 0 \<longrightarrow> panes u ! 1 = panes t ! 1"
    using Suc.IH [OF g, of KEY_DOWN] by (auto simp: key_defs)
  have "follows sy s (local (pane s) + int (Suc m)) u"
    using follows_trans [OF f u(1)] f by (auto simp: follows_def)
  then show ?case using b u d key_down_frame [OF t(1) Suc.prems(1) l] by (intro exI [of _ u] exI [of _ c']) simp
qed

text \<open>
  Keys down and Enter in the left pane: the loop ends with the file under the cursor as its path, which can be
  cut back.
\<close>

lemma down_and_enter:
  assumes "wf_fm s" "on_page sy s" "side s = 0" "local (pane s) + int m < poz (pane s)" "1 \<le> local (pane s)" "c \<noteq> KEY_TILDE"
    and "f = cstr (path (pane s)) @ cstr (str (pane s) ! nat (local (pane s) + int m))" "\<not> opens sy f"
  shows "\<exists>glob t l p. browse sy c (replicate m KEY_DOWN @ KEY_NL # ks) s = Some (Some glob, Some ks, t) \<and> fm_log t = fm_log s \<and> side t = 0 \<and>
    panes t = [l, panes s ! 1] \<and> length (path l) = MAX_PATH_LEN \<and> rd_str (path l) = Some f \<and> aset (path l) (int glob) NUL = Some p \<and>
    set_pane t (l\<lparr>path := p\<rparr>) = Some (t\<lparr>panes := [l\<lparr>path := p\<rparr>, panes s ! 1]\<rparr>) \<and> ready (cstr (path (pane s))) (l\<lparr>path := p\<rparr>)"
proof -
  obtain t c' where t: "follows sy s (local (pane s) + int m) t" "fm_log t = fm_log s" "c' \<noteq> KEY_TILDE" "panes t ! 1 = panes s ! 1"
    "browse sy c (replicate m KEY_DOWN @ KEY_NL # ks) s = browse sy c' (KEY_NL # ks) t"
    using keys_down [OF assms(1,2,4,6), of "KEY_NL # ks"] assms(3) by auto
  have w: "wf_fm t" "side t = 0" "1 \<le> local (pane t)" "local (pane t) < poz (pane t)" "cstr (path (pane t)) = cstr (path (pane s))"
    "f = cstr (path (pane t)) @ cstr (str (pane t) ! nat (local (pane t)))"
    using t(1) assms by (auto simp: follows_def)
  obtain glob q p where k: "key_enter sy t = Some (Some glob, t\<lparr>panes := (panes t)[nat (side t) := (pane t)\<lparr>path := q\<rparr>]\<rparr>)"
    "NUL \<in> set q" "cstr q = f" "aset q (int glob) NUL = Some p" "NUL \<in> set p" "length p = MAX_PATH_LEN" "cstr p = cstr (path (pane t))"
    using enter_opens_file [OF w(1,3,4,6) assms(8)] by blast
  define u where "u = t\<lparr>panes := (panes t)[0 := (panes t ! 0)\<lparr>path := q\<rparr>]\<rparr>"
  let ?l = "(panes t ! 0)\<lparr>path := q\<rparr>" and ?m = "(panes t ! 0)\<lparr>path := p\<rparr>"
  have n: "length (panes t) = 2" using w(1) by (simp add: wf_fm_def)
  have b: "browse sy c' (KEY_NL # ks) t = Some (Some glob, Some ks, u)"
    using t(3) k(1) w(2) by (subst browse.simps) (simp add: key_defs u_def)
  have two: "panes t = [panes t ! 0, panes t ! 1]" using n by (intro nth_equalityI) (auto simp: less_2_cases_iff)
  have "panes u = [?l, panes t ! 1]" unfolding u_def by (subst two) simp
  then have a0: "panes u = [?l, panes s ! 1]" unfolding t(4) .
  have lq: "length q = MAX_PATH_LEN" using k(4,6) by (auto simp: aset_def split: if_splits)
  from two have a1: "set_pane u ?m = Some (u\<lparr>panes := [?m, panes s ! 1]\<rparr>)"
    using n w(2) t(4) by (simp add: set_pane_def aset_def u_def) (metis list_update_code(2) list_update_overwrite)
  have "wf_pane (panes t ! 0)" using w(1) n by (simp add: wf_fm_def)
  then have m: "ready (cstr (path (pane s))) ?m" using k(5-7) w(2,5) by (simp add: ready_def wf_pane_def)
  have r: "rd_str q = Some f" using k(2,3) by (simp add: cmem)
  have "fm_log u = fm_log s" "side u = 0" using t(2) w(2) by (simp_all add: u_def)
  then show ?thesis using t(5) b a0 a1 m r k(4) lq
    by (intro exI [of _ glob] exI [of _ u] exI [of _ ?l] exI [of _ p]) simp
qed

section \<open>A session\<close>

lemma ready_path:
  assumes "length (path l) = MAX_PATH_LEN" "length (str l) = LEN" "\<forall>r \<in> set (str l). length r = NAME_SIZE"
  obtains p where "strcpy (path l) (lit ''./'') = Some p" "ready ''./'' (l\<lparr>poz := 1, path := p\<rparr>)"
proof -
  have d: "NUL \<in> set (lit ''./'')" "cstr (lit ''./'') = ''./''" by (simp_all add: lit_def cstr_def NUL_def)
  obtain p where p: "strcpy (path l) (lit ''./'') = Some p" "length p = length (path l)" "NUL \<in> set p" "cstr p = cstr (lit ''./'')"
    using strcpy_Some [OF d(1), of "path l"] assms(1) d(2) by (auto simp: MAX_PATH_LEN_def)
  then show thesis using that assms d(2) by (simp add: ready_def MAX_PATH_LEN_def NAME_SIZE_def)
qed

lemma browse_tilde: "c \<noteq> KEY_TILDE \<Longrightarrow> browse sy c (KEY_TILDE # ks) s = Some (None, Some ks, s)"
  by (subst browse.simps, subst browse.simps) (simp add: key_defs)

text \<open>
  The hand-over of a file from the left pane.  \<open>ev\<close> is what the child does, \<open>ts\<close> the keys it takes itself: where
  neither \<open>execl\<close> works, a tilde that ends it.
\<close>

definition handed :: "dirs \<Rightarrow> bool \<Rightarrow> string \<Rightarrow> fm_event list \<times> int list" where
  "handed sy forks f =
     (if \<not> forks then ([], [])
      else if execs sy f then ([Run f], [])
      else if execs sy ''/usr/bin/vim'' then ([Edit f], []) else ([], [KEY_TILDE]))"

lemma child_ends:
  assumes "handed sy (snd (this_round rs)) f = (ev, ts)" "ls sy f = None" "\<forall>(c, b) \<in> set rs. c \<noteq> KEY_TILDE"
    and "panes t = [l, l1]" "side t = 0" "length (path l) = MAX_PATH_LEN" "rd_str (path l) = Some f" "ready d l1" "ls sy d = Some ns" "fits ns"
  shows "\<exists>rs' u. (if \<not> snd (this_round rs) then Some (tl rs, Ended (ts @ ks) t)
      else case hand_over sy f of
        Some e \<Rightarrow> Some (tl rs, Ended (ts @ ks) (t\<lparr>fm_log := fm_log t @ [e]\<rparr>))
      | None \<Rightarrow> fm_loop (Suc fuel) sy (tl rs) (side t) (cols t) (panes t) (ts @ ks) (fm_log t)) = Some (rs', Ended ks u) \<and>
    fm_log u = fm_log t @ ev \<and> set rs' \<subseteq> set rs"
proof (cases "ts = []")
  case True
  have "set (tl rs) \<subseteq> set rs" by (cases rs) auto
  then show ?thesis using True assms(1) by (auto simp: handed_def hand_over_def split: if_splits)
next
  case False
  then have h: "snd (this_round rs)" "hand_over sy f = None" "ts = [KEY_TILDE]" "ev = []"
    using assms(1) by (auto simp: handed_def hand_over_def split: if_splits)
  obtain s where s: "open_panes sy 0 (cols t) [l, l1] (fm_log t) = Some s" "fm_log s = fm_log t"
    by (rule open_panes_file [OF assms(6,7,2,8-10)])
  have c: "fst (this_round (tl rs)) \<noteq> KEY_TILDE" using assms(3)
    by (cases rs; cases "tl rs") (auto simp: this_round_def key_defs)
  have "set (tl (tl rs)) \<subseteq> set rs" by (cases rs; cases "tl rs") auto
  then show ?thesis using h s assms(4,5) browse_tilde [OF c, of sy ks s] by simp
qed

text \<open>
  C16. A session from the start of the program to its end: from the working directory \<open>m\<close> keys down and Enter hand
  the entry number \<open>m + 1\<close> to the system.  The child runs it, or opens it in the editor when it cannot be run; when
  that fails too the child browses on until a tilde ends it; when \<open>fork\<close> fails nothing is run.  After the
  prompt and any key both panes show the first page of the directory again, with the cursor on the first
  line of the left one, and the tilde ends the program.
\<close>

theorem fm_session:
  assumes "\<forall>l \<in> {l0, l1}. length (path l) = MAX_PATH_LEN \<and> length (str l) = LEN \<and> (\<forall>r \<in> set (str l). length r = NAME_SIZE)"
    and "ls sy ''./'' = Some ns" "fits ns" "m + 1 < length ns" "f = ''./'' @ ns ! (m + 1)" "\<not> opens sy f" "ls sy f = None"
    and "\<forall>(c, b) \<in> set rs. c \<noteq> KEY_TILDE" "handed sy (snd (this_round rs)) f = (ev, ts)"
  shows "\<exists>rs' u. fm_main (Suc (Suc fuel)) sy rs [l0, l1] (replicate m KEY_DOWN @ KEY_NL # ts @ [x, KEY_TILDE]) = Some (rs', Ended [] u) \<and>
    fm_log u = ev @ [Prompt] \<and> side u = 0 \<and> row u = 1 \<and>
    opened sy ''./'' ns (panes u ! 0) (windows u ! 0) \<and> opened sy ''./'' ns (panes u ! 1) (windows u ! 1)"
proof -
  obtain p0 where p0: "strcpy (path l0) (lit ''./'') = Some p0" "ready ''./'' (l0\<lparr>poz := 1, path := p0\<rparr>)" (is "ready _ ?l0")
    by (rule ready_path [of l0]) (use assms(1) in auto)
  obtain p1 where p1: "strcpy (path l1) (lit ''./'') = Some p1" "ready ''./'' (l1\<lparr>poz := 1, path := p1\<rparr>)" (is "ready _ ?l1")
    by (rule ready_path [of l1]) (use assms(1) in auto)
  have ns: "2 \<le> length ns" "0 \<in> {0 :: int, 1}" using assms(4) by simp_all
  note open' = open_panes_opened [OF _ _ assms(2,2,3,3) ns(2) _ ns(1), where d = "''./''"]
  obtain s where s: "open_panes sy 0 1 [?l0, ?l1] [] = Some s" "wf_fm s" "on_page sy s" "side s = 0" "fm_log s = []"
    "local (pane s) = 1" "poz (pane s) = int (length ns)" "cstr (path (pane s)) = ''./''"
    "\<And>k. 1 \<le> k \<Longrightarrow> k < length ns \<Longrightarrow> cstr (str (pane s) ! k) = ns ! k" "ready ''./'' (panes s ! 1)"
    by (rule open' [OF p0(2) p1(2), of 1 "[]"]) simp_all
  have c: "fst (this_round qs) \<noteq> KEY_TILDE" if "set qs \<subseteq> set rs" for qs
    using assms(8) that by (cases qs) (auto simp: this_round_def key_defs)
  have less: "local (pane s) + int m < poz (pane s)" "1 \<le> local (pane s)" using s(6,7) assms(4) by simp_all
  have f: "f = cstr (path (pane s)) @ cstr (str (pane s) ! nat (local (pane s) + int m))"
    using s(6,8,9) assms(4,5) by (simp add: nat_add_distrib)
  obtain glob t l p where b: "browse sy (fst (this_round rs)) (replicate m KEY_DOWN @ KEY_NL # ts @ [x, KEY_TILDE]) s = Some (Some glob, Some (ts @ [x, KEY_TILDE]), t)"
    "fm_log t = []" "side t = 0" "panes t = [l, panes s ! 1]" "length (path l) = MAX_PATH_LEN" "rd_str (path l) = Some f" "aset (path l) (int glob) NUL = Some p"
    "ready ''./'' (l\<lparr>path := p\<rparr>)"
    using down_and_enter [OF s(2-4) less(1,2) c f assms(6), of rs "ts @ [x, KEY_TILDE]"] s(5,8) by (metis subset_refl)
  obtain rs' v where v: "(if \<not> snd (this_round rs) then Some (tl rs, Ended (ts @ [x, KEY_TILDE]) t)
      else case hand_over sy f of
        Some e \<Rightarrow> Some (tl rs, Ended (ts @ [x, KEY_TILDE]) (t\<lparr>fm_log := fm_log t @ [e]\<rparr>))
      | None \<Rightarrow> fm_loop (Suc fuel) sy (tl rs) (side t) (cols t) (panes t) (ts @ [x, KEY_TILDE]) (fm_log t)) = Some (rs', Ended [x, KEY_TILDE] v)"
    "fm_log v = ev" "set rs' \<subseteq> set rs"
    using child_ends [OF assms(9,7,8) b(4,3,5,6) s(10) assms(2,3), of "[x, KEY_TILDE]" fuel] b(2) by auto
  obtain u where u: "open_panes sy 0 (cols t) [l\<lparr>path := p\<rparr>, panes s ! 1] (ev @ [Prompt]) = Some u" "fm_log u = ev @ [Prompt]" "side u = 0" "row u = 1"
    "opened sy ''./'' ns (panes u ! 0) (windows u ! 0)" "opened sy ''./'' ns (panes u ! 1) (windows u ! 1)"
    by (rule open' [OF b(8) s(10), of "cols t" "ev @ [Prompt]"]) simp_all
  define q where "q = t\<lparr>fm_log := ev @ [Prompt], panes := [l\<lparr>path := p\<rparr>, panes s ! 1]\<rparr>"
  have a: "after_child glob [x, KEY_TILDE] (t\<lparr>fm_log := fm_log v\<rparr>) = Some (Some [KEY_TILDE], q)"
    using b(3,4,7) v(2) by (simp add: after_child_def aref_def set_pane_def aset_def q_def)
  have q: "side q = 0" "cols q = cols t" "panes q = [l\<lparr>path := p\<rparr>, panes s ! 1]" "fm_log q = ev @ [Prompt]" by (simp_all add: q_def b(3))
  have r: "fm_loop (Suc fuel) sy rs' (side q) (cols q) (panes q) [KEY_TILDE] (fm_log q) = Some (tl rs', Ended [] u)"
    using u(1) browse_tilde [OF c [OF v(3)], of sy "[]" u] by (simp add: q)
  have y: "aref [l0, l1] 0 = Some l0" "aref [l0, l1] 1 = Some l1" "aref (panes t) (side t) = Some l"
    by (simp_all add: aref_def b(3,4))
  have "fm_loop (Suc (Suc fuel)) sy rs 0 1 [?l0, ?l1] (replicate m KEY_DOWN @ KEY_NL # ts @ [x, KEY_TILDE]) [] = Some (tl rs', Ended [] u)"
    unfolding fm_loop.simps(2) [of "Suc fuel"] s(1) bind.bind_lunit b(1) prod.case option.case y(3) b(6) v(1) fm_end.case a r ..
  then have "fm_main (Suc (Suc fuel)) sy rs [l0, l1] (replicate m KEY_DOWN @ KEY_NL # ts @ [x, KEY_TILDE]) = Some (tl rs', Ended [] u)"
    using p0(1) p1(1) y(1,2) by (simp add: fm_main_def del: fm_loop.simps)
  then show ?thesis using u(2-6) by blast
qed

definition demo_home :: dirs where
  "demo_home = \<lparr>ls = (\<lambda>d. if d = ''./'' then Some [''.'', ''..'', ''x'', ''y''] else None), opens = (\<lambda>d. d = ''./..''),
     LINES = 40, COLS = 80, execs = (\<lambda>f. f = ''./x'')\<rparr>"

text \<open>The file \<open>x\<close> is a program; \<open>y\<close> is none, and there is no editor; and the child cannot be made.\<close>

theorem fm_session_witness:
  "(\<exists>rs' u. fm_main 2 demo_home [(0, True)] [demo_pane, demo_pane] [KEY_DOWN, KEY_NL, 32, KEY_TILDE] = Some (rs', Ended [] u) \<and>
      fm_log u = [Run ''./x'', Prompt] \<and> opened demo_home ''./'' [''.'', ''..'', ''x'', ''y''] (panes u ! 0) (windows u ! 0)) \<and>
   (\<exists>rs' u. fm_main 2 demo_home [(0, True)] [demo_pane, demo_pane] [KEY_DOWN, KEY_DOWN, KEY_NL, KEY_TILDE, 32, KEY_TILDE] = Some (rs', Ended [] u) \<and>
      fm_log u = [Prompt]) \<and>
   (\<exists>rs' u. fm_main 2 demo_home [(0, False)] [demo_pane, demo_pane] [KEY_DOWN, KEY_NL, 32, KEY_TILDE] = Some (rs', Ended [] u) \<and>
      fm_log u = [Prompt])"
proof -
  let ?ns = "[''.'', ''..'', ''x'', ''y'']"
  have "wf_pane demo_pane" by (rule wf_demo(1))
  then have l: "\<forall>l \<in> {demo_pane, demo_pane}. length (path l) = MAX_PATH_LEN \<and> length (str l) = LEN \<and> (\<forall>r \<in> set (str l). length r = NAME_SIZE)"
    by (simp add: wf_pane_def)
  have d: "ls demo_home ''./'' = Some ?ns" "fits ?ns"
    by (simp_all add: demo_home_def fits_def LEN_def NAME_SIZE_def NUL_def)
  have o: "1 + 1 < length ?ns" "''./x'' = ''./'' @ ?ns ! (1 + 1)" "\<not> opens demo_home ''./x''" "ls demo_home ''./x'' = None"
    "2 + 1 < length ?ns" "''./y'' = ''./'' @ ?ns ! (2 + 1)" "\<not> opens demo_home ''./y''" "ls demo_home ''./y'' = None"
    by (simp_all add: demo_home_def)
  have c: "\<forall>(c, b) \<in> set [(0, True)]. c \<noteq> KEY_TILDE" "\<forall>(c, b) \<in> set [(0, False)]. c \<noteq> KEY_TILDE" by (simp_all add: key_defs)
  have h: "handed demo_home (snd (this_round [(0, True)])) ''./x'' = ([Run ''./x''], [])"
    "handed demo_home (snd (this_round [(0, True)])) ''./y'' = ([], [KEY_TILDE])"
    "handed demo_home (snd (this_round [(0, False)])) ''./x'' = ([], [])"
    by (simp_all add: demo_home_def handed_def this_round_def)
  have k: "replicate 1 KEY_DOWN @ KEY_NL # [] @ [32, KEY_TILDE] = [KEY_DOWN, KEY_NL, 32, KEY_TILDE]"
    "replicate 2 KEY_DOWN @ KEY_NL # [KEY_TILDE] @ [32, KEY_TILDE] = [KEY_DOWN, KEY_DOWN, KEY_NL, KEY_TILDE, 32, KEY_TILDE]"
    "Suc (Suc 0) = 2" "[Run ''./x''] @ [Prompt] = [Run ''./x'', Prompt]" "[] @ [Prompt] = [Prompt]" by (simp_all add: numeral_2_eq_2)
  show ?thesis
    using fm_session [OF l d o(1-4) c(1) h(1), of 0 32] fm_session [OF l d o(5-8) c(1) h(2), of 0 32]
      fm_session [OF l d o(1-4) c(2) h(3), of 0 32]
    unfolding k by blast
qed

section \<open>A terminal that changes its size\<close>

lemma winch_dirs [simp]: "opens (fm_winch sz sy) = opens sy" "ls (fm_winch sz sy) = ls sy" "COLS (fm_winch sz sy) = uint (snd sz)" "LINES (fm_winch sz sy) = uint (fst sz)"
  by (simp_all add: fm_winch_def)

lemma draw_loop_winch: "draw_loop (fm_winch sz sy) sep len hi i names p = draw_loop sy sep len hi i names p"
proof (induction sy sep len hi i names p rule: draw_loop.induct)
  case (1 sy sep len hi i names p)
  show ?case
  proof (cases "i < hi")
    case True
    show ?thesis
      by (subst (1 2) draw_loop.simps) (auto simp: 1 [OF True] cong: Option.bind_cong)
  next
    case False
    then show ?thesis by (simp add: draw_loop.simps)
  qed
qed

lemma keys_winch:
  "key_up (fm_winch sz sy) = key_up sy" "key_down (fm_winch sz sy) = key_down sy" "key_enter (fm_winch sz sy) = key_enter sy"
proof -
  have "draw_loop (fm_winch sz sy) = draw_loop sy" by (intro ext draw_loop_winch)
  moreover from this have "draw_page (fm_winch sz sy) = draw_page sy" by (intro ext) (simp add: draw_page_def)
  moreover have "scandir (fm_winch sz sy) = scandir sy" by (intro ext) (simp add: scandir_def)
  ultimately show "key_up (fm_winch sz sy) = key_up sy" "key_down (fm_winch sz sy) = key_down sy" "key_enter (fm_winch sz sy) = key_enter sy"
    by (intro ext, simp add: key_up_def key_down_def key_enter_def cong: if_cong)+
qed

lemma browse_winch: "KEY_BTAB \<notin> set ks \<Longrightarrow> browse (fm_winch sz sy) c ks s = browse sy c ks s"
proof (induction ks arbitrary: c s)
  case Nil
  show ?case by (simp add: browse.simps)
next
  case (Cons k ks)
  then show ?case
    by (subst (1 2) browse.simps) (simp add: keys_winch eq_commute [of k KEY_BTAB] cong: if_cong Option.bind_cong option.case_cong)
qed

text \<open>The keys of the inner loop one after the other.\<close>

lemma browse_append:
  "browse sy c (ts @ ks) s =
     do { (g, left, s') \<leftarrow> browse sy c ts s;
          (case left of Some r \<Rightarrow> Some (g, Some (r @ ks), s') | None \<Rightarrow> browse sy (last (c # ts)) ks s') }"
proof (induction ts arbitrary: c s)
  case Nil
  show ?case by (cases "c = KEY_TILDE") (simp_all add: browse.simps [of sy _ ks] browse.simps [of sy _ "[]"])
next
  case (Cons t ts)
  note b = browse.simps [of sy c "t # _"]
  define e where "e = last (t # ts)"
  have l: "last (c # t # ts) = e" by (simp add: e_def)
  note IH = Cons.IH [of t, folded e_def]
  consider "c = KEY_TILDE" | "c \<noteq> KEY_TILDE" "t = KEY_BTAB" | "c \<noteq> KEY_TILDE" "t = KEY_UP" | "c \<noteq> KEY_TILDE" "t = KEY_DOWN" |
    "c \<noteq> KEY_TILDE" "t = KEY_NL" | "c \<noteq> KEY_TILDE" "t \<notin> {KEY_BTAB, KEY_UP, KEY_DOWN, KEY_NL}" by auto
  then show ?case
  proof cases
    case 1
    then show ?thesis unfolding l using b by simp
  next
    case 2
    then show ?thesis unfolding l using b IH by (cases "key_btab sy s") simp_all
  next
    case 3
    then show ?thesis unfolding l using b IH by (cases "key_up sy s") (simp_all add: key_defs)
  next
    case 4
    then show ?thesis unfolding l using b IH by (cases "key_down sy s") (simp_all add: key_defs)
  next
    case 5
    show ?thesis
    proof (cases "key_enter sy s")
      case (Some q)
      then show ?thesis unfolding l using 5 b IH by (cases q, cases "fst q") (simp_all add: key_defs)
    qed (use 5 b in \<open>simp add: key_defs\<close>)
  next
    case 6
    then show ?thesis unfolding l using b IH by simp
  qed
qed

text \<open>
  The handler of the window size does not disturb the browsing: as long as the pane is not changed, all keys do the
  same as if the terminal had kept its size.
\<close>

theorem resize_unnoticed:
  assumes "KEY_BTAB \<notin> set (concat (map fst rs) @ ks)"
  shows "browse_resized sy c rs ks s = browse sy c (concat (map fst rs) @ ks) s"
  using assms
proof (induction rs arbitrary: sy c s)
  case Nil
  then show ?case by simp
next
  case (Cons r rs)
  obtain ts sz where r: "r = (ts, sz)" by (cases r)
  have "browse_resized (fm_winch sz sy) d rs ks t = browse sy d (concat (map fst rs) @ ks) t" for d t
    using Cons by (simp add: r browse_winch)
  then show ?case
    by (simp add: r browse_append [of sy c ts] cong: option.case_cong Option.bind_cong)
qed

theorem resize_unnoticed_witness:
  "browse_resized demo_dirs 0 [([KEY_DOWN], 24, 40)] [KEY_UP] demo_fm = browse demo_dirs 0 [KEY_DOWN, KEY_UP] demo_fm"
  using resize_unnoticed [of "[([KEY_DOWN], 24, 40)]" "[KEY_UP]" demo_dirs 0 demo_fm] by (simp add: key_defs)

text \<open>
  The frames of the panes are not made again.  In a window that has become much narrower the key that changes the
  pane puts the cursor to the new middle, which is a place in the left frame still.
\<close>

theorem btab_after_resize:
  assumes "wf_fm s" "side s = 0" "frames s = pane_frames sy" "uint (snd sz) div 2 + 1 < COLS sy div 2"
  shows "\<exists>t. key_btab (fm_winch sz sy) s = Some t \<and> side t = 1 \<and> frames t = frames s \<and> 0 \<le> cols t \<and> cols t < fst (snd (frames t ! 0))"
proof -
  obtain l where l: "aref (panes s) 1 = Some l" "length (panes s) = 2" using assms(1) by (auto simp: wf_fm_def aref_def)
  then show ?thesis using assms(2-4) by (simp add: key_btab_def set_pane_def aset_def pane_frames_def Let_def)
qed

theorem btab_after_resize_witness:
  "\<exists>t. key_btab (fm_winch (24, 40) demo_dirs) demo_fm = Some t \<and> side t = 1 \<and> cols t < fst (snd (frames t ! 0))"
proof -
  have "frames demo_fm = pane_frames demo_dirs" "uint (snd (24 :: 16 word, 40 :: 16 word)) div 2 + 1 < COLS demo_dirs div 2"
    by (simp_all add: demo_fm_def) (simp add: demo_dirs_def)
  from btab_after_resize [OF wf_demo(2,6) this] show ?thesis by blast
qed

end
