(* ===== verification/Transition.thy ===== *)
theory Transition
  imports Prelude
begin

text \<open>
  Transition systems: the reachable states of an initial condition and a step relation, and the
  interface \<open>inductive_invariant\<close> of a property that the initial states have and every step keeps;
  its extension \<open>refinement\<close>, of a system whose steps a specification allows; interleavings of lists.
  The concurrent programs and the servers of the repository are such systems.
\<close>

inductive reach :: "('s \<Rightarrow> bool) \<Rightarrow> ('s \<Rightarrow> 's \<Rightarrow> bool) \<Rightarrow> 's \<Rightarrow> bool" for init step where
  reach_init: "init s \<Longrightarrow> reach init step s"
| reach_step: "reach init step s \<Longrightarrow> step s t \<Longrightarrow> reach init step t"

lemma reach_steps: "step\<^sup>*\<^sup>* s t \<Longrightarrow> reach init step s \<Longrightarrow> reach init step t"
  by (induction rule: rtranclp_induct) (auto intro: reach_step)

text \<open>A run that goes on for ever.\<close>

definition endless :: "('s \<Rightarrow> 's \<Rightarrow> bool) \<Rightarrow> 's \<Rightarrow> bool" where
  "endless step s \<longleftrightarrow> (\<exists>f. f 0 = s \<and> (\<forall>n :: nat. step (f n) (f (Suc n))))"

text \<open>What the threads of a program hold together, when one of them moves.\<close>

lemma mset_concat_update:
  "i < length xs \<Longrightarrow> mset (concat (map f (xs[i := x]))) + mset (f (xs ! i)) = mset (concat (map f xs)) + mset (f x)"
proof (induction xs arbitrary: i)
  case (Cons y ys)
  show ?case
  proof (cases i)
    case 0
    then show ?thesis by (simp add: ac_simps)
  next
    case (Suc j)
    then show ?thesis using Cons by (simp add: add.assoc)
  qed
qed simp

lemma sum_list_update:
  "i < length xs \<Longrightarrow> sum_list (map f (xs[i := x])) + f (xs ! i) = sum_list (map f xs) + (f x :: nat)"
proof (induction xs arbitrary: i)
  case (Cons y ys)
  then show ?case by (cases i) auto
qed simp

locale inductive_invariant =
  fixes init :: "'s \<Rightarrow> bool" and step :: "'s \<Rightarrow> 's \<Rightarrow> bool" and inv :: "'s \<Rightarrow> bool"
  assumes inv_init: "init s \<Longrightarrow> inv s"
    and inv_step: "inv s \<Longrightarrow> step s t \<Longrightarrow> inv t"
begin

lemma always: "reach init step s \<Longrightarrow> inv s"
  by (induction rule: reach.induct) (auto intro: inv_init inv_step)

lemma kept: "step\<^sup>*\<^sup>* s t \<Longrightarrow> inv s \<Longrightarrow> inv t"
  by (induction rule: rtranclp_induct) (auto intro: inv_step)

text \<open>When every step makes a measure smaller, no run goes on for ever, and the system comes to rest.\<close>

lemma ends:
  fixes m :: "'s \<Rightarrow> nat"
  assumes less: "\<And>s t. inv s \<Longrightarrow> step s t \<Longrightarrow> m t < m s" and "inv s"
  shows "\<not> endless step s"
proof
  assume "endless step s"
  then obtain f where f: "f 0 = s" "\<forall>n :: nat. step (f n) (f (Suc n))" by (auto simp: endless_def)
  have i: "inv (f n)" for n using f assms(2) by (induction n) (auto intro: inv_step)
  have "m (f n) + n \<le> m s" for n
  proof (induction n)
    case (Suc n)
    then show ?case using less [OF i spec [OF f(2), of n]] by simp
  qed (simp add: f(1))
  from this [of "Suc (m s)"] show False by simp
qed

lemma rests:
  fixes m :: "'s \<Rightarrow> nat"
  assumes less: "\<And>s t. inv s \<Longrightarrow> step s t \<Longrightarrow> m t < m s" and "inv s"
  shows "\<exists>t. step\<^sup>*\<^sup>* s t \<and> (\<nexists>u. step t u)"
  using assms(2)
proof (induction "m s" arbitrary: s rule: less_induct)
  case less_s: less
  show ?case
  proof (cases "\<exists>u. step s u")
    case True
    then obtain u where u: "step s u" by blast
    from less_s.hyps [OF less [OF less_s.prems u] inv_step [OF less_s.prems u]] obtain t where "step\<^sup>*\<^sup>* u t" "\<nexists>v. step t v" by blast
    then show ?thesis using u by (meson converse_rtranclp_into_rtranclp)
  qed blast
qed

end

text \<open>
  Refinement: every step of the system is, seen through the abstraction, a step of the specification or
  no change.  Then the reachable states of the specification cover those of the system, and its
  invariants hold of them.
\<close>

locale refinement = inductive_invariant init step inv
  for init :: "'s \<Rightarrow> bool" and step :: "'s \<Rightarrow> 's \<Rightarrow> bool" and inv :: "'s \<Rightarrow> bool" +
  fixes abs :: "'s \<Rightarrow> 'a" and ainit :: "'a \<Rightarrow> bool" and astep :: "'a \<Rightarrow> 'a \<Rightarrow> bool"
  assumes abs_init: "init s \<Longrightarrow> ainit (abs s)"
    and abs_step: "inv s \<Longrightarrow> step s t \<Longrightarrow> abs t = abs s \<or> astep (abs s) (abs t)"
begin

lemma simulated: "reach init step s \<Longrightarrow> reach ainit astep (abs s)"
proof (induction rule: reach.induct)
  case (reach_step s t)
  then show ?case using abs_step [OF always [OF reach_step.hyps(1)] reach_step.hyps(2)] by (metis reach.reach_step)
qed (rule reach_init, rule abs_init)

lemma simulated_run: "step\<^sup>*\<^sup>* s t \<Longrightarrow> inv s \<Longrightarrow> astep\<^sup>*\<^sup>* (abs s) (abs t)"
proof (induction rule: rtranclp_induct)
  case (step t u)
  then show ?case using abs_step [OF kept [OF step.hyps(1) step.prems] step.hyps(2)] by (metis rtranclp.rtrancl_into_rtrancl)
qed simp

lemma transfer: "(\<And>a. reach ainit astep a \<Longrightarrow> P a) \<Longrightarrow> reach init step s \<Longrightarrow> P (abs s)"
  by (simp add: simulated)

end

section \<open>Finite systems\<close>

text \<open>
  The states found by following the steps at most \<open>n\<close> times from the states \<open>new\<close>; when the list is closed
  under the steps it holds all reachable states.
\<close>

fun explore :: "('s \<Rightarrow> 's list) \<Rightarrow> nat \<Rightarrow> 's list \<Rightarrow> 's list \<Rightarrow> 's list" where
  "explore nexts 0 seen new = seen"
| "explore nexts (Suc n) seen new =
     (let found = filter (\<lambda>t. t \<notin> set seen) (remdups (concat (map nexts new))) in explore nexts n (seen @ found) found)"

definition closed_under :: "('s \<Rightarrow> 's list) \<Rightarrow> 's list \<Rightarrow> bool" where
  "closed_under nexts ss \<longleftrightarrow> (\<forall>s \<in> set ss. \<forall>t \<in> set (nexts s). t \<in> set ss)"

lemma explore_seen: "s \<in> set seen \<Longrightarrow> s \<in> set (explore nexts n seen new)"
  by (induction n arbitrary: seen new) (auto simp: Let_def)

section \<open>Interleavings\<close>

text \<open>\<open>merge_of xss zs\<close>: \<open>zs\<close> interleaves the lists \<open>xss\<close>, each in its order.\<close>

inductive merge_of :: "'a list list \<Rightarrow> 'a list \<Rightarrow> bool" where
  merge_none: "\<forall>xs \<in> set xss. xs = [] \<Longrightarrow> merge_of xss []"
| merge_more: "merge_of xss zs \<Longrightarrow> k < length xss \<Longrightarrow> merge_of (xss[k := xss ! k @ [z]]) (zs @ [z])"

lemma merge_of_map: "merge_of xss zs \<Longrightarrow> merge_of (map (map f) xss) (map f zs)"
proof (induction rule: merge_of.induct)
  case (merge_more xss zs k z)
  have "map (map f) (xss[k := xss ! k @ [z]]) = (map (map f) xss)[k := map (map f) xss ! k @ [f z]]"
    using merge_more.hyps(2) by (simp add: map_update)
  then show ?case using merge_of.merge_more [OF merge_more.IH, of k "f z"] merge_more.hyps(2) by simp
qed (simp add: merge_none)

lemma merge_of_mset: "merge_of xss zs \<Longrightarrow> mset zs = mset (concat xss)"
proof (induction rule: merge_of.induct)
  case (merge_more xss zs k z)
  have "mset (concat (map (\<lambda>x. x) (xss[k := xss ! k @ [z]]))) + mset (xss ! k) = mset (concat (map (\<lambda>x. x) xss)) + mset (xss ! k @ [z])"
    by (rule mset_concat_update [OF merge_more.hyps(2)])
  then show ?case using merge_more.IH by simp
qed (auto simp: concat_eq_Nil_conv)

end
