(* ===== verification/Shop.thy ===== *)
theory Shop
  imports Transition
begin

text \<open>
  The shop simulation \<open>threads/shop.c\<close>: three threads \<open>shopper\<close>, one thread \<open>delivery\<close>, a mutex per
  shop.  A thread is its program counter; a step of the system is one atomic action of one thread
  (a test of a local variable, a \<open>trylock\<close>, the code under a held mutex, an \<open>unlock\<close>, and the load
  and the store of the unprotected \<open>glob++\<close> separately).  \<open>rand\<close> is any value of its range.
\<close>

section \<open>Data\<close>

definition COUNT_OF_SHOPS :: nat where "COUNT_OF_SHOPS = 4"
definition TOTAL_BASKET :: int where "TOTAL_BASKET = 10000"
definition INT_MAX :: int where "INT_MAX = 2147483647"

text \<open>
  \<open>SWhile\<close>: the test of the outer loop; \<open>STry i\<close>: the loop over the shops at \<open>i\<close>, before \<open>trylock\<close>;
  \<open>SHeld i\<close>: mutex \<open>i\<close> is held, before the test of the stock; \<open>SUnlock i b\<close>: before \<open>unlock\<close>, \<open>b\<close> says
  that \<open>break\<close> follows; \<open>SLoad\<close>, \<open>SStore v\<close>: the two halves of \<open>glob++\<close>.
\<close>

datatype shopper_pc = SWhile | STry nat | SHeld nat | SUnlock nat bool | SLoad | SStore int | SDone

datatype delivery_pc = DWhile | DTry nat | DHeld nat | DUnlock nat | DDone

text \<open>A mutex is free or held by a shopper or by the delivery.\<close>

datatype owner = Free | Shopper nat | Delivery

text \<open>
  \<open>delivered\<close> is the sum of all deliveries so far, which the program prints one by one; \<open>overflow\<close>: a stock has
  left the range of \<open>int\<close>, so that the behaviour is not defined any more.
\<close>

record shop_state =
  mutexes :: "owner list"
  shops :: "int list"
  glob :: int
  shoppers :: "shopper_pc list"
  baskets :: "int list"
  delivery :: delivery_pc
  delivered :: int
  overflow :: bool

section \<open>Steps\<close>

definition goto_s :: "nat \<Rightarrow> shopper_pc \<Rightarrow> shop_state \<Rightarrow> shop_state" where
  "goto_s k pc s = s\<lparr>shoppers := (shoppers s)[k := pc]\<rparr>"

text \<open>
  One action of shopper \<open>k\<close>, with \<open>r\<close> the next value of \<open>rand() % 500\<close>: the body of \<open>shopper\<close>.
\<close>

definition shopper_step :: "nat \<Rightarrow> int \<Rightarrow> shop_state \<Rightarrow> shop_state option" where
  "shopper_step k r s =
     (case shoppers s ! k of
        SWhile \<Rightarrow> Some (goto_s k (if baskets s ! k < TOTAL_BASKET then STry 0 else SLoad) s)
      | STry i \<Rightarrow>
          (if i < COUNT_OF_SHOPS then
             (if mutexes s ! i = Free
              then Some (goto_s k (SHeld i) (s\<lparr>mutexes := (mutexes s)[i := Shopper k]\<rparr>))
              else Some (goto_s k (STry (i + 1)) s))
           else Some (goto_s k SWhile s))
      | SHeld i \<Rightarrow>
          (if shops s ! i \<ge> 500
           then Some (goto_s k (SUnlock i True)
                  (s\<lparr>shops := (shops s)[i := shops s ! i - r],
                     baskets := (baskets s)[k := baskets s ! k + r]\<rparr>))
           else Some (goto_s k (SUnlock i False) s))
      | SUnlock i b \<Rightarrow>
          Some (goto_s k (if b then SWhile else STry (i + 1)) (s\<lparr>mutexes := (mutexes s)[i := Free]\<rparr>))
      | SLoad \<Rightarrow> Some (goto_s k (SStore (glob s)) s)
      | SStore v \<Rightarrow> Some (goto_s k SDone (s\<lparr>glob := v + 1\<rparr>))
      | SDone \<Rightarrow> None)"

text \<open>One action of the delivery, with \<open>r\<close> the next value of \<open>rand() % 1000\<close>.\<close>

definition delivery_step :: "int \<Rightarrow> shop_state \<Rightarrow> shop_state option" where
  "delivery_step r s =
     (case delivery s of
        DWhile \<Rightarrow> Some (s\<lparr>delivery := (if glob s \<noteq> 3 then DTry 0 else DDone)\<rparr>)
      | DTry i \<Rightarrow>
          (if i < COUNT_OF_SHOPS then
             (if mutexes s ! i = Free
              then Some (s\<lparr>mutexes := (mutexes s)[i := Delivery], delivery := DHeld i\<rparr>)
              else Some (s\<lparr>delivery := DTry (i + 1)\<rparr>))
           else Some (s\<lparr>delivery := DWhile\<rparr>))
      | DHeld i \<Rightarrow>
          (if shops s ! i + r \<le> INT_MAX
           then Some (s\<lparr>shops := (shops s)[i := shops s ! i + r], delivery := DUnlock i,
                  delivered := delivered s + r\<rparr>)
           else Some (s\<lparr>overflow := True\<rparr>))
      | DUnlock i \<Rightarrow> Some (s\<lparr>mutexes := (mutexes s)[i := Free], delivery := DWhile\<rparr>)
      | DDone \<Rightarrow> None)"

text \<open>The threads run in any order, as long as the behaviour is defined.\<close>

inductive shop_step :: "shop_state \<Rightarrow> shop_state \<Rightarrow> bool" where
  by_shopper: "\<not> overflow s \<Longrightarrow> k < 3 \<Longrightarrow> 0 \<le> r \<Longrightarrow> r < 500 \<Longrightarrow> shopper_step k r s = Some t \<Longrightarrow> shop_step s t"
| by_delivery: "\<not> overflow s \<Longrightarrow> 0 \<le> r \<Longrightarrow> r < 1000 \<Longrightarrow> delivery_step r s = Some t \<Longrightarrow> shop_step s t"

inductive_cases shop_stepE: "shop_step s t"

text \<open>
  \<open>main\<close> creates the mutexes and the threads; it returns when every thread has ended.
\<close>

definition shop_init :: shop_state where
  "shop_init = \<lparr>mutexes = replicate COUNT_OF_SHOPS Free, shops = replicate COUNT_OF_SHOPS 1000,
     glob = 0, shoppers = replicate 3 SWhile, baskets = replicate 3 0, delivery = DWhile, delivered = 0, overflow = False\<rparr>"

definition shop_joined :: "shop_state \<Rightarrow> bool" where
  "shop_joined s \<longleftrightarrow> (\<forall>k < 3. shoppers s ! k = SDone) \<and> delivery s = DDone"

abbreviation shop_reachable :: "shop_state \<Rightarrow> bool" where
  "shop_reachable \<equiv> reach (\<lambda>s. s = shop_init) shop_step"

section \<open>Invariant\<close>

text \<open>Who holds mutex \<open>i\<close>, read off the program counters.\<close>

fun holds :: "shopper_pc \<Rightarrow> nat \<Rightarrow> bool" where
  "holds (SHeld i) j = (i = j)"
| "holds (SUnlock i b) j = (i = j)"
| "holds _ j = False"

fun holds_d :: "delivery_pc \<Rightarrow> nat \<Rightarrow> bool" where
  "holds_d (DHeld i) j = (i = j)"
| "holds_d (DUnlock i) j = (i = j)"
| "holds_d _ j = False"

fun index_ok :: "shopper_pc \<Rightarrow> bool" where
  "index_ok (SHeld i) = (i < COUNT_OF_SHOPS)"
| "index_ok (SUnlock i b) = (i < COUNT_OF_SHOPS)"
| "index_ok _ = True"

fun index_ok_d :: "delivery_pc \<Rightarrow> bool" where
  "index_ok_d (DHeld i) = (i < COUNT_OF_SHOPS)"
| "index_ok_d (DUnlock i) = (i < COUNT_OF_SHOPS)"
| "index_ok_d _ = True"

text \<open>The sizes of the arrays, and the mutexes against the program counters.\<close>

definition lock_inv :: "shop_state \<Rightarrow> bool" where
  "lock_inv s \<longleftrightarrow> length (mutexes s) = COUNT_OF_SHOPS \<and> length (shops s) = COUNT_OF_SHOPS \<and>
     length (shoppers s) = 3 \<and> length (baskets s) = 3 \<and>
     (\<forall>k < 3. index_ok (shoppers s ! k)) \<and> index_ok_d (delivery s) \<and>
     (\<forall>k < 3. \<forall>i < COUNT_OF_SHOPS. holds (shoppers s ! k) i \<longleftrightarrow> mutexes s ! i = Shopper k) \<and>
     (\<forall>i < COUNT_OF_SHOPS. holds_d (delivery s) i \<longleftrightarrow> mutexes s ! i = Delivery)"

text \<open>What a shopper's basket holds at each point of its program.\<close>

fun basket_ok :: "shopper_pc \<Rightarrow> int \<Rightarrow> bool" where
  "basket_ok (STry i) b = (0 \<le> b \<and> b < TOTAL_BASKET)"
| "basket_ok (SHeld i) b = (0 \<le> b \<and> b < TOTAL_BASKET)"
| "basket_ok (SUnlock i False) b = (0 \<le> b \<and> b < TOTAL_BASKET)"
| "basket_ok (SUnlock i True) b = (0 \<le> b \<and> b < TOTAL_BASKET + 499)"
| "basket_ok SWhile b = (0 \<le> b \<and> b < TOTAL_BASKET + 499)"
| "basket_ok SLoad b = (TOTAL_BASKET \<le> b \<and> b < TOTAL_BASKET + 499)"
| "basket_ok (SStore v) b = (TOTAL_BASKET \<le> b \<and> b < TOTAL_BASKET + 499)"
| "basket_ok SDone b = (TOTAL_BASKET \<le> b \<and> b < TOTAL_BASKET + 499)"

definition stock_inv :: "shop_state \<Rightarrow> bool" where
  "stock_inv s \<longleftrightarrow> length (shops s) = COUNT_OF_SHOPS \<and> length (shoppers s) = 3 \<and> length (baskets s) = 3 \<and>
     (\<forall>i < COUNT_OF_SHOPS. 1 \<le> shops s ! i \<and> shops s ! i \<le> INT_MAX) \<and> (\<forall>k < 3. basket_ok (shoppers s ! k) (baskets s ! k)) \<and>
     sum_list (shops s) + sum_list (baskets s) = 4000 + delivered s \<and>
     (overflow s \<longrightarrow> (\<exists>i < COUNT_OF_SHOPS. delivery s = DHeld i \<and> INT_MAX < shops s ! i + 999))"

text \<open>The number of shoppers that have finished, and how \<open>glob\<close> counts them.\<close>

definition finished :: "shop_state \<Rightarrow> int" where
  "finished s = int (count_list (shoppers s) SDone)"

definition glob_inv :: "shop_state \<Rightarrow> bool" where
  "glob_inv s \<longleftrightarrow> length (shoppers s) = 3 \<and> glob s \<le> finished s \<and>
     (\<forall>k < 3. \<forall>v. shoppers s ! k = SStore v \<longrightarrow> v \<le> finished s) \<and>
     (delivery s = DDone \<longrightarrow> 3 \<le> finished s)"

end
