(* ===== verification/Shop_Correct.thy ===== *)
theory Shop_Correct
  imports Shop
begin

text \<open>
  Correctness of \<open>threads/shop.c\<close>: mutual exclusion, the bounds and the conservation of the goods, the
  order in which the threads end, and the lost update of \<open>glob\<close>.
\<close>

section \<open>The invariants are kept\<close>

text \<open>A move of a thread that holds the same mutexes as before, one that takes and one that gives back.\<close>

lemma lock_same:
  assumes "lock_inv s" "k < 3" "index_ok pc" "\<forall>i. holds pc i = holds (shoppers s ! k) i"
  shows "lock_inv (goto_s k pc s)"
  using assms by (auto simp: goto_s_def lock_inv_def nth_list_update)

lemma lock_take:
  assumes "lock_inv s" "k < 3" "i < COUNT_OF_SHOPS" "mutexes s ! i = Free" "\<forall>j. \<not> holds (shoppers s ! k) j"
  shows "lock_inv (goto_s k (SHeld i) (s\<lparr>mutexes := (mutexes s)[i := Shopper k]\<rparr>))"
  using assms by (auto simp: goto_s_def lock_inv_def nth_list_update)

lemma lock_give:
  assumes "lock_inv s" "k < 3" "holds (shoppers s ! k) i" "i < COUNT_OF_SHOPS" "\<forall>j. \<not> holds pc j" "index_ok pc"
    and "\<forall>j. holds (shoppers s ! k) j \<longrightarrow> j = i"
  shows "lock_inv (goto_s k pc (s\<lparr>mutexes := (mutexes s)[i := Free]\<rparr>))"
proof -
  let ?t = "goto_s k pc (s\<lparr>mutexes := (mutexes s)[i := Free]\<rparr>)"
  have m: "mutexes s ! i = Shopper k" using assms(1-4) by (simp add: lock_inv_def)
  have len: "length (mutexes s) = COUNT_OF_SHOPS" "length (shoppers s) = 3"
    using assms(1) by (simp_all add: lock_inv_def)
  have "holds (shoppers ?t ! ka) j \<longleftrightarrow> mutexes ?t ! j = Shopper ka" if "ka < 3" "j < COUNT_OF_SHOPS" for ka j
  proof (cases "ka = k")
    case True
    have "mutexes s ! j = Shopper k \<longleftrightarrow> holds (shoppers s ! k) j"
      using assms(1,2) that(2) by (simp add: lock_inv_def)
    then show ?thesis using True assms(5,7) that len
      by (cases "j = i") (auto simp: goto_s_def nth_list_update)
  next
    case False
    have "mutexes s ! j = Shopper ka \<longleftrightarrow> holds (shoppers s ! ka) j"
      using assms(1) that by (simp add: lock_inv_def)
    then show ?thesis using False m that len by (cases "j = i") (auto simp: goto_s_def nth_list_update)
  qed
  moreover have "holds_d (delivery ?t) j \<longleftrightarrow> mutexes ?t ! j = Delivery" if "j < COUNT_OF_SHOPS" for j
    using assms(1) that m len by (cases "j = i") (auto simp: goto_s_def lock_inv_def nth_list_update)
  moreover have "\<forall>ka < 3. index_ok (shoppers ?t ! ka)"
    using assms(1,2,6) by (auto simp: goto_s_def lock_inv_def nth_list_update)
  ultimately show ?thesis using assms(1) by (simp add: lock_inv_def) (simp add: goto_s_def)
qed

lemma lock_inv_data [simp]:
  "lock_inv (s\<lparr>glob := g\<rparr>) = lock_inv s"
  "length ss = length (shops s) \<Longrightarrow> length bs = length (baskets s) \<Longrightarrow>
     lock_inv (s\<lparr>shops := ss, baskets := bs\<rparr>) = lock_inv s"
  by (simp_all add: lock_inv_def)

lemma lock_shopper:
  assumes "lock_inv s" "k < 3" "shopper_step k r s = Some t"
  shows "lock_inv t"
proof (cases "shoppers s ! k")
  case (STry i)
  show ?thesis
  proof (cases "i < COUNT_OF_SHOPS \<and> mutexes s ! i = Free")
    case True
    then show ?thesis using assms STry lock_take [OF assms(1,2), of i] by (simp add: shopper_step_def)
  next
    case False
    then show ?thesis using assms STry lock_same [OF assms(1,2)]
      by (auto simp: shopper_step_def split: if_splits)
  qed
next
  case (SHeld i)
  have i: "i < COUNT_OF_SHOPS" using assms(1,2) SHeld by (force simp: lock_inv_def)
  let ?s = "s\<lparr>shops := (shops s)[i := shops s ! i - r], baskets := (baskets s)[k := baskets s ! k + r]\<rparr>"
  have "lock_inv ?s" using assms(1) by simp
  then show ?thesis using assms SHeld i lock_same [OF assms(1,2)] lock_same [of ?s k]
    by (auto simp: shopper_step_def split: if_splits)
next
  case (SUnlock i b)
  have i: "i < COUNT_OF_SHOPS" using assms(1,2) SUnlock by (force simp: lock_inv_def)
  then show ?thesis using assms SUnlock lock_give [OF assms(1,2)] by (auto simp: shopper_step_def)
next
  case (SStore v)
  then show ?thesis using assms lock_same [of "s\<lparr>glob := v + 1\<rparr>" k] by (auto simp: shopper_step_def)
qed (use assms lock_same [OF assms(1,2)] in \<open>auto simp: shopper_step_def\<close>)

lemma lock_delivery:
  assumes "lock_inv s" "delivery_step r s = Some t"
  shows "lock_inv t"
  using assms
  by (cases "delivery s")
    (auto simp: delivery_step_def lock_inv_def nth_list_update split: if_splits)

lemma sum_list_update_int:
  "i < length xs \<Longrightarrow> sum_list (xs[i := v]) = sum_list xs - xs ! i + (v :: int)"
  by (induction xs arbitrary: i) (auto split: nat.splits)

lemma index_of_lock: "lock_inv s \<Longrightarrow> k < 3 \<Longrightarrow> index_ok (shoppers s ! k)"
  by (simp add: lock_inv_def)

lemma stock_shopper:
  assumes "stock_inv s" "lock_inv s" "k < 3" "0 \<le> r" "r < 500" "shopper_step k r s = Some t" "\<not> overflow s"
  shows "stock_inv t"
proof -
  have b: "basket_ok (shoppers s ! k) (baskets s ! k)" "index_ok (shoppers s ! k)"
    using assms(1-3) by (simp_all add: stock_inv_def lock_inv_def)
  show ?thesis
    using assms b by (cases "shoppers s ! k")
      (auto simp: shopper_step_def goto_s_def stock_inv_def nth_list_update sum_list_update_int
        split: if_splits bool.splits)
qed

lemma stock_delivery:
  assumes "stock_inv s" "lock_inv s" "0 \<le> r" "r < 1000" "delivery_step r s = Some t" "\<not> overflow s"
  shows "stock_inv t"
proof -
  have b: "index_ok_d (delivery s)" using assms(2) by (simp add: lock_inv_def)
  show ?thesis
    using assms b by (cases "delivery s")
      (auto simp: delivery_step_def stock_inv_def nth_list_update sum_list_update_int split: if_splits)
qed

lemma count_list_update:
  "k < length xs \<Longrightarrow> xs ! k \<noteq> a \<Longrightarrow> count_list (xs[k := v]) a = count_list xs a + (if v = a then 1 else 0)"
  by (induction xs arbitrary: k) (auto split: nat.splits)

lemma finished_goto:
  "k < length (shoppers s) \<Longrightarrow> shoppers s ! k \<noteq> SDone \<Longrightarrow>
   finished (goto_s k pc s) = finished s + (if pc = SDone then 1 else 0)"
  by (simp add: finished_def goto_s_def count_list_update)

lemma finished_data [simp]: "finished (s\<lparr>mutexes := m\<rparr>) = finished s" "finished (s\<lparr>glob := g\<rparr>) = finished s"
    "finished (s\<lparr>shops := x, baskets := y\<rparr>) = finished s" "finished (s\<lparr>delivery := d\<rparr>) = finished s"
    "finished (s\<lparr>mutexes := m, delivery := d\<rparr>) = finished s"
    "finished (s\<lparr>shops := x, delivery := d, delivered := n\<rparr>) = finished s" "finished (s\<lparr>overflow := b\<rparr>) = finished s"
  by (simp_all add: finished_def)

lemma glob_shopper:
  assumes "glob_inv s" "k < 3" "shopper_step k r s = Some t"
  shows "glob_inv t"
proof -
  have g: "length (shoppers s) = 3" "glob s \<le> finished s"
    "\<forall>j < 3. \<forall>v. shoppers s ! j = SStore v \<longrightarrow> v \<le> finished s" "delivery s = DDone \<longrightarrow> 3 \<le> finished s"
    using assms(1) by (simp_all add: glob_inv_def)
  have goto: "glob_inv (goto_s k pc s')" if "shoppers s' = shoppers s" "delivery s' = delivery s"
    "shoppers s ! k \<noteq> SDone" "finished s' = finished s"
    "glob s' \<le> finished s + (if pc = SDone then 1 else 0)"
    "\<forall>v. pc = SStore v \<longrightarrow> v \<le> finished s" for s' pc
  proof -
    have f: "finished (goto_s k pc s') = finished s + (if pc = SDone then 1 else 0)"
      using that assms(2) g(1) by (subst finished_goto) auto
    have le: "finished s \<le> finished (goto_s k pc s')" by (simp add: f)
    have "v \<le> finished s" if "j < 3" "(shoppers s)[k := pc] ! j = SStore v" for j v
      using that g(1,3) \<open>\<forall>v. pc = SStore v \<longrightarrow> v \<le> finished s\<close> assms(2)
      by (cases "j = k") (auto simp: nth_list_update)
    then have "\<forall>j < 3. \<forall>v. shoppers (goto_s k pc s') ! j = SStore v \<longrightarrow> v \<le> finished (goto_s k pc s')"
      using that(1) le by (auto simp: goto_s_def intro: order_trans)
    moreover have "length (shoppers (goto_s k pc s')) = 3" "delivery (goto_s k pc s') = delivery s"
      "glob (goto_s k pc s') \<le> finished (goto_s k pc s')"
      using that(1,2,5) g(1) f by (simp_all add: goto_s_def)
    moreover have "delivery s = DDone \<longrightarrow> 3 \<le> finished (goto_s k pc s')" using g(4) le by auto
    ultimately show ?thesis by (simp add: glob_inv_def)
  qed
  have "glob s \<le> finished s + 1" using g(2) by simp
  then show ?thesis using assms(2,3) g
    by (cases "shoppers s ! k") (auto simp: shopper_step_def intro!: goto split: if_splits)
qed

lemma glob_delivery:
  assumes "glob_inv s" "delivery_step r s = Some t"
  shows "glob_inv t"
  using assms
  by (cases "delivery s") (auto simp: delivery_step_def glob_inv_def split: if_splits)

definition shop_inv :: "shop_state \<Rightarrow> bool" where
  "shop_inv s \<longleftrightarrow> lock_inv s \<and> stock_inv s \<and> glob_inv s"

lemma less_3: "(k :: nat) < 3 \<longleftrightarrow> k = 0 \<or> k = 1 \<or> k = 2"
  by auto

lemma shop_inv_init: "shop_inv shop_init"
  by (auto simp: shop_inv_def shop_init_def lock_inv_def stock_inv_def glob_inv_def COUNT_OF_SHOPS_def
    TOTAL_BASKET_def INT_MAX_def less_3 finished_def numeral_eq_Suc All_less_Suc)

lemma shop_inv_step: "shop_inv s \<Longrightarrow> shop_step s t \<Longrightarrow> shop_inv t"
  by (erule shop_stepE) (auto simp: shop_inv_def intro: lock_shopper lock_delivery stock_shopper
    stock_delivery glob_shopper glob_delivery)

interpretation shop_sys: inductive_invariant "\<lambda>s. s = shop_init" shop_step shop_inv
  by unfold_locales (simp_all add: shop_inv_init shop_inv_step)

section \<open>A run in which an increment is lost\<close>

abbreviation shop_steps :: "shop_state \<Rightarrow> shop_state \<Rightarrow> bool" where
  "shop_steps \<equiv> shop_step\<^sup>*\<^sup>*"

text \<open>Running a schedule: the thread to run (3 is the delivery) and its random number.\<close>

fun run_schedule :: "(nat \<times> int) list \<Rightarrow> shop_state \<Rightarrow> shop_state option" where
  "run_schedule [] s = Some s"
| "run_schedule ((k, r) # ts) s =
     (if overflow s then None else do { t \<leftarrow> (if k < 3 then shopper_step k r s else delivery_step r s); run_schedule ts t })"

lemma run_schedule_steps:
  "run_schedule ts s = Some t \<Longrightarrow> \<forall>(k, r) \<in> set ts. 0 \<le> r \<and> r < (if k < 3 then 500 else 1000) \<Longrightarrow> shop_steps s t"
proof (induction ts s rule: run_schedule.induct)
  case (2 k r ts s)
  then obtain u where u: "(if k < 3 then shopper_step k r s else delivery_step r s) = Some u"
    "run_schedule ts u = Some t" "\<not> overflow s" by (auto simp: bind_eq_Some_conv' split: if_splits)
  have "shop_step s u" using u(1,3) "2.prems"(2) by (auto intro: by_shopper by_delivery split: if_splits)
  then show ?case using "2.IH" [OF u(3,1,2)] "2.prems"(2) by (auto intro: converse_rtranclp_into_rtranclp)
qed simp

text \<open>A state in which no mutex is held and the delivery and shopper \<open>k\<close> are at the start of their loops.\<close>

definition idle :: "nat \<Rightarrow> shop_state \<Rightarrow> bool" where
  "idle k s \<longleftrightarrow> mutexes s = replicate 4 Free \<and> length (shops s) = 4 \<and> 1 \<le> shops s ! 0 \<and>
     length (shoppers s) = 3 \<and> length (baskets s) = 3 \<and> delivery s = DWhile \<and> glob s = 0 \<and>
     shoppers s ! k = SWhile \<and> \<not> overflow s"

lemma one_delivery:
  assumes "idle k s" "shops s ! 0 + 999 \<le> INT_MAX"
  shows "shop_steps s (s\<lparr>shops := (shops s)[0 := shops s ! 0 + 999], delivered := delivered s + 999\<rparr>)"
proof -
  have s: "mutexes s = [Free, Free, Free, Free]" "length (shops s) = 4" "delivery s = DWhile" "glob s = 0" "\<not> overflow s"
    using assms(1) by (simp_all add: idle_def numeral_eq_Suc)
  show ?thesis
    by (rule run_schedule_steps [of "[(3, 0), (3, 0), (3, 999), (3, 0)]"])
      (use s assms(2) in \<open>cases s, simp_all add: delivery_step_def COUNT_OF_SHOPS_def\<close>)
qed

lemma one_take:
  assumes "idle k s" "k < 3" "500 \<le> shops s ! 0" "baskets s ! k < TOTAL_BASKET"
  shows "shop_steps s (s\<lparr>shops := (shops s)[0 := shops s ! 0 - 499],
     baskets := (baskets s)[k := baskets s ! k + 499]\<rparr>)"
proof -
  have s: "mutexes s = [Free, Free, Free, Free]" "length (shops s) = 4" "length (shoppers s) = 3"
    "length (baskets s) = 3" "shoppers s ! k = SWhile" "glob s = 0" "\<not> overflow s"
    using assms(1) by (simp_all add: idle_def numeral_eq_Suc)
  have u: "(shoppers s)[k := SWhile] = shoppers s" using s(5) by (metis list_update_id)
  show ?thesis
    by (rule run_schedule_steps [of "[(k, 0), (k, 0), (k, 499), (k, 0)]"])
      (use s u assms(2-4) in \<open>cases s, simp_all add: shopper_step_def goto_s_def COUNT_OF_SHOPS_def\<close>)
qed

text \<open>One shopper fills its basket: 21 times a delivery to the first shop, then a purchase of 499 there.\<close>

lemma one_round:
  assumes "idle k s" "k < 3" "baskets s ! k < TOTAL_BASKET" "shops s ! 0 + 999 \<le> INT_MAX"
  obtains t where "shop_steps s t" "idle k t" "shoppers t = shoppers s"
    "baskets t = (baskets s)[k := baskets s ! k + 499]" "shops t ! 0 = shops s ! 0 + 500"
proof -
  let ?s1 = "s\<lparr>shops := (shops s)[0 := shops s ! 0 + 999], delivered := delivered s + 999\<rparr>"
  let ?s2 = "?s1\<lparr>shops := (shops ?s1)[0 := shops ?s1 ! 0 - 499],
    baskets := (baskets ?s1)[k := baskets ?s1 ! k + 499]\<rparr>"
  have s1: "idle k ?s1" "500 \<le> shops ?s1 ! 0" "baskets ?s1 ! k < TOTAL_BASKET"
    using assms by (auto simp: idle_def)
  show ?thesis
  proof (rule that [of ?s2])
    show "shop_steps s ?s2"
      by (rule rtranclp_trans [OF one_delivery [OF assms(1,4)] one_take [OF s1(1) assms(2) s1(2,3)]])
    show "idle k ?s2" using s1 by (auto simp: idle_def)
    show "shops ?s2 ! 0 = shops s ! 0 + 500" using assms(1) by (simp add: idle_def)
  qed simp_all
qed

lemma takes:
  assumes "idle k s" "k < 3" "baskets s ! k + 499 * int n < TOTAL_BASKET" "shops s ! 0 + 500 * int n + 999 \<le> INT_MAX"
  shows "\<exists>t. shop_steps s t \<and> idle k t \<and> shoppers t = shoppers s \<and>
    baskets t = (baskets s)[k := baskets s ! k + 499 * int (Suc n)] \<and> shops t ! 0 = shops s ! 0 + 500 * int (Suc n)"
  using assms
proof (induction n arbitrary: s)
  case 0
  have "baskets s ! k < TOTAL_BASKET" "shops s ! 0 + 999 \<le> INT_MAX" using "0.prems"(3,4) by simp_all
  from one_round [OF "0.prems"(1,2) this] show ?case by auto
next
  case (Suc n)
  obtain t where t: "shop_steps s t" "idle k t" "shoppers t = shoppers s"
    "baskets t = (baskets s)[k := baskets s ! k + 499 * int (Suc n)]" "shops t ! 0 = shops s ! 0 + 500 * int (Suc n)"
    using Suc.IH [OF Suc.prems(1,2)] Suc.prems(3,4) by auto
  have len: "length (baskets s) = 3" using Suc.prems(1) by (simp add: idle_def)
  have "baskets t ! k < TOTAL_BASKET" "shops t ! 0 + 999 \<le> INT_MAX" using t(4,5) Suc.prems(2-4) len by simp_all
  then obtain u where u: "shop_steps t u" "idle k u" "shoppers u = shoppers t"
    "baskets u = (baskets t)[k := baskets t ! k + 499]" "shops u ! 0 = shops t ! 0 + 500"
    by (rule one_round [OF t(2) Suc.prems(2)])
  have "baskets u = (baskets s)[k := baskets s ! k + 499 * int (Suc (Suc n))]"
    using u(4) t(4) Suc.prems(2) len by (simp add: add.commute add.left_commute)
  then show ?case using rtranclp_trans [OF t(1) u(1)] u(2,3,5) t(3,5) by (intro exI [of _ u]) simp
qed

lemma fill_basket:
  assumes "idle k s" "k < 3" "baskets s ! k = 0" "shops s ! 0 \<le> 1000000"
  shows "\<exists>t. shop_steps s t \<and> shoppers t = (shoppers s)[k := SLoad] \<and> baskets t = (baskets s)[k := 10479] \<and>
    mutexes t = mutexes s \<and> length (shops t) = 4 \<and> 1 \<le> shops t ! 0 \<and> delivery t = DWhile \<and> glob t = 0 \<and>
    \<not> overflow t \<and> shops t ! 0 = shops s ! 0 + 10500"
proof -
  have "baskets s ! k + 499 * int 20 < TOTAL_BASKET" "shops s ! 0 + 500 * int 20 + 999 \<le> INT_MAX"
    using assms(3,4) by (simp_all add: TOTAL_BASKET_def INT_MAX_def)
  from takes [OF assms(1,2) this] obtain t where t: "shop_steps s t" "idle k t" "shoppers t = shoppers s"
    "baskets t = (baskets s)[k := 10479]" "shops t ! 0 = shops s ! 0 + 10500" using assms(3) by auto
  have len: "length (baskets s) = 3" "mutexes s = mutexes t" using assms(1) t(2) by (simp_all add: idle_def)
  have "shop_steps t (goto_s k SLoad t)"
    by (rule run_schedule_steps [of "[(k, 0)]"])
      (use t(2,4) len assms(2) in \<open>simp_all add: shopper_step_def idle_def TOTAL_BASKET_def\<close>)
  with t(1) have "shop_steps s (goto_s k SLoad t)" by (rule rtranclp_trans)
  then show ?thesis
    by (rule exI [of _ "goto_s k SLoad t", OF conjI]) (use t(2-5) len(2) in \<open>auto simp: goto_s_def idle_def\<close>)
qed

text \<open>States from which the delivery never stops: every shopper has ended and \<open>glob\<close> is not 3.\<close>

definition stuck :: "shop_state \<Rightarrow> bool" where
  "stuck s \<longleftrightarrow> length (shoppers s) = 3 \<and> (\<forall>k < 3. shoppers s ! k = SDone) \<and> glob s \<noteq> 3 \<and> delivery s \<noteq> DDone"

lemma stuck_step: "stuck s \<Longrightarrow> shop_step s t \<Longrightarrow> stuck t"
proof (erule shop_stepE)
  fix k r assume "stuck s" "k < 3" "shopper_step k r s = Some t"
  then show "stuck t" by (auto simp: stuck_def shopper_step_def)
next
  fix r assume "stuck s" "delivery_step r s = Some t"
  then show "stuck t" by (cases "delivery s") (auto simp: stuck_def delivery_step_def split: if_splits)
qed

interpretation stuck_sys: inductive_invariant stuck shop_step stuck
  by unfold_locales (simp_all add: stuck_step)

lemma all_full:
  "\<exists>s. shop_steps shop_init s \<and> shoppers s = [SLoad, SLoad, SLoad] \<and> delivery s = DWhile \<and> glob s = 0 \<and> \<not> overflow s"
proof -
  have i0: "idle 0 shop_init" "baskets shop_init ! 0 = 0" "(0::nat) < 3" "shops shop_init ! 0 \<le> 1000000"
    by (simp_all add: idle_def shop_init_def COUNT_OF_SHOPS_def)
  obtain s1 where s1: "shop_steps shop_init s1" "shoppers s1 = [SLoad, SWhile, SWhile]"
    "baskets s1 = [10479, 0, 0]" "mutexes s1 = replicate 4 Free" "length (shops s1) = 4"
    "1 \<le> shops s1 ! 0" "delivery s1 = DWhile" "glob s1 = 0" "\<not> overflow s1" "shops s1 ! 0 = 11500"
    using fill_basket [OF i0(1,3,2,4)] by (auto simp: shop_init_def COUNT_OF_SHOPS_def numeral_3_eq_3)
  have i1: "idle 1 s1" "baskets s1 ! 1 = 0" "(1::nat) < 3" "shops s1 ! 0 \<le> 1000000" using s1 by (simp_all add: idle_def)
  obtain s2 where s2: "shop_steps s1 s2" "shoppers s2 = [SLoad, SLoad, SWhile]"
    "baskets s2 = [10479, 10479, 0]" "mutexes s2 = replicate 4 Free" "length (shops s2) = 4"
    "1 \<le> shops s2 ! 0" "delivery s2 = DWhile" "glob s2 = 0" "\<not> overflow s2" "shops s2 ! 0 = 22000"
    using fill_basket [OF i1(1,3,2,4)] s1 by auto
  have i2: "idle 2 s2" "baskets s2 ! 2 = 0" "(2::nat) < 3" "shops s2 ! 0 \<le> 1000000" using s2 by (simp_all add: idle_def)
  obtain s3 where s3: "shop_steps s2 s3" "shoppers s3 = [SLoad, SLoad, SLoad]"
    "delivery s3 = DWhile" "glob s3 = 0" "\<not> overflow s3"
    using fill_basket [OF i2(1,3,2,4)] s2 by (auto simp: numeral_2_eq_2)
  have "shop_steps shop_init s3" using s1(1) s2(1) s3(1) by (meson rtranclp_trans)
  then show ?thesis using s3(2-5) by blast
qed

lemma lost_run: "\<exists>s. shop_steps shop_init s \<and> stuck s \<and> glob s = 2"
proof -
  obtain s where s: "shop_steps shop_init s" "shoppers s = [SLoad, SLoad, SLoad]" "delivery s = DWhile" "glob s = 0" "\<not> overflow s"
    using all_full by blast
  define t where "t = s\<lparr>shoppers := [SDone, SDone, SDone], glob := 2\<rparr>"
  have "shop_steps s t"
    by (rule run_schedule_steps [of "[(0, 0), (1, 0), (0, 0), (1, 0), (2, 0), (2, 0)]"])
      (use s(2,4,5) in \<open>cases s, simp_all add: shopper_step_def goto_s_def t_def numeral_2_eq_2\<close>)
  moreover have "stuck t" "glob t = 2" using s(3) by (auto simp: stuck_def t_def less_3)
  ultimately show ?thesis using s(1) by (meson rtranclp_trans)
qed

section \<open>Properties of the program\<close>

text \<open>
  C3. A mutex protects its shop: in every reachable state at most one thread is between the
  \<open>trylock\<close> and the \<open>unlock\<close> of a shop.
\<close>

theorem shop_mutual_exclusion:
  assumes "shop_reachable s" "i < COUNT_OF_SHOPS" "k < 3" "holds (shoppers s ! k) i"
  shows "\<not> holds_d (delivery s) i \<and> (\<forall>j < 3. holds (shoppers s ! j) i \<longrightarrow> j = k)"
proof -
  have "lock_inv s" using shop_sys.always [OF assms(1)] by (simp add: shop_inv_def)
  then have "\<forall>j < 3. holds (shoppers s ! j) i \<longleftrightarrow> mutexes s ! i = Shopper j"
    "holds_d (delivery s) i \<longleftrightarrow> mutexes s ! i = Delivery"
    using assms(2) by (simp_all add: lock_inv_def)
  then show ?thesis using assms(3,4) by auto
qed

text \<open>
  C4. No shop runs out and nothing is lost, as long as the behaviour is defined: every stock stays positive and in the range
  of \<open>int\<close>, every basket is at most 498 over its goal, and the goods in the shops and the baskets are the
  initial 4000 and the deliveries.  The behaviour is defined until a delivery comes to a shop that has not even
  999 places left in the range.
\<close>

theorem shop_stock_conserved:
  assumes "shop_reachable s"
  shows "(\<forall>i < COUNT_OF_SHOPS. 1 \<le> shops s ! i \<and> shops s ! i \<le> INT_MAX) \<and>
    (\<forall>k < 3. 0 \<le> baskets s ! k \<and> baskets s ! k < TOTAL_BASKET + 499) \<and>
    sum_list (shops s) + sum_list (baskets s) = 4000 + delivered s \<and>
    (overflow s \<longrightarrow> (\<exists>i < COUNT_OF_SHOPS. delivery s = DHeld i \<and> INT_MAX < shops s ! i + 999))"
proof -
  have s: "stock_inv s" using shop_sys.always [OF assms] by (simp add: shop_inv_def)
  have "0 \<le> b \<and> b < TOTAL_BASKET + 499" if "basket_ok pc b" for pc b
    using that by (cases "(pc, b)" rule: basket_ok.cases) (auto simp: TOTAL_BASKET_def)
  with s show ?thesis by (auto simp: stock_inv_def)
qed

text \<open>
  The delivery ends last: when its thread has ended, every shopper has ended too and has a full
  basket.
\<close>

theorem delivery_ends_last:
  assumes "shop_reachable s" "delivery s = DDone" "k < 3"
  shows "shoppers s ! k = SDone \<and> TOTAL_BASKET \<le> baskets s ! k"
proof -
  have s: "glob_inv s" "stock_inv s" using shop_sys.always [OF assms(1)] by (simp_all add: shop_inv_def)
  then have n: "length (shoppers s) \<le> count_list (shoppers s) SDone" "length (shoppers s) = 3"
    using assms(2) by (simp_all add: glob_inv_def finished_def)
  have "length xs \<le> count_list xs a \<Longrightarrow> x \<in> set xs \<Longrightarrow> x = a" for xs :: "shopper_pc list" and x a
  proof (induction xs)
    case (Cons y ys)
    then show ?case using count_le_length [of ys a] by (auto split: if_splits)
  qed simp
  then have "shoppers s ! k = SDone" using n assms(3) by (metis nth_mem)
  moreover have "basket_ok (shoppers s ! k) (baskets s ! k)" using s(2) assms(3) by (simp add: stock_inv_def)
  ultimately show ?thesis by simp
qed

text \<open>
  C35. The increments of \<open>glob\<close> are not protected: there is a run in which every shopper fills its
  basket and ends, but one increment is lost, and from then on the delivery never ends and \<open>main\<close>
  never returns, whatever the threads do (the delivery goes on until a stock overflows).
\<close>

theorem shop_lost_update:
  "\<exists>s. shop_reachable s \<and> shoppers s = [SDone, SDone, SDone] \<and> glob s = 2 \<and>
     (\<nexists>t. shop_steps s t \<and> (delivery t = DDone \<or> shop_joined t))"
proof -
  obtain s where s: "shop_steps shop_init s" "stuck s" "glob s = 2" using lost_run by blast
  have "shop_reachable s" by (rule reach_steps [OF s(1)]) (simp add: reach_init)
  moreover have "stuck t" if "shop_steps s t" for t using stuck_sys.kept [OF that s(2)] .
  moreover have "shoppers s = [SDone, SDone, SDone]"
    using s(2) by (intro nth_equalityI) (auto simp: stuck_def less_Suc_eq numeral_3_eq_3)
  ultimately show ?thesis using s(3) by (auto simp: stuck_def shop_joined_def)
qed

text \<open>Instances at the initial state.\<close>

theorem shop_mutual_exclusion_witness:
  "\<exists>s. shop_reachable s \<and> holds (shoppers s ! 0) 0 \<and> \<not> holds_d (delivery s) 0"
proof -
  let ?s = "goto_s 0 (SHeld 0) (shop_init\<lparr>mutexes := [Shopper 0, Free, Free, Free]\<rparr>)"
  have "shop_steps shop_init ?s"
    by (rule run_schedule_steps [of "[(0, 0), (0, 0)]"])
      (simp_all add: shopper_step_def shop_init_def goto_s_def TOTAL_BASKET_def COUNT_OF_SHOPS_def numeral_eq_Suc)
  then have r: "shop_reachable ?s" by (rule reach_steps) (simp add: reach_init)
  have h: "holds (shoppers ?s ! 0) 0" by (simp add: goto_s_def shop_init_def)
  show ?thesis using shop_mutual_exclusion [OF r _ _ h] r h by (auto simp: COUNT_OF_SHOPS_def)
qed

theorem shop_stock_conserved_witness:
  "\<exists>s. shop_reachable s \<and> shops s = [1100, 1000, 1000, 1000] \<and> baskets s = [0, 400, 0] \<and> delivered s = 500 \<and>
     sum_list (shops s) + sum_list (baskets s) = 4000 + delivered s"
proof -
  let ?ts = "[(1, 0), (1, 0), (1, 400), (1, 0), (3, 0), (3, 0), (3, 500)]"
  obtain s where s: "run_schedule ?ts shop_init = Some s" "shops s = [1100, 1000, 1000, 1000]" "baskets s = [0, 400, 0]" "delivered s = 500"
    by (simp add: shopper_step_def delivery_step_def shop_init_def goto_s_def TOTAL_BASKET_def COUNT_OF_SHOPS_def INT_MAX_def numeral_eq_Suc)
  have "shop_steps shop_init s" by (rule run_schedule_steps [OF s(1)]) simp
  then have r: "shop_reachable s" by (rule reach_steps) (simp add: reach_init)
  show ?thesis using shop_stock_conserved [OF r] r s(2-4) by blast
qed

theorem delivery_ends_last_witness:
  "\<exists>s. shop_reachable s \<and> delivery s = DDone \<and> shoppers s ! 0 = SDone \<and> TOTAL_BASKET \<le> baskets s ! 0"
proof -
  obtain s where s: "shop_steps shop_init s" "shoppers s = [SLoad, SLoad, SLoad]" "delivery s = DWhile" "glob s = 0" "\<not> overflow s"
    using all_full by blast
  define t where "t = s\<lparr>shoppers := [SDone, SDone, SDone], glob := 3, delivery := DDone\<rparr>"
  have "shop_steps s t"
    by (rule run_schedule_steps [of "[(0, 0), (0, 0), (1, 0), (1, 0), (2, 0), (2, 0), (3, 0)]"])
      (use s(2-5) in \<open>cases s, simp_all add: shopper_step_def delivery_step_def goto_s_def t_def numeral_2_eq_2\<close>)
  with s(1) have "shop_steps shop_init t" by (rule rtranclp_trans)
  then have r: "shop_reachable t" by (rule reach_steps) (simp add: reach_init)
  have d: "delivery t = DDone" by (simp add: t_def)
  show ?thesis using delivery_ends_last [OF r d, of 0] r d by auto
qed

end
