(* ===== verification/Numbers.thy ===== *)
theory Numbers
  imports Console
begin

text \<open>
  C \<open>int\<close> arithmetic and decimal input: an operation of type \<open>int\<close> has a result only when it fits in
  32 bits (signed overflow is undefined), and the conversion \<open>%d\<close> of \<open>scanf\<close>, which reads back what
  \<open>%d\<close> of \<open>printf\<close> writes.
\<close>

section \<open>Signed arithmetic\<close>

definition int32 :: "int \<Rightarrow> int option" where
  "int32 v = (if - (2 ^ 31) \<le> v \<and> v < 2 ^ 31 then Some v else None)"

abbreviation fits32 :: "int \<Rightarrow> bool" where
  "fits32 v \<equiv> - (2 ^ 31) \<le> v \<and> v < 2 ^ 31"

text \<open>Division truncates towards zero.\<close>

definition quot :: "int \<Rightarrow> int \<Rightarrow> int" where
  "quot x y = sgn x * sgn y * (\<bar>x\<bar> div \<bar>y\<bar>)"

lemma quot_mult: "y \<noteq> 0 \<Longrightarrow> \<exists>r. x = quot x y * y + r \<and> \<bar>r\<bar> < \<bar>y\<bar> \<and> (r = 0 \<or> sgn r = sgn x)"
proof -
  assume y: "y \<noteq> 0"
  define m where "m = \<bar>x\<bar> mod \<bar>y\<bar>"
  have m: "0 \<le> m" "m < \<bar>y\<bar>" using y by (simp_all add: m_def)
  have d: "\<bar>x\<bar> = \<bar>y\<bar> * (\<bar>x\<bar> div \<bar>y\<bar>) + m" by (simp only: m_def mult_div_mod_eq)
  have "quot x y * y = sgn x * (\<bar>y\<bar> * (\<bar>x\<bar> div \<bar>y\<bar>))"
    by (simp add: quot_def abs_sgn mult_ac)
  moreover have "sgn x * \<bar>x\<bar> = x" by (metis mult.commute mult_sgn_abs)
  ultimately have "x = quot x y * y + sgn x * m" using d by (metis distrib_left)
  moreover have "\<bar>sgn x * m\<bar> < \<bar>y\<bar>" using m y by (cases "x = 0") (simp_all add: abs_mult)
  moreover have "sgn x * m = 0 \<or> sgn (sgn x * m) = sgn x" using m(1) by (cases "m = 0") (simp_all add: sgn_mult)
  ultimately show ?thesis by blast
qed

section \<open>Reading and writing decimal numbers\<close>

text \<open>
  \<open>scanf("%d", &x)\<close> where \<open>x\<close> holds \<open>cur\<close>: white space is skipped, a sign and digits are read; without
  digits nothing is stored.  A number that does not fit in an \<open>int\<close> is undefined.
\<close>

definition scanf_d :: "int \<Rightarrow> string \<Rightarrow> (int \<times> int \<times> string) option" where
  "scanf_d cur inp =
     (let s = dropWhile isspace inp in
      if s = [] then Some (-1, cur, [])
      else
        let neg = (hd s = CHR ''-'');
            u = (if hd s = CHR ''-'' \<or> hd s = CHR ''+'' then tl s else s);
            ds = takeWhile isdigit u
        in if ds = [] then Some (0, cur, u)
           else do { v \<leftarrow> int32 (if neg then - int (digits_val ds) else int (digits_val ds));
                     Some (1, v, dropWhile isdigit u) })"

text \<open>\<open>scanf("%d %d", &x, &y)\<close>.\<close>

definition scanf_dd :: "int \<Rightarrow> int \<Rightarrow> string \<Rightarrow> (int \<times> int \<times> string) option" where
  "scanf_dd x y inp =
     do { (r, x', rest) \<leftarrow> scanf_d x inp;
          if r = 1 then do { (_, y', rest') \<leftarrow> scanf_d y rest; Some (x', y', rest') }
          else Some (x', y, rest) }"

lemma digits_val_append: "digits_val (s @ [c]) = 10 * digits_val s + (of_char c - 48)"
  by (simp add: digits_val_def)

lemma digit_char: "d < 10 \<Longrightarrow> of_char (char_of (48 + d) :: char) = 48 + (d :: nat)"
  by (simp add: of_char_of)

lemma show_nat_digits: "digits_val (show_nat n) = n \<and> (\<forall>c \<in> set (show_nat n). isdigit c) \<and> show_nat n \<noteq> []"
proof (induction n rule: show_nat.induct)
  case (1 n)
  show ?case
  proof (cases "n < 10")
    case True
    then show ?thesis
      by (subst (1 2 3) show_nat.simps) (simp add: digits_val_def digit_char isdigit_def)
  next
    case False
    have m: "n mod 10 < 10" by simp
    have "digits_val (show_nat n) = n"
      using False 1 by (subst show_nat.simps) (simp add: digits_val_append digit_char [OF m])
    moreover have "\<forall>c \<in> set (show_nat n). isdigit c"
      using False 1 by (subst show_nat.simps) (auto simp: isdigit_def digit_char [OF m])
    moreover have "show_nat n \<noteq> []" using False by (subst show_nat.simps) simp
    ultimately show ?thesis by blast
  qed
qed

lemma digit_not_space: "isdigit c \<Longrightarrow> \<not> isspace c \<and> c \<noteq> NUL \<and> c \<noteq> CHR ''-'' \<and> c \<noteq> CHR ''+''"
  by (auto simp: isdigit_def isspace_def NUL_def)

lemma space_not_digit: "isspace c \<Longrightarrow> \<not> isdigit c"
  using digit_not_space by blast

text \<open>What \<open>%d\<close> wrote, \<open>%d\<close> reads.\<close>

lemma scanf_show:
  assumes "\<forall>c \<in> set pre. isspace c" "fits32 v" "isspace d"
  shows "scanf_d cur (pre @ show_int v @ d # rest) = Some (1, v, d # rest)"
proof -
  let ?n = "nat \<bar>v\<bar>"
  have n: "digits_val (show_nat ?n) = ?n" "\<forall>c \<in> set (show_nat ?n). isdigit c" "show_nat ?n \<noteq> []"
    using show_nat_digits [of ?n] by simp_all
  obtain c ds where cs: "show_nat ?n = c # ds" using n(3) by (cases "show_nat ?n") auto
  have c: "\<not> isspace c" "c \<noteq> CHR ''-''" "c \<noteq> CHR ''+''" using n(2) cs digit_not_space [of c] by auto
  have nd: "\<not> isdigit d" using assms(3) space_not_digit by blast
  have tk: "takeWhile isdigit (show_nat ?n @ d # rest) = show_nat ?n"
    "dropWhile isdigit (show_nat ?n @ d # rest) = d # rest"
    using n(2) nd by (simp_all add: takeWhile_append dropWhile_append)
  have dw: "dropWhile isspace (pre @ x # xs) = x # xs" if "\<not> isspace x" for x xs
    using assms(1) that by (simp add: dropWhile_append)
  show ?thesis
  proof (cases "v < 0")
    case True
    then have "show_int v = CHR ''-'' # show_nat ?n" by (simp add: show_int_def)
    moreover have "\<not> isspace (CHR ''-'')" by (simp add: isspace_def)
    ultimately show ?thesis
      using True assms(2) n(1,3) tk by (simp add: scanf_d_def dw int32_def Let_def)
  next
    case False
    then have "show_int v = show_nat ?n" by (simp add: show_int_def)
    moreover have "dropWhile isspace (pre @ show_nat ?n @ d # rest) = show_nat ?n @ d # rest"
      using dw [of c] c(1) by (simp add: cs)
    moreover have "hd (show_nat ?n) = c" by (simp add: cs)
    ultimately show ?thesis
      using False assms(2) n(1,3) tk c by (simp add: scanf_d_def int32_def Let_def)
  qed
qed

lemma scanf_show_at:
  assumes "at_input inp (type_in (show_int v # ts) @ rest)" "fits32 v"
  shows "scanf_d cur inp = Some (1, v, NL # type_in ts @ rest)"
  using assms scanf_show [of _ v NL cur "type_in ts @ rest"] by (auto simp: at_input_def type_in_Cons)

lemma scanf_dd_at:
  assumes "at_input inp (type_in (show_int v # show_int w # ts) @ rest)" "fits32 v" "fits32 w"
  shows "scanf_dd x y inp = Some (v, w, NL # type_in ts @ rest)"
  using scanf_show_at [OF assms(1,2)] scanf_show_at [OF at_input_NL assms(3)]
  by (simp add: scanf_dd_def)

text \<open>\<open>atoi\<close> reads what \<open>%d\<close> wrote.\<close>

lemma atoi_show:
  assumes "NUL \<in> set b" "cstr b = show_int v" "0 \<le> v" "fits32 v"
  shows "atoi b = Some v"
proof -
  let ?n = "nat v"
  have s: "show_int v = show_nat ?n" using assms(3) by (simp add: show_int_def)
  have n: "digits_val (show_nat ?n) = ?n" "\<forall>c \<in> set (show_nat ?n). isdigit c" "show_nat ?n \<noteq> []"
    using show_nat_digits [of ?n] by simp_all
  obtain c ds where cs: "show_nat ?n = c # ds" using n(3) by (cases "show_nat ?n") auto
  have c: "\<not> isspace c" "c \<noteq> CHR ''-''" "c \<noteq> CHR ''+''" using n(2) cs digit_not_space [of c] by auto
  have tk: "takeWhile isdigit (show_nat ?n) = show_nat ?n" using n(2) by (simp add: takeWhile_eq_all_conv)
  have "dropWhile isspace (show_nat ?n) = show_nat ?n" using c(1) by (simp add: cs)
  moreover have "hd (show_nat ?n) = c" by (simp add: cs)
  ultimately show ?thesis using assms n(1,3) c by (simp add: atoi_def cmem s Let_def tk)
qed

end
