(* ===== verification/Calculator.thy ===== *)
theory Calculator
  imports Numbers
begin

text \<open>
  The calculators: \<open>static_lib/calcul.c\<close> and \<open>dynamic_lib/calcul.c\<close> (the same text, linked in two ways)
  with the four functions of their libraries, and \<open>lib/calc.c\<close>, which loads the functions named on
  its command line at run time.
\<close>

section \<open>The functions\<close>

text \<open>\<open>functions/sum.c\<close>, \<open>minus.c\<close>, \<open>multiply.c\<close> and \<open>devid.c\<close>; no result means undefined behaviour.\<close>

definition c_sum :: "int \<Rightarrow> int \<Rightarrow> int option" where "c_sum x y = int32 (x + y)"
definition c_minus :: "int \<Rightarrow> int \<Rightarrow> int option" where "c_minus x y = int32 (x - y)"
definition c_multiply :: "int \<Rightarrow> int \<Rightarrow> int option" where "c_multiply x y = int32 (x * y)"
definition c_devid :: "int \<Rightarrow> int \<Rightarrow> int option" where
  "c_devid x y = (if y = 0 then None else int32 (quot x y))"

section \<open>The linked calculator\<close>

text \<open>Indeterminate contents of the local variables; the state of the loop.\<close>

record calc_env =
  c_num :: "char list"
  c_x :: int
  c_y :: int

record calc_world =
  num_c :: "char list"
  stdin_c :: string
  outs_c :: "out list"

definition calc_prompt :: "out list" where
  "calc_prompt =
     [Print (''Command of calculator: 1)plus 2)minus 3)multiply 4)divide 5)exit'' @ [NL]),
      Print ''Enter num of command: '']"

text \<open>One of the four branches: asking for the numbers, then the line with the result.\<close>

definition calc_branch ::
  "calc_env \<Rightarrow> calc_world \<Rightarrow> string \<Rightarrow> string \<Rightarrow> (int \<Rightarrow> int \<Rightarrow> int option) \<Rightarrow> (ctl \<times> calc_world) option" where
  "calc_branch e w question op f =
     do { (x, y, rest) \<leftarrow> scanf_dd (c_x e) (c_y e) (stdin_c w);
          r \<leftarrow> f x y;
          Some (Continue, w\<lparr>stdin_c := rest, outs_c := outs_c w @ [Print question,
            Print (show_int x @ op @ show_int y @ '' = '' @ show_int r @ [NL]), Print [NL]]\<rparr>) }"

definition calc_step :: "calc_env \<Rightarrow> calc_world \<Rightarrow> (ctl \<times> calc_world) option" where
  "calc_step e w0 =
     do { (_, nm, in1) \<leftarrow> scanf_s (num_c w0) (stdin_c w0);
          let w = w0\<lparr>num_c := nm, stdin_c := in1, outs_c := outs_c w0 @ calc_prompt @ [Shell ''clear'']\<rparr>;
          c1 \<leftarrow> strcmp nm (lit ''1''); c2 \<leftarrow> strcmp nm (lit ''2''); c3 \<leftarrow> strcmp nm (lit ''3'');
          c4 \<leftarrow> strcmp nm (lit ''4''); c5 \<leftarrow> strcmp nm (lit ''5'');
          if c1 = 0 then calc_branch e w ''Enter 2 'int' numbers to plusing: '' '' + '' c_sum
          else if c2 = 0 then calc_branch e w ''Enter 2 'int' numbers to minusing: '' '' - '' c_minus
          else if c3 = 0 then calc_branch e w ''Enter 2 'int' numbers to multiply: '' '' * '' c_multiply
          else if c4 = 0 then calc_branch e w ''Enter 2 'int' numbers to deviding: '' '' / '' c_devid
          else if c5 = 0 then Some (Break, w)
          else Some (Continue, w\<lparr>outs_c := outs_c w @ [Print (''Unknown command'' @ [NL]), Print [NL]]\<rparr>) }"

fun calc_loop :: "nat \<Rightarrow> calc_env \<Rightarrow> calc_world \<Rightarrow> (ctl \<times> calc_world) option" where
  "calc_loop 0 e w = Some (Continue, w)"
| "calc_loop (Suc fuel) e w =
     do { (c, w') \<leftarrow> calc_step e w;
          (case c of Continue \<Rightarrow> calc_loop fuel e w' | _ \<Rightarrow> Some (c, w')) }"

definition calcul_main :: "nat \<Rightarrow> calc_env \<Rightarrow> string \<Rightarrow> (ctl \<times> out list) option" where
  "calcul_main fuel e inp =
     do { (c, w) \<leftarrow> calc_loop fuel e \<lparr>num_c = c_num e, stdin_c = inp, outs_c = []\<rparr>; Some (c, outs_c w) }"

text \<open>\<open>dynamic_lib/calcul.c\<close> has the same text; it is linked with the same functions from a shared library.\<close>

definition dyn_calcul_main :: "nat \<Rightarrow> calc_env \<Rightarrow> string \<Rightarrow> (ctl \<times> out list) option" where
  "dyn_calcul_main fuel e inp = calcul_main fuel e inp"

section \<open>The calculator that loads its functions\<close>

text \<open>
  What \<open>dlopen\<close> and \<open>dlsym\<close> find: for the path of a library its symbols, for a symbol a function of
  two ints (whose own behaviour may be undefined).
\<close>

type_synonym loader = "string \<Rightarrow> (string \<Rightarrow> (int \<Rightarrow> int \<Rightarrow> int option) option) option"

definition check_args :: "int \<Rightarrow> int \<times> out list" where
  "check_args n =
     (if n < 2 then (1, [Print (''You starting program wrong'' @ [NL]),
         Print (''Example: ./calc libsum.so libminus.so ..'' @ [NL]),
         Print (''Functions in dynamic-libs should be like EXAMPLE: '' @ CHR 0x1B # ''[92mint ''
           @ CHR 0x1B # ''[93msum'' @ CHR 0x1B # ''[39m('' @ CHR 0x1B # ''[92mint'' @ CHR 0x1B # ''[39m, ''
           @ CHR 0x1B # ''[92mint'' @ CHR 0x1B # ''[39m)'' @ [NL])])
      else (0, []))"

definition NAME_LEN :: nat where "NAME_LEN = 20"

text \<open>The inner loop that copies the middle of an argument into its row of \<open>words\<close>.\<close>

function name_loop :: "int \<Rightarrow> int \<Rightarrow> char list \<Rightarrow> char list \<Rightarrow> char list option" where
  "name_loop len j arg row =
     (if j < len - 3 then
        do { c \<leftarrow> aref arg j; row' \<leftarrow> aset row (j - 3) c; name_loop len (j + 1) arg row' }
      else Some row)"
  by pat_completeness auto
termination by (relation "measure (\<lambda>(len, j, arg, row). nat (len - j))") auto

function words_loop :: "int \<Rightarrow> int \<Rightarrow> char list list \<Rightarrow> char list list \<Rightarrow> char list list option" where
  "words_loop argc i argv words =
     (if i < argc then
        do { a \<leftarrow> aref argv i; len \<leftarrow> strlen a; r \<leftarrow> aref words i;
             r' \<leftarrow> name_loop (int len) 3 a r; words' \<leftarrow> aset words i r';
             words_loop argc (i + 1) argv words' }
      else Some words)"
  by pat_completeness auto
termination by (relation "measure (\<lambda>(argc, i, argv, words). nat (argc - i))") auto

declare name_loop.simps [simp del] words_loop.simps [simp del]

text \<open>The list of commands that starts every round.\<close>

function menu_loop :: "int \<Rightarrow> int \<Rightarrow> char list list \<Rightarrow> out list option" where
  "menu_loop argc i words =
     (if i < argc then
        do { r \<leftarrow> aref words i; s \<leftarrow> rd_str r; os \<leftarrow> menu_loop argc (i + 1) words;
             Some (Print (show_int i @ '')'' @ s @ ''; '') # os) }
      else Some [])"
  by pat_completeness auto
termination by (relation "measure (\<lambda>(argc, i, words). nat (argc - i))") auto

declare menu_loop.simps [simp del]

text \<open>
  One round: the exit status is 0 after the last command of the menu and 1 when the library or the
  function cannot be loaded.  The constants of \<open>exit\<close> are 0 and 1.
\<close>

definition dl_step ::
  "loader \<Rightarrow> calc_env \<Rightarrow> char list list \<Rightarrow> char list list \<Rightarrow> calc_world \<Rightarrow> (ctl \<times> calc_world) option" where
  "dl_step ld e argv words w0 =
     (let argc = int (length argv) in
      do { menu \<leftarrow> menu_loop argc 1 words;
           (_, nm, in1) \<leftarrow> scanf_s (num_c w0) (stdin_c w0);
           let w = w0\<lparr>num_c := nm, stdin_c := in1,
             outs_c := outs_c w0 @ Print ''comands: '' # menu
               @ [Print (show_int argc @ '')exit;''), Print (NL # ''Enter num of command:''), Shell ''clear'']\<rparr>;
           k \<leftarrow> atoi nm;
           if k = argc then Some (Break, w)
           else if k > 0 \<and> k < argc then
             do { a \<leftarrow> aref argv k; p \<leftarrow> rd_str a;
                  (case ld p of
                     None \<Rightarrow> Some (Return 1, w)
                   | Some syms \<Rightarrow>
                       do { r \<leftarrow> aref words k; s \<leftarrow> rd_str r;
                            (case syms s of
                               None \<Rightarrow> Some (Return 1, w)
                             | Some test \<Rightarrow>
                                 do { (x1, x2, rest) \<leftarrow> scanf_dd (c_x e) (c_y e) in1;
                                      v \<leftarrow> test x1 x2;
                                      Some (Continue, w\<lparr>stdin_c := rest, outs_c := outs_c w @
                                        [Print ''Enter two numbers: '',
                                         Print (s @ ''('' @ show_int x1 @ '', '' @ show_int x2 @ '') = ''
                                           @ show_int v @ [NL]), Print [NL]]\<rparr>) }) }) }
           else Some (Continue, w\<lparr>outs_c := outs_c w @ [Print (''unknown comand'' @ [NL])]\<rparr>) })"

fun dl_loop ::
  "nat \<Rightarrow> loader \<Rightarrow> calc_env \<Rightarrow> char list list \<Rightarrow> char list list \<Rightarrow> calc_world \<Rightarrow> (ctl \<times> calc_world) option" where
  "dl_loop 0 ld e argv words w = Some (Continue, w)"
| "dl_loop (Suc fuel) ld e argv words w =
     do { (c, w') \<leftarrow> dl_step ld e argv words w;
          (case c of Continue \<Rightarrow> dl_loop fuel ld e argv words w' | _ \<Rightarrow> Some (c, w')) }"

text \<open>\<open>main\<close>: \<open>junk\<close> is what the uninitialised array \<open>words\<close> holds.\<close>

definition dl_main ::
  "nat \<Rightarrow> loader \<Rightarrow> calc_env \<Rightarrow> char list list \<Rightarrow> char list list \<Rightarrow> string \<Rightarrow> (ctl \<times> out list) option" where
  "dl_main fuel ld e junk argv inp =
     (let (bad, os) = check_args (int (length argv)) in
      if bad = 1 then Some (Return 0, os)
      else do { words \<leftarrow> words_loop (int (length argv)) 1 argv junk;
                (c, w) \<leftarrow> dl_loop fuel ld e argv words \<lparr>num_c = c_num e, stdin_c = inp, outs_c = os\<rparr>;
                Some (if c = Break then Return 0 else c, outs_c w) })"

end
