(* ===== verification/Calculator_Correct.thy ===== *)
theory Calculator_Correct
  imports Calculator
begin

text \<open>
  Correctness of the calculators: a session of the linked one as an instance of \<open>command_shell\<close>, and
  the names of the functions the loading one looks up.
\<close>

section \<open>The linked calculator\<close>

datatype arith = Plus int int | Minus int int | Times int int | Over int int

fun arith_toks :: "arith \<Rightarrow> string list" where
  "arith_toks (Plus x y) = [''1'', show_int x, show_int y]"
| "arith_toks (Minus x y) = [''2'', show_int x, show_int y]"
| "arith_toks (Times x y) = [''3'', show_int x, show_int y]"
| "arith_toks (Over x y) = [''4'', show_int x, show_int y]"

text \<open>The mathematical result, and when the program has it.\<close>

fun arith_val :: "arith \<Rightarrow> int" where
  "arith_val (Plus x y) = x + y"
| "arith_val (Minus x y) = x - y"
| "arith_val (Times x y) = x * y"
| "arith_val (Over x y) = quot x y"

fun arith_args :: "arith \<Rightarrow> int \<times> int" where
  "arith_args (Plus x y) = (x, y)"
| "arith_args (Minus x y) = (x, y)"
| "arith_args (Times x y) = (x, y)"
| "arith_args (Over x y) = (x, y)"

definition arith_ok :: "arith \<Rightarrow> bool" where
  "arith_ok a \<longleftrightarrow> fits32 (fst (arith_args a)) \<and> fits32 (snd (arith_args a)) \<and> fits32 (arith_val a) \<and>
     (\<forall>x. a \<noteq> Over x 0)"

fun arith_ans :: "arith \<Rightarrow> out list" where
  "arith_ans (Plus x y) = [Print ''Enter 2 'int' numbers to plusing: '',
     Print (show_int x @ '' + '' @ show_int y @ '' = '' @ show_int (x + y) @ [NL]), Print [NL]]"
| "arith_ans (Minus x y) = [Print ''Enter 2 'int' numbers to minusing: '',
     Print (show_int x @ '' - '' @ show_int y @ '' = '' @ show_int (x - y) @ [NL]), Print [NL]]"
| "arith_ans (Times x y) = [Print ''Enter 2 'int' numbers to multiply: '',
     Print (show_int x @ '' * '' @ show_int y @ '' = '' @ show_int (x * y) @ [NL]), Print [NL]]"
| "arith_ans (Over x y) = [Print ''Enter 2 'int' numbers to deviding: '',
     Print (show_int x @ '' / '' @ show_int y @ '' = '' @ show_int (quot x y) @ [NL]), Print [NL]]"

definition calc_ready :: "calc_world \<Rightarrow> string \<Rightarrow> bool" where
  "calc_ready w rest \<longleftrightarrow> length (num_c w) = 10 \<and> at_input (stdin_c w) rest"

abbreviation calc_hello :: "out list" where
  "calc_hello \<equiv> calc_prompt @ [Shell ''clear'']"

text \<open>The command word and its comparisons.\<close>

lemma calc_word:
  assumes "calc_ready w (type_in ([d] # ts) @ rest)"
    "d \<in> {CHR ''1'', CHR ''2'', CHR ''3'', CHR ''4'', CHR ''5''}"
  obtains nm where "scanf_s (num_c w) (stdin_c w) = Some (1, nm, NL # type_in ts @ rest)" "length nm = 10"
    "strcmp nm (lit ''1'') = Some (strcmp_bytes [d] ''1'')" "strcmp nm (lit ''2'') = Some (strcmp_bytes [d] ''2'')"
    "strcmp nm (lit ''3'') = Some (strcmp_bytes [d] ''3'')" "strcmp nm (lit ''4'') = Some (strcmp_bytes [d] ''4'')"
    "strcmp nm (lit ''5'') = Some (strcmp_bytes [d] ''5'')"
proof -
  have t: "token 10 [d]" using assms(2) by (auto simp: token_def isspace_def NUL_def)
  have n: "10 \<le> length (num_c w)" "at_input (stdin_c w) (type_in ([d] # ts) @ rest)"
    using assms(1) by (simp_all add: calc_ready_def)
  obtain nm where nm: "scanf_s (num_c w) (stdin_c w) = Some (1, nm, NL # type_in ts @ rest)"
    "length nm = length (num_c w)" "NUL \<in> set nm" "cstr nm = [d]"
    by (rule scan_tokenE [OF t n])
  show ?thesis
    by (rule that [OF nm(1)]) (use nm assms(1) in \<open>simp_all add: strcmp_lit NUL_def calc_ready_def\<close>)
qed

lemma calc_step_returns:
  assumes "arith_ok a" "calc_ready w (type_in (arith_toks a) @ rest)"
  shows "returns (calc_step e w) (\<lambda>(ct, w'). ct = Continue \<and> calc_ready w' rest \<and> () = () \<and>
     outs_c w' = outs_c w @ calc_prompt @ [Shell ''clear''] @ arith_ans a)"
proof -
  obtain d x y where d: "arith_toks a = [d] # [show_int x, show_int y]" "arith_args a = (x, y)"
    "d \<in> {CHR ''1'', CHR ''2'', CHR ''3'', CHR ''4'', CHR ''5''}"
    by (cases a) auto
  have r: "calc_ready w (type_in ([d] # [show_int x, show_int y]) @ rest)" using assms(2) d(1) by simp
  obtain nm where nm: "scanf_s (num_c w) (stdin_c w) = Some (1, nm, NL # type_in [show_int x, show_int y] @ rest)"
    "length nm = 10"
    "strcmp nm (lit ''1'') = Some (strcmp_bytes [d] ''1'')" "strcmp nm (lit ''2'') = Some (strcmp_bytes [d] ''2'')"
    "strcmp nm (lit ''3'') = Some (strcmp_bytes [d] ''3'')" "strcmp nm (lit ''4'') = Some (strcmp_bytes [d] ''4'')"
    "strcmp nm (lit ''5'') = Some (strcmp_bytes [d] ''5'')"
    by (rule calc_word [OF r d(3)])
  have f: "fits32 x" "fits32 y" "fits32 (arith_val a)" using assms(1) d(2) by (simp_all add: arith_ok_def)
  have sc: "scanf_dd (c_x e) (c_y e) (NL # type_in [show_int x, show_int y] @ rest) = Some (x, y, NL # rest)"
    using scanf_dd_at [of "NL # type_in [show_int x, show_int y] @ rest" x y "[]" rest] f(1,2)
    by (simp add: type_in_def)
  show ?thesis using nm sc f d assms(1)
    by (cases a) (auto simp: calc_step_def Let_def strcmp_bytes_eq calc_branch_def c_sum_def c_minus_def
      c_multiply_def c_devid_def int32_def calc_ready_def arith_ok_def)
qed

lemma calc_step_exit:
  assumes "calc_ready w (type_in [''5''] @ rest)"
  shows "returns (calc_step e w) (\<lambda>(ct, w'). ct = Break \<and> True \<and> () = () \<and> outs_c w' = outs_c w @ calc_hello)"
proof -
  have "CHR ''5'' \<in> {CHR ''1'', CHR ''2'', CHR ''3'', CHR ''4'', CHR ''5''}" by simp
  show ?thesis
    by (rule calc_word [OF assms \<open>CHR ''5'' \<in> _\<close>]) (simp add: calc_step_def Let_def strcmp_bytes_eq)
qed

interpretation calc_shell: command_shell "\<lambda>_. True" calc_step calc_loop calc_ready "\<lambda>_. True" "\<lambda>_. ()" outs_c
  calc_hello arith_toks "[''5'']" "\<lambda>a _. arith_ok a" "\<lambda>_ _. ()" "\<lambda>a _. arith_ans a"
  by unfold_locales (simp_all only: calc_loop.simps append_assoc calc_step_returns calc_step_exit)

lemma ok_run_arith: "ok_run (\<lambda>a _. arith_ok a) (\<lambda>_ _. ()) as v \<longleftrightarrow> (\<forall>a \<in> set as. arith_ok a)"
  by (induction as) auto

lemma run_arith: "snd (run_script hello (\<lambda>_ _. ()) (\<lambda>a _. arith_ans a) as v) = concat (map (\<lambda>a. hello @ arith_ans a) as)"
  by (induction as) (auto simp: case_prod_beta Let_def)

section \<open>The names of the loaded functions\<close>

lemma name_loop_returns:
  assumes "3 \<le> j" "j \<le> len - 3" "len \<le> int (length arg)" "len - 6 \<le> int (length row)"
  shows "name_loop len j arg row = Some (take (nat (j - 3)) row @ take (nat (len - 3 - j)) (drop (nat j) arg)
     @ drop (nat (len - 6)) row)"
  using assms
proof (induction len j arg row rule: name_loop.induct)
  case (1 len j arg row)
  show ?case
  proof (cases "j < len - 3")
    case False
    then have "j = len - 3" using "1.prems" by simp
    then show ?thesis by (subst name_loop.simps) (simp add: append_take_drop_id)
  next
    case True
    define n m where "n = nat (j - 3)" and "m = nat (len - 3 - (j + 1))"
    have j: "j = int (n + 3)" "len = int (n + 7 + m)" using True "1.prems" by (simp_all add: n_def m_def)
    let ?c = "arg ! (n + 3)"
    have rd: "aref arg j = Some ?c" "aset row (j - 3) ?c = Some (row[n := ?c])"
      using "1.prems" j by (simp_all add: aref_def aset_def nat_add_distrib)
    have "name_loop len (j + 1) arg (row[n := ?c]) = Some (take (nat (j + 1 - 3)) (row[n := ?c])
       @ take (nat (len - 3 - (j + 1))) (drop (nat (j + 1)) arg) @ drop (nat (len - 6)) (row[n := ?c]))"
      by (rule "1.IH" [OF True rd]) (use "1.prems" True in simp_all)
    moreover have "take (Suc n) (row[n := ?c]) = take n row @ [?c]"
      using "1.prems" j by (simp add: take_Suc_conv_app_nth)
    moreover have "take (Suc m) (drop (n + 3) arg) = ?c # take m (drop (n + 4) arg)"
      using "1.prems" j by (simp add: Cons_nth_drop_Suc [symmetric] take_Suc_Cons eval_nat_numeral)
    moreover have "nat (j + 1 - 3) = Suc n" "nat (len - 3 - (j + 1)) = m" "nat (j + 1) = n + 4"
      "nat (len - 6) = Suc (n + m)" "nat (len - 3 - j) = Suc m" "nat j = n + 3" "nat (j - 3) = n"
      using j by simp_all
    ultimately show ?thesis using True rd
      by (subst name_loop.simps) simp
  qed
qed

text \<open>
  An argument \<open>pre @ nm @ post\<close> with three characters on either side, as in \<open>libsum.so\<close>: what its row of
  \<open>words\<close> holds afterwards.
\<close>

definition lib_arg :: "string \<Rightarrow> string \<Rightarrow> bool" where
  "lib_arg nm s \<longleftrightarrow> (\<exists>pre post. s = pre @ nm @ post \<and> length pre = 3 \<and> length post = 3) \<and>
     NUL \<notin> set s \<and> length nm \<le> NAME_LEN"

lemma name_loop_lib:
  assumes "lib_arg nm s" "length row = NAME_LEN"
  shows "name_loop (int (length s)) 3 (lit s) row = Some (nm @ drop (length nm) row)"
proof -
  obtain pre post where s: "s = pre @ nm @ post" "length pre = 3" "length post = 3" "length nm \<le> NAME_LEN"
    using assms(1) by (auto simp: lib_arg_def)
  have "name_loop (int (length s)) 3 (lit s) row = Some (take (nat (3 - 3)) row
     @ take (nat (int (length s) - 3 - 3)) (drop (nat 3) (lit s)) @ drop (nat (int (length s) - 6)) row)"
    using s assms(2) by (intro name_loop_returns) (simp_all add: lit_def)
  moreover have "nat (int (length s) - 3 - 3) = length nm" "nat (int (length s) - 6) = length nm"
    using s by simp_all
  moreover have "take (length nm) (drop (nat 3) (lit s)) = nm" using s(1-3) by (simp add: lit_def)
  ultimately show ?thesis by simp
qed

lemma words_loop_returns:
  assumes "argc = int (length argv)" "1 \<le> i" "length argv = length ws" "\<forall>r \<in> set ws. length r = NAME_LEN"
    and "\<forall>k. nat i \<le> k \<and> k < length argv \<longrightarrow> (\<exists>s. argv ! k = lit s \<and> lib_arg (nm k) s)"
  shows "returns (words_loop argc i argv ws) (\<lambda>ws'. length ws' = length ws \<and>
     (\<forall>k < length ws. ws' ! k = (if nat i \<le> k then nm k @ drop (length (nm k)) (ws ! k) else ws ! k)))"
  using assms
proof (induction argc i argv ws rule: words_loop.induct)
  case (1 argc i argv ws)
  show ?case
  proof (cases "i < argc")
    case False
    then have "\<forall>k < length ws. \<not> nat i \<le> k" using "1.prems" by auto
    then show ?thesis using False by (subst words_loop.simps) simp
  next
    case True
    have n: "nat i < length argv" "nat (i + 1) = Suc (nat i)" using True "1.prems"(1,2) by auto
    obtain s where s: "argv ! nat i = lit s" "lib_arg (nm (nat i)) s" using "1.prems"(5) n(1) by auto
    let ?r = "ws ! nat i" and ?r' = "nm (nat i) @ drop (length (nm (nat i))) (ws ! nat i)"
    have r: "length ?r = NAME_LEN" using "1.prems"(3,4) n(1) by simp
    have a: "aref argv i = Some (lit s)" "strlen (lit s) = Some (length s)" "aref ws i = Some ?r"
      "name_loop (int (length s)) 3 (lit s) ?r = Some ?r'" "aset ws i ?r' = Some (ws[nat i := ?r'])"
      using s n(1) True "1.prems"(1,2,3) name_loop_lib [OF s(2) r]
      by (simp_all add: cmem strlen_def lib_arg_def)
    have len: "length ?r' = NAME_LEN" using r s(2) by (simp add: lib_arg_def)
    have all: "\<forall>r \<in> set (ws[nat i := ?r']). length r = NAME_LEN"
      using "1.prems"(4) len set_update_subset_insert [of ws "nat i" ?r'] by auto
    have rest: "\<forall>k. nat (i + 1) \<le> k \<and> k < length argv \<longrightarrow> (\<exists>s. argv ! k = lit s \<and> lib_arg (nm k) s)"
    proof (intro allI impI)
      fix k assume "nat (i + 1) \<le> k \<and> k < length argv"
      then have "nat i \<le> k \<and> k < length argv" using n(2) by simp
      with "1.prems"(5) show "\<exists>s. argv ! k = lit s \<and> lib_arg (nm k) s" by blast
    qed
    have "1 \<le> i + 1" "length argv = length (ws[nat i := ?r'])" using "1.prems"(1,2,3) by simp_all
    from "1.IH" [OF True a "1.prems"(1) this all rest] have "returns (words_loop argc (i + 1) argv (ws[nat i := ?r'])) (\<lambda>ws'.
       length ws' = length (ws[nat i := ?r']) \<and> (\<forall>k < length (ws[nat i := ?r']). ws' ! k =
         (if nat (i + 1) \<le> k then nm k @ drop (length (nm k)) (ws[nat i := ?r'] ! k) else ws[nat i := ?r'] ! k)))"
      .
    then show ?thesis
    proof (rule returnsE)
      fix ws' assume w: "words_loop argc (i + 1) argv (ws[nat i := ?r']) = Some ws'"
        and q: "length ws' = length (ws[nat i := ?r']) \<and> (\<forall>k < length (ws[nat i := ?r']). ws' ! k =
         (if nat (i + 1) \<le> k then nm k @ drop (length (nm k)) (ws[nat i := ?r'] ! k) else ws[nat i := ?r'] ! k))"
      have "ws' ! k = (if nat i \<le> k then nm k @ drop (length (nm k)) (ws ! k) else ws ! k)" if "k < length ws" for k
        using q that n by (cases "k = nat i") (auto simp: nth_list_update)
      then show ?thesis using True a w q by (subst words_loop.simps) simp
    qed
  qed
qed

lemma menu_loop_Some:
  assumes "0 \<le> i" "argc \<le> int (length ws)" "\<forall>k. nat i \<le> k \<and> k < nat argc \<longrightarrow> NUL \<in> set (ws ! k)"
  shows "\<exists>os. menu_loop argc i ws = Some os"
  using assms
proof (induction argc i ws rule: menu_loop.induct)
  case (1 argc i ws)
  show ?case
  proof (cases "i < argc")
    case False
    then show ?thesis by (subst menu_loop.simps) simp
  next
    case True
    have r: "aref ws i = Some (ws ! nat i)" "rd_str (ws ! nat i) = Some (cstr (ws ! nat i))"
      using True "1.prems" by (simp_all add: cmem)
    have "\<exists>os. menu_loop argc (i + 1) ws = Some os" by (rule "1.IH" [OF True r]) (use "1.prems" in auto)
    then show ?thesis using True r by (subst menu_loop.simps) auto
  qed
qed

lemma length_show_nat: "n < 10 ^ m \<Longrightarrow> 0 < m \<Longrightarrow> length (show_nat n) \<le> m"
proof (induction n arbitrary: m rule: show_nat.induct)
  case (1 n)
  show ?case
  proof (cases "n < 10")
    case True
    then show ?thesis using "1.prems" by (subst show_nat.simps) simp
  next
    case False
    obtain k where m: "m = Suc k" using "1.prems"(2) by (cases m) auto
    have "0 < k" using False "1.prems"(1) m by (cases k) auto
    note k = m this
    have "length (show_nat (n div 10)) \<le> k"
      using "1.IH" [OF False, of k] "1.prems"(1) k by (simp add: div_less_iff_less_mult mult.commute)
    then show ?thesis using False k by (subst show_nat.simps) simp
  qed
qed

lemma show_token:
  assumes "0 \<le> v" "fits32 v"
  shows "token 20 (show_int v)"
proof -
  have n: "\<forall>c \<in> set (show_nat (nat v)). isdigit c" "show_nat (nat v) \<noteq> []"
    using show_nat_digits [of "nat v"] by simp_all
  have "nat v < 10 ^ 10" using assms by simp
  from length_show_nat [OF this] have "length (show_nat (nat v)) < 20" by simp
  then show ?thesis using assms(1) n digit_not_space by (auto simp: token_def show_int_def)
qed

text \<open>The state at the start of a round, and a round that reads the number of a command.\<close>

definition dl_words :: "char list list \<Rightarrow> char list list \<Rightarrow> (nat \<Rightarrow> string) \<Rightarrow> bool" where
  "dl_words argv ws nm \<longleftrightarrow> 2 \<le> length argv \<and> fits32 (int (length argv)) \<and> length ws = length argv \<and>
     (\<forall>k. 1 \<le> k \<and> k < length argv \<longrightarrow> NUL \<in> set (argv ! k) \<and> NUL \<in> set (ws ! k) \<and> cstr (ws ! k) = nm k)"

lemma dl_number:
  assumes "dl_words argv ws nm" "length (num_c w) = 20" "0 \<le> k" "fits32 k"
    and "at_input (stdin_c w) (type_in (show_int k # ts) @ rest)"
  obtains nb menu where "menu_loop (int (length argv)) 1 ws = Some menu"
    "scanf_s (num_c w) (stdin_c w) = Some (1, nb, NL # type_in ts @ rest)" "length nb = 20" "atoi nb = Some k"
proof -
  have m: "\<exists>menu. menu_loop (int (length argv)) 1 ws = Some menu"
    using assms(1) by (intro menu_loop_Some) (auto simp: dl_words_def)
  have n: "20 \<le> length (num_c w)" using assms(2) by simp
  obtain nb where nb: "scanf_s (num_c w) (stdin_c w) = Some (1, nb, NL # type_in ts @ rest)"
    "length nb = length (num_c w)" "NUL \<in> set nb" "cstr nb = show_int k"
    by (rule scan_tokenE [OF show_token [OF assms(3,4)] n assms(5)])
  moreover have "atoi nb = Some k" using nb(3,4) assms(3,4) by (intro atoi_show)
  ultimately show ?thesis using that m assms(2) by auto
qed

lemma dl_step_call:
  assumes d: "dl_words argv ws nm" and w: "length (num_c w) = 20" and k: "1 \<le> k" "k < length argv"
    and i: "at_input (stdin_c w) (type_in (show_int (int k) # show_int x # show_int y # ts) @ rest)"
    and l: "ld (cstr (argv ! k)) = Some syms" "syms (nm k) = Some test" "test x y = Some v" "fits32 x" "fits32 y"
  obtains w' os where "dl_step ld e argv ws w = Some (Continue, w')" "length (num_c w') = 20"
    "stdin_c w' = NL # type_in ts @ rest" "outs_c w' = outs_c w @ os @ [Print ''Enter two numbers: '',
       Print (nm k @ ''('' @ show_int x @ '', '' @ show_int y @ '') = '' @ show_int v @ [NL]), Print [NL]]"
proof -
  have f: "fits32 (int k)" "0 \<le> int k" using d k by (auto simp: dl_words_def)
  obtain nb menu where nb: "menu_loop (int (length argv)) 1 ws = Some menu"
    "scanf_s (num_c w) (stdin_c w) = Some (1, nb, NL # type_in (show_int x # show_int y # ts) @ rest)"
    "length nb = 20" "atoi nb = Some (int k)"
    by (rule dl_number [OF d w f(2,1) i])
  have sc: "scanf_dd (c_x e) (c_y e) (NL # type_in (show_int x # show_int y # ts) @ rest) = Some (x, y, NL # type_in ts @ rest)"
    using scanf_dd_at [OF at_input_NL l(4,5)] .
  have a: "aref argv (int k) = Some (argv ! k)" "rd_str (argv ! k) = Some (cstr (argv ! k))"
    "aref ws (int k) = Some (ws ! k)" "rd_str (ws ! k) = Some (nm k)"
    using d k by (simp_all add: dl_words_def cmem)
  define os where "os = Print ''comands: '' # menu @ [Print (show_int (int (length argv)) @ '')exit;''),
    Print (NL # ''Enter num of command:''), Shell ''clear'']"
  show ?thesis
    by (rule that [of "w\<lparr>num_c := nb, stdin_c := NL # type_in ts @ rest, outs_c := outs_c w @ os @
        [Print ''Enter two numbers: '',
         Print (nm k @ ''('' @ show_int x @ '', '' @ show_int y @ '') = '' @ show_int v @ [NL]), Print [NL]]\<rparr>" os])
      (use nb a sc l k in \<open>simp_all add: dl_step_def Let_def os_def\<close>)
qed

lemma dl_step_exit:
  assumes d: "dl_words argv ws nm" and w: "length (num_c w) = 20"
    and i: "at_input (stdin_c w) (type_in [show_int (int (length argv))] @ rest)"
  obtains w' os where "dl_step ld e argv ws w = Some (Break, w')" "outs_c w' = outs_c w @ os"
proof -
  have f: "fits32 (int (length argv))" "0 \<le> int (length argv)" using d by (simp_all add: dl_words_def)
  obtain nb menu where "menu_loop (int (length argv)) 1 ws = Some menu"
    "scanf_s (num_c w) (stdin_c w) = Some (1, nb, NL # type_in [] @ rest)"
    "length nb = 20" "atoi nb = Some (int (length argv))"
    by (rule dl_number [OF d w f(2,1) i])
  then show ?thesis using that by (simp add: dl_step_def Let_def)
qed

section \<open>Properties of the programs\<close>

text \<open>
  C24. A session of the linked calculator, with the static or the dynamic library, prints, for every command, the line with its mathematical
  result (the quotient truncated towards zero), and returns: for any numbers whose result fits in an
  \<open>int\<close>, and a divisor that is not zero.
\<close>

theorem calcul_session:
  assumes "length (c_num e) = 10" "\<forall>a \<in> set as. arith_ok a" "length as < fuel"
  shows "calcul_main fuel e (script arith_toks [''5''] as @ rest) =
     Some (Break, concat (map (\<lambda>a. calc_hello @ arith_ans a) as) @ calc_hello) \<and>
    dyn_calcul_main fuel e (script arith_toks [''5''] as @ rest) = calcul_main fuel e (script arith_toks [''5''] as @ rest)"
proof -
  let ?w = "\<lparr>num_c = c_num e, stdin_c = script arith_toks [''5''] as @ rest, outs_c = []\<rparr>"
  have o: "ok_run (\<lambda>a _. arith_ok a) (\<lambda>_ _. ()) as ()" using assms(2) by (simp only: ok_run_arith)
  have r: "calc_ready ?w (script arith_toks [''5''] as @ rest)" using assms(1) by (simp add: calc_ready_def)
  from calc_shell.loop_session [OF TrueI o r assms(3), of e] show ?thesis
    by (auto simp: dyn_calcul_main_def calcul_main_def run_arith elim!: returnsE)
qed

theorem calcul_session_witness:
  "calcul_main 3 \<lparr>c_num = replicate 10 NUL, c_x = 0, c_y = 0\<rparr> (script arith_toks [''5''] [Times 6 7, Over (-7) 2] @ [])
   = Some (Break, concat (map (\<lambda>a. calc_hello @ arith_ans a) [Times 6 7, Over (-7) 2]) @ calc_hello)
   \<and> arith_val (Over (-7) 2) = -3"
  using calcul_session [of "\<lparr>c_num = replicate 10 NUL, c_x = 0, c_y = 0\<rparr>" "[Times 6 7, Over (-7) 2]" 3 "[]"]
  by (simp add: arith_ok_def quot_def)

text \<open>
  A result that does not fit in an \<open>int\<close>, and a division by zero, have no defined behaviour: the
  program does not check for them.
\<close>

theorem calcul_undefined:
  assumes "length (c_num e) = 10" "fits32 (fst (arith_args a))" "fits32 (snd (arith_args a))" "\<not> arith_ok a" "0 < fuel"
  shows "calcul_main fuel e (script arith_toks [''5''] (a # as) @ rest) = None"
proof -
  let ?inp = "script arith_toks [''5''] (a # as) @ rest" and ?rest = "script arith_toks [''5''] as @ rest"
  let ?w = "\<lparr>num_c = c_num e, stdin_c = ?inp, outs_c = []\<rparr>"
  obtain d x y where d: "arith_toks a = [d] # [show_int x, show_int y]" "arith_args a = (x, y)"
    "d \<in> {CHR ''1'', CHR ''2'', CHR ''3'', CHR ''4'', CHR ''5''}"
    by (cases a) auto
  have r: "calc_ready ?w (type_in ([d] # [show_int x, show_int y]) @ ?rest)"
    using assms(1) d(1) by (simp add: calc_ready_def script_Cons)
  obtain nm where nm: "scanf_s (num_c ?w) (stdin_c ?w) = Some (1, nm, NL # type_in [show_int x, show_int y] @ ?rest)"
    "length nm = 10"
    "strcmp nm (lit ''1'') = Some (strcmp_bytes [d] ''1'')" "strcmp nm (lit ''2'') = Some (strcmp_bytes [d] ''2'')"
    "strcmp nm (lit ''3'') = Some (strcmp_bytes [d] ''3'')" "strcmp nm (lit ''4'') = Some (strcmp_bytes [d] ''4'')"
    "strcmp nm (lit ''5'') = Some (strcmp_bytes [d] ''5'')"
    by (rule calc_word [OF r d(3)])
  have f: "fits32 x" "fits32 y" using assms(2,3) d(2) by simp_all
  have sc: "scanf_dd (c_x e) (c_y e) (NL # type_in [show_int x, show_int y] @ ?rest) = Some (x, y, NL # ?rest)"
    using scanf_dd_at [of "NL # type_in [show_int x, show_int y] @ ?rest" x y "[]" ?rest] f
    by (simp add: type_in_def)
  have "calc_step e ?w = None" using nm sc f d assms(4)
    by (cases a) (auto simp: calc_step_def Let_def strcmp_bytes_eq calc_branch_def c_sum_def c_minus_def
      c_multiply_def c_devid_def int32_def arith_ok_def)
  then show ?thesis using assms(5) by (cases fuel) (simp_all add: calcul_main_def)
qed

theorem calcul_undefined_witness:
  "calcul_main 1 \<lparr>c_num = replicate 10 NUL, c_x = 0, c_y = 0\<rparr> (script arith_toks [''5''] (Over 1 0 # []) @ []) = None"
  by (rule calcul_undefined) (simp_all add: arith_ok_def)

text \<open>
  \<open>calc.c\<close> copies the name of a function out of its library's file name without a terminator: the
  symbol it looks up is the name followed by what the uninitialised row of \<open>words\<close> happens to hold, and
  there is no string at all when the row holds no terminator behind the name.
\<close>

theorem loaded_symbol:
  assumes "lib_arg nm s" "length row = 20"
  shows "\<exists>row'. name_loop (int (length s)) 3 (lit s) row = Some row' \<and>
    rd_str row' = (if NUL \<in> set (drop (length nm) row) then Some (nm @ cstr (drop (length nm) row)) else None)"
proof -
  have n: "NUL \<notin> set nm" using assms(1) by (auto simp: lib_arg_def)
  then have "cstr (nm @ xs) = nm @ cstr xs" for xs
    by (induction nm) (auto simp: cstr_def)
  then show ?thesis using name_loop_lib [OF assms(1)] assms(2) n
    by (auto simp: NAME_LEN_def rd_str_def)
qed

theorem loaded_symbol_witness:
  "\<exists>row'. name_loop (int (length ''libsum.so'')) 3 (lit ''libsum.so'') (replicate 20 (CHR ''x'')) = Some row' \<and>
    rd_str row' = None"
proof -
  have "lib_arg ''sum'' ''libsum.so''"
    unfolding lib_arg_def
    by (intro conjI exI [of _ "''lib''"] exI [of _ "''.so''"]) (simp_all add: NUL_def NAME_LEN_def)
  from loaded_symbol [OF this, of "replicate 20 (CHR ''x'')"] show ?thesis by (auto simp: NUL_def)
qed

text \<open>
  C25. \<open>calc.c\<close> keeps its promise when the uninitialised array \<open>words\<close> happens to hold a zero byte right behind the place of each
  name, where the program writes none: then choosing the library \<open>k\<close> and two numbers prints the value of its function, and the last number
  of the menu ends the program with status 0.  (Without these bytes it looks up another name, by \<open>loaded_symbol\<close>.)
\<close>

theorem dl_main_calls:
  assumes "length (c_num e) = 20" "2 \<le> length argv" "fits32 (int (length argv))"
    and "\<forall>j. 1 \<le> j \<and> j < length argv \<longrightarrow> (\<exists>s. argv ! j = lit s \<and> lib_arg (nm j) s \<and> length (nm j) < 20)"
    and "1 \<le> k" "k < length argv" "argv ! k = lit s"
    and "ld s = Some syms" "syms (nm k) = Some test" "test x y = Some v" "fits32 x" "fits32 y" "1 < fuel"
    and "length junk = length argv" "\<forall>j < length argv. length (junk ! j) = 20"
    and "\<forall>j. 1 \<le> j \<and> j < length argv \<longrightarrow> junk ! j ! length (nm j) = NUL"
  shows "\<exists>os os'. dl_main fuel ld e junk argv
      (type_in [show_int (int k), show_int x, show_int y, show_int (int (length argv))] @ rest) =
    Some (Return 0, os @ Print (nm k @ ''('' @ show_int x @ '', '' @ show_int y @ '') = '' @ show_int v @ [NL]) # os')"
proof -
  let ?inp = "type_in [show_int (int k), show_int x, show_int y, show_int (int (length argv))] @ rest"
  let ?junk = junk
  have ja: "\<forall>j. nat 1 \<le> j \<and> j < length argv \<longrightarrow> (\<exists>s. argv ! j = lit s \<and> lib_arg (nm j) s)"
    using assms(4) by (metis One_nat_def nat_1)
  obtain ws where ws: "words_loop (int (length argv)) 1 argv ?junk = Some ws" "length ws = length argv"
    "\<forall>j < length argv. ws ! j = (if nat 1 \<le> j then nm j @ drop (length (nm j)) (?junk ! j) else ?junk ! j)"
    using words_loop_returns [OF refl, of 1 argv ?junk nm] ja assms(14,15) by (auto simp: NAME_LEN_def set_conv_nth elim!: returnsE)
  have "NUL \<in> set (argv ! j) \<and> NUL \<in> set (ws ! j) \<and> cstr (ws ! j) = nm j" if j: "1 \<le> j" "j < length argv" for j
  proof -
    obtain s' where s': "argv ! j = lit s'" "lib_arg (nm j) s'" "length (nm j) < 20" using assms(4) j by blast
    have "drop (length (nm j)) (junk ! j) = NUL # drop (Suc (length (nm j))) (junk ! j)"
      using s'(3) j assms(15,16) by (simp flip: Cons_nth_drop_Suc)
    then have "ws ! j = nm j @ NUL # drop (Suc (length (nm j))) (junk ! j)"
      using ws(3) j by simp
    moreover have "NUL \<notin> set (nm j)" using s'(2) by (auto simp: lib_arg_def)
    ultimately show ?thesis using s'(1) by (simp add: cstr_lit) (simp add: lit_def)
  qed
  then have d: "dl_words argv ws nm" using assms(2,3) ws(2) by (simp add: dl_words_def)
  have "lib_arg (nm k) s" using assms(4-7) by (metis lit_def append_same_eq)
  then have cs: "cstr (argv ! k) = s" using assms(7) by (auto simp: lib_arg_def lit_def cstr_lit)
  let ?w = "\<lparr>num_c = c_num e, stdin_c = ?inp, outs_c = []\<rparr>"
  have w: "length (num_c ?w) = 20" "at_input (stdin_c ?w) ?inp" "ld (cstr (argv ! k)) = Some syms"
    using assms(1,8) by (simp_all add: cs)
  obtain w1 o1 where w1: "dl_step ld e argv ws ?w = Some (Continue, w1)" "length (num_c w1) = 20"
    "stdin_c w1 = NL # type_in [show_int (int (length argv))] @ rest"
    "outs_c w1 = outs_c ?w @ o1 @ [Print ''Enter two numbers: '',
       Print (nm k @ ''('' @ show_int x @ '', '' @ show_int y @ '') = '' @ show_int v @ [NL]), Print [NL]]"
    by (rule dl_step_call [where nm = nm and argv = argv and ws = ws and ld = ld and syms = syms and k = k and w = ?w
      and test = test and x = x and y = y and v = v and ts = "[show_int (int (length argv))]" and rest = rest, OF d w(1) assms(5,6) w(2,3) assms(9-12)])
  have i: "at_input (stdin_c w1) (type_in [show_int (int (length argv))] @ rest)" by (simp add: w1(3))
  obtain w2 o2 where w2: "dl_step ld e argv ws w1 = Some (Break, w2)" "outs_c w2 = outs_c w1 @ o2"
    by (rule dl_step_exit [OF d w1(2) i])
  have "fuel = Suc (Suc (fuel - 2))" using assms(13) by simp
  then obtain f where f: "fuel = Suc (Suc f)" by blast
  have ca: "check_args (int (length argv)) = (0, [])" using assms(2) by (simp add: check_args_def)
  have "dl_main fuel ld e ?junk argv ?inp = Some (Return 0, outs_c w2)"
    using ws(1) w1(1) w2(1) by (simp add: dl_main_def ca f)
  then show ?thesis unfolding w2(2) w1(4)
    by (intro exI [of _ "o1 @ [Print ''Enter two numbers: '']"] exI [of _ "Print [NL] # o2"]) simp
qed

theorem dl_main_calls_witness:
  "\<exists>os os'. dl_main 2 (\<lambda>p. Some (\<lambda>n. if n = ''sum'' then Some c_sum else None))
      \<lparr>c_num = replicate 20 NUL, c_x = 0, c_y = 0\<rparr> (replicate 2 (''xxx'' @ [NUL] @ replicate 16 CHR ''y'')) [lit ''./calc'', lit ''libsum.so'']
      (type_in [show_int 1, show_int 2, show_int 3, show_int 2] @ []) =
    Some (Return 0, os @ Print (''sum'' @ ''('' @ show_int 2 @ '', '' @ show_int 3 @ '') = '' @ show_int 5 @ [NL]) # os')"
proof -
  have l: "lib_arg ''sum'' ''libsum.so''"
    unfolding lib_arg_def
    by (intro conjI exI [of _ "''lib''"] exI [of _ "''.so''"]) (simp_all add: NUL_def NAME_LEN_def)
  have m: "\<forall>j. 1 \<le> j \<and> j < length [lit ''./calc'', lit ''libsum.so''] \<longrightarrow>
    (\<exists>s. [lit ''./calc'', lit ''libsum.so''] ! j = lit s \<and> lib_arg ''sum'' s \<and> length ''sum'' < 20)"
    using l by (auto simp: less_Suc_eq)
  have n: "\<forall>j. 1 \<le> j \<and> j < length [lit ''./calc'', lit ''libsum.so''] \<longrightarrow>
      replicate 2 (''xxx'' @ [NUL] @ replicate 16 CHR ''y'') ! j ! length ''sum'' = NUL"
    by (auto simp: less_Suc_eq numeral_2_eq_2)
  from dl_main_calls [of "\<lparr>c_num = replicate 20 NUL, c_x = 0, c_y = 0\<rparr>" _ "\<lambda>_. ''sum''", OF _ _ _ m,
      of 1 "''libsum.so''" "\<lambda>p. Some (\<lambda>n. if n = ''sum'' then Some c_sum else None)" "\<lambda>n. if n = ''sum'' then Some c_sum else None" c_sum 2 3 5 2 "replicate 2 (''xxx'' @ [NUL] @ replicate 16 CHR ''y'')" "[]", OF _ _ _ _ _ _ _ _ _ _ _ _ _ _ n]
  show ?thesis by (simp add: c_sum_def int32_def numeral_2_eq_2 less_Suc_eq nth_Cons')
qed

end
