(* ===== verification/Bytes.thy ===== *)
theory Bytes
  imports CLib "HOL-Library.Word"
begin

text \<open>
  Memory seen as bytes, on the little-endian hosts the programs run on: multi-byte values in a
  buffer, the conversions between host and network order, Internet addresses in dotted notation,
  and one's complement sums (RFC 1071), the specification of the header checksum.
\<close>

unbundle bit_operations_syntax

type_synonym byte = "8 word"

section \<open>Multi-byte values\<close>

definition of_le16 :: "byte \<Rightarrow> byte \<Rightarrow> 16 word" where
  "of_le16 lo hi = ucast lo + 256 * ucast hi"

definition le16 :: "16 word \<Rightarrow> byte list" where
  "le16 w = [ucast w, ucast (drop_bit 8 w)]"

definition le32 :: "32 word \<Rightarrow> byte list" where
  "le32 w = [ucast w, ucast (drop_bit 8 w), ucast (drop_bit 16 w), ucast (drop_bit 24 w)]"

text \<open>A 16-bit read from a buffer, and the byte swaps.\<close>

definition rd16 :: "byte list \<Rightarrow> int \<Rightarrow> 16 word option" where
  "rd16 b p = do { lo \<leftarrow> aref b p; hi \<leftarrow> aref b (p + 1); Some (of_le16 lo hi) }"

definition htons :: "16 word \<Rightarrow> 16 word" where
  "htons w = of_le16 (ucast (drop_bit 8 w)) (ucast w)"

definition htonl :: "32 word \<Rightarrow> 32 word" where
  "htonl w = push_bit 24 w OR (push_bit 8 w AND 0xFF0000) OR (drop_bit 8 w AND 0xFF00) OR drop_bit 24 w"

lemma uint_of_le16: "uint (of_le16 lo hi) = uint lo + 256 * uint hi"
proof -
  have "uint lo < 256" "uint hi < 256" using uint_bounded [of lo] uint_bounded [of hi] by simp_all
  then show ?thesis
    by (simp add: of_le16_def uint_word_ariths unsigned_ucast_eq take_bit_int_eq_self mod_pos_pos_trivial)
qed

lemma uint_low_byte: "uint (ucast (w :: 16 word) :: byte) = uint w mod 256"
  by (simp add: unsigned_ucast_eq take_bit_eq_mod)

lemma uint_high_byte: "uint (ucast (drop_bit 8 (w :: 16 word)) :: byte) = uint w div 256"
proof -
  have w: "0 \<le> uint w" "uint w < 65536" using uint_bounded [of w] by simp_all
  have d: "uint (drop_bit 8 w) = uint w div 256" using w
    by (simp add: unsigned_drop_bit_eq) (simp add: drop_bit_eq_div take_bit_int_eq_self)
  have "uint w div 256 < 256" "0 \<le> uint w div 256" using w by (simp_all add: div_less_iff_less_mult pos_imp_zdiv_nonneg_iff)
  then show ?thesis by (simp add: unsigned_ucast_eq d take_bit_eq_mod mod_pos_pos_trivial)
qed

lemma of_le16_bytes [simp]: "of_le16 (ucast w) (ucast (drop_bit 8 w)) = w"
proof (rule word_uint_eqI)
  show "uint (of_le16 (ucast w) (ucast (drop_bit 8 w))) = uint w"
    unfolding uint_of_le16 uint_high_byte unfolding uint_low_byte by simp
qed

lemma bytes_of_le16 [simp]: "ucast (of_le16 lo hi) = lo" "ucast (drop_bit 8 (of_le16 lo hi)) = hi"
proof -
  have "uint lo < 256" "uint hi < 256" using uint_bounded [of lo] uint_bounded [of hi] by simp_all
  then have "uint (ucast (of_le16 lo hi) :: byte) = uint lo"
    "uint (ucast (drop_bit 8 (of_le16 lo hi)) :: byte) = uint hi"
    unfolding uint_high_byte unfolding uint_low_byte uint_of_le16 by (simp_all add: mod_pos_pos_trivial)
  then show "ucast (of_le16 lo hi) = lo" "ucast (drop_bit 8 (of_le16 lo hi)) = hi"
    by - (rule word_uint_eqI, assumption)+
qed

lemma le16_htons: "le16 (htons w) = rev (le16 w)"
  by (simp add: le16_def htons_def)

lemma htons_htons [simp]: "htons (htons w) = w"
  by (simp add: htons_def)

section \<open>Internet addresses\<close>

text \<open>\<open>inet_addr\<close> of a well-formed dotted address: its four bytes in memory are the four numbers.\<close>

definition inet_bytes :: "string \<Rightarrow> byte list" where
  "inet_bytes a = map (\<lambda>f. word_of_nat (digits_val f)) (split_on (CHR ''.'') a)"

section \<open>One's complement sums\<close>

text \<open>The 16-bit words of a block of bytes, a last odd byte padded with zero; their sum.\<close>

fun words16 :: "byte list \<Rightarrow> int list" where
  "words16 (a # b # bs) = (uint a + 256 * uint b) # words16 bs"
| "words16 [a] = [uint a]"
| "words16 [] = []"

definition oc_add :: "int \<Rightarrow> int \<Rightarrow> int" where
  "oc_add a b = (if a + b > 65535 then a + b - 65535 else a + b)"

definition oc_sum :: "int list \<Rightarrow> int" where
  "oc_sum ws = foldl oc_add 0 ws"

text \<open>The one's complement sum depends only on the plain sum.\<close>

definition oc_norm :: "int \<Rightarrow> int" where
  "oc_norm s = (if s = 0 then 0 else (s - 1) mod 65535 + 1)"

lemma oc_norm_range: "0 \<le> s \<Longrightarrow> 0 \<le> oc_norm s \<and> oc_norm s \<le> 65535"
  using pos_mod_bound [of 65535 "s - 1"] pos_mod_sign [of 65535 "s - 1"] by (auto simp: oc_norm_def)

lemma oc_add_norm:
  assumes "0 \<le> s" "0 \<le> w" "w \<le> 65535"
  shows "oc_add (oc_norm s) w = oc_norm (s + w)"
proof (cases "s = 0")
  case True
  then show ?thesis using assms by (auto simp: oc_add_def oc_norm_def mod_pos_pos_trivial)
next
  case False
  define q r where "q = (s - 1) div 65535" and "r = (s - 1) mod 65535"
  have s: "s = q * 65535 + r + 1" unfolding q_def r_def by (simp add: div_mult_mod_eq [symmetric])
  have r: "0 \<le> r" "r < 65535" unfolding r_def by simp_all
  have "s + w - 1 = (r + w) + q * 65535" using s by simp
  then have "(s + w - 1) mod 65535 = (r + w) mod 65535" by (simp only: mod_mult_self1)
  also have "\<dots> = (if r + w \<ge> 65535 then r + w - 65535 else r + w)"
  proof (cases "r + w \<ge> 65535")
    case True
    have "(r + w) mod 65535 = (r + w - 65535) mod 65535" by simp
    also have "\<dots> = r + w - 65535" using True r assms by (intro mod_pos_pos_trivial) auto
    finally show ?thesis using True by (simp only: if_True)
  next
    case False
    then show ?thesis using r assms by (simp add: mod_pos_pos_trivial)
  qed
  finally show ?thesis using False r assms by (auto simp: oc_add_def oc_norm_def r_def)
qed

lemma words16_range: "w \<in> set (words16 bs) \<Longrightarrow> 0 \<le> w \<and> w \<le> 65535"
proof (induction bs rule: words16.induct)
  case (1 a b bs)
  then show ?case using uint_bounded [of a] uint_bounded [of b] by auto
next
  case (2 a)
  then show ?case using uint_bounded [of a] by auto
qed simp

lemma oc_sum_norm: "oc_sum (words16 bs) = oc_norm (sum_list (words16 bs))"
proof -
  have "foldl oc_add (oc_norm s) ws = oc_norm (s + sum_list ws)"
    if "\<forall>w \<in> set ws. 0 \<le> w \<and> w \<le> 65535" "0 \<le> s" for s ws
    using that by (induction ws arbitrary: s) (auto simp: oc_add_norm add.assoc)
  from this [of "words16 bs" 0] show ?thesis using words16_range by (simp add: oc_sum_def oc_norm_def)
qed

lemma sum_words16_range: "0 \<le> sum_list (words16 bs) \<and> sum_list (words16 bs) \<le> 65535 * int (length bs)"
proof (induction bs rule: words16.induct)
  case (1 a b bs)
  then show ?case using uint_bounded [of a] uint_bounded [of b] by simp
next
  case (2 a)
  then show ?case using uint_bounded [of a] by simp
qed simp

lemma words16_append: "even (length xs) \<Longrightarrow> words16 (xs @ ys) = words16 xs @ words16 ys"
  by (induction xs rule: words16.induct) auto

end
