(* ===== verification/RawUDP.thy ===== *)
theory RawUDP
  imports Bytes
begin

text \<open>
  The clients that build the headers of their datagrams themselves, in a buffer of bytes:
  \<open>raw_socket/UDP\<close> (the UDP header), \<open>raw_socket/UDP_with_Headers\<close> (IP and UDP) and
  \<open>raw_socket/UDP_WITH_ALL_HEADERS\<close> (Ethernet, IP and UDP, with the checksum of the IP header), and
  the server they talk to.  Pointers to headers are offsets into the buffer, the assignment of a
  field is the write of its bytes in the layout of the header files of Linux.
\<close>

section \<open>Text in the buffer\<close>

definition MSG_SIZE :: nat where "MSG_SIZE = 199"

definition byte_char :: "byte \<Rightarrow> char" where
  "byte_char b = char_of (unat b)"

definition char_byte :: "char \<Rightarrow> byte" where
  "char_byte c = word_of_nat (of_char c)"

text \<open>The array \<open>message->buf\<close> at an offset of the buffer, and an operation on it.\<close>

definition msg_text :: "byte list \<Rightarrow> nat \<Rightarrow> char list" where
  "msg_text b p = map byte_char (take MSG_SIZE (drop p b))"

definition on_msg :: "byte list \<Rightarrow> nat \<Rightarrow> (char list \<Rightarrow> char list option) \<Rightarrow> byte list option" where
  "on_msg b p f =
     (if p + MSG_SIZE \<le> length b
      then do { m \<leftarrow> f (msg_text b p); wr_at b p (map char_byte m) } else None)"

section \<open>The checksum\<close>

function sum_loop :: "byte list \<Rightarrow> int \<Rightarrow> int \<Rightarrow> int \<Rightarrow> (int \<times> int \<times> int) option" where
  "sum_loop b ptr cnt s =
     (if cnt > 1 then do { w \<leftarrow> rd16 b ptr; sum_loop b (ptr + 2) (cnt - 2) (s + uint w) }
      else Some (ptr, cnt, s))"
  by pat_completeness auto
termination by (relation "measure (\<lambda>(b, ptr, cnt, s). nat cnt)") auto

declare sum_loop.simps [simp del]

definition check_sum :: "byte list \<Rightarrow> int \<Rightarrow> int \<Rightarrow> 16 word option" where
  "check_sum b ptr0 cnt0 =
     do { (ptr, cnt, s0) \<leftarrow> sum_loop b ptr0 cnt0 0;
          s1 \<leftarrow> (if cnt = 1 then do { x \<leftarrow> aref b ptr; Some (s0 + uint (of_le16 x 0)) } else Some s0);
          let s2 = drop_bit 16 s1 + (s1 AND 0xffff);
          let s3 = s2 + drop_bit 16 s2;
          Some (word_of_int (NOT s3)) }"

section \<open>Headers\<close>

definition src_mac :: "byte list" where "src_mac = [0x52, 0x54, 0x00, 0x1f, 0x80, 0x50]"
definition dest_mac :: "byte list" where "dest_mac = [0x52, 0x54, 0x00, 0x98, 0xbe, 0x64]"

text \<open>\<open>struct ether_header\<close>: destination, source, type.\<close>

function mac_loop :: "int \<Rightarrow> byte list \<Rightarrow> byte list option" where
  "mac_loop i b =
     (if i < 6 then
        do { s \<leftarrow> aref src_mac i; b1 \<leftarrow> aset b (6 + i) s;
             d \<leftarrow> aref dest_mac i; b2 \<leftarrow> aset b1 i d; mac_loop (i + 1) b2 }
      else Some b)"
  by pat_completeness auto
termination by (relation "measure (\<lambda>(i, b). nat (6 - i))") auto

declare mac_loop.simps [simp del]

definition eth_fields :: "byte list \<Rightarrow> byte list option" where
  "eth_fields b0 = do { b \<leftarrow> mac_loop 0 b0; wr_at b 12 (le16 (htons 0x0800)) }"

text \<open>\<open>struct iphdr\<close> at offset \<open>p\<close>: the version and the length share the first byte.\<close>

definition ip_fields :: "byte list \<Rightarrow> nat \<Rightarrow> 16 word \<Rightarrow> 16 word \<Rightarrow> string \<Rightarrow> string \<Rightarrow> byte list option" where
  "ip_fields b0 p tot_len ident saddr daddr =
     do { x \<leftarrow> aref b0 (int p); b1 \<leftarrow> aset b0 (int p) ((x AND 0x0F) OR push_bit 4 4);
          y \<leftarrow> aref b1 (int p); b2 \<leftarrow> aset b1 (int p) ((y AND 0xF0) OR 5);
          b3 \<leftarrow> wr_at b2 (p + 1) [0];
          b4 \<leftarrow> wr_at b3 (p + 2) (le16 tot_len);
          b5 \<leftarrow> wr_at b4 (p + 4) (le16 ident);
          b6 \<leftarrow> wr_at b5 (p + 6) (le16 0);
          b7 \<leftarrow> wr_at b6 (p + 8) [255];
          b8 \<leftarrow> wr_at b7 (p + 9) [17];
          b9 \<leftarrow> wr_at b8 (p + 10) (le16 0);
          b10 \<leftarrow> wr_at b9 (p + 12) (inet_bytes saddr);
          wr_at b10 (p + 16) (inet_bytes daddr) }"

text \<open>\<open>struct udphdr\<close> at offset \<open>p\<close>.\<close>

definition udp_fields :: "byte list \<Rightarrow> nat \<Rightarrow> 16 word \<Rightarrow> nat \<Rightarrow> byte list option" where
  "udp_fields b0 p dest n =
     do { b1 \<leftarrow> wr_at b0 p (le16 (htons 7777));
          b2 \<leftarrow> wr_at b1 (p + 2) (le16 (htons dest));
          b3 \<leftarrow> wr_at b2 (p + 4) (le16 (htons (word_of_nat n)));
          wr_at b3 (p + 6) (le16 0) }"

text \<open>
  The IP and UDP headers of a frame (\<open>sizeof(udp_header)\<close> in its length is the size of a pointer,
  which is also 8; the 32-bit \<open>htonl(12345)\<close> is stored in 16 bits).
\<close>

definition net_fields :: "byte list \<Rightarrow> byte list option" where
  "net_fields b0 =
     do { n \<leftarrow> strlen (msg_text b0 42);
          b1 \<leftarrow> ip_fields b0 14 (htons (word_of_nat (20 + 8 + n))) (ucast (htonl 12345))
                 ''192.168.122.29'' ''192.168.122.1'';
          ck \<leftarrow> check_sum b1 14 20;
          b2 \<leftarrow> wr_at b1 24 (le16 ck);
          udp_fields b2 34 8889 (8 + n) }"

section \<open>Exchanging messages\<close>

text \<open>
  What the programs ask of the system: whether the socket can be opened, whether the \<open>n\<close>-th \<open>sendto\<close>
  succeeds, and the indeterminate contents of the local arrays.
\<close>

record raw_env =
  sock_ok :: bool
  send_ok :: "nat \<Rightarrow> bool"
  j_buf :: "byte list"
  j_sec_buf :: "byte list"
  j_temp :: "char list"

text \<open>
  Where something is sent to: a host by its address, for the sockets that take IP packets; a card in the local network,
  for those that take frames; an address with its port, for a socket of a server.
\<close>

datatype dest = Host "byte list" | Link "byte list" | Peer "byte list" "16 word"

datatype net_event = Send dest "byte list" | Out string

text \<open>
  \<open>recvfrom\<close> overwrites the address it is given with the source address of the packet, which is in the IP header that
  stands at the start of the buffer.
\<close>

definition sender :: "byte list \<Rightarrow> dest" where
  "sender b = Host (take 4 (drop 12 b))"

definition recvfrom :: "nat \<Rightarrow> byte list \<Rightarrow> byte list \<Rightarrow> byte list" where
  "recvfrom cap b p = take cap p @ drop (length (take cap p)) b"

text \<open>
  The loop that waits for a packet to port 7777: the flag tells whether one has come, the list are
  the packets that arrive.
\<close>

fun await :: "nat \<Rightarrow> nat \<Rightarrow> byte list \<Rightarrow> byte list list \<Rightarrow> (bool \<times> byte list) option" where
  "await cap off b [] = Some (False, b)"
| "await cap off b (p # ps) =
     (let b' = recvfrom cap b p in
      do { d \<leftarrow> rd16 b' (int off + 2);
           if htons d = 7777 then Some (True, b') else await cap off b' ps })"

text \<open>The answer: the received text goes through \<open>temp\<close> into \<open>sec_buf\<close>, and gets a smile.\<close>

definition answer_text :: "raw_env \<Rightarrow> nat \<Rightarrow> char list \<Rightarrow> byte list option" where
  "answer_text e p m =
     do { t \<leftarrow> strcpy (j_temp e) m;
          s1 \<leftarrow> on_msg (j_sec_buf e) p (\<lambda>d. strcpy d t);
          on_msg s1 p (\<lambda>d. strcat d (lit '' =)'')) }"

definition waiting :: net_event where "waiting = Out (''Waiting message...'' @ [NL])"

section \<open>The three clients\<close>

text \<open>The result is the exit status (\<open>None\<close> while the program still waits) with what it has done.  The first of the clients
  sets the address again before it answers, the two others answer whoever sent the packet.\<close>

definition all_main :: "raw_env \<Rightarrow> byte list list \<Rightarrow> (int option \<times> net_event list) option" where
  "all_main e pkts =
     (if \<not> sock_ok e then Some (Some 1, [])
      else
        do { b1 \<leftarrow> eth_fields (j_buf e); b2 \<leftarrow> on_msg b1 42 (\<lambda>d. strcpy d (lit ''s'')); b3 \<leftarrow> net_fields b2;
             if \<not> send_ok e 0 then Some (Some 1, [])
             else
               do { b4 \<leftarrow> wr_at b3 42 (replicate MSG_SIZE 0);
                    let evs = [Send (Link src_mac) (take 43 b3), waiting];
                    (got, b5) \<leftarrow> await 10000 34 b4 pkts;
                    if \<not> got then Some (None, evs)
                    else
                      do { m \<leftarrow> rd_str (msg_text b5 42); s2 \<leftarrow> answer_text e 42 (msg_text b5 42);
                           txt \<leftarrow> rd_str (msg_text s2 42);
                           let evs = evs @ [Out (''Recieved message: '' @ m @ [NL]), Out (''Sent message: '' @ txt @ [NL])];
                           s3 \<leftarrow> eth_fields s2; s4 \<leftarrow> net_fields s3; n \<leftarrow> strlen (msg_text s4 42);
                           if \<not> send_ok e 1 then Some (Some 1, evs)
                           else Some (Some 0, evs @ [Send (Link src_mac) (take (42 + n) s4), Out (''Message sent.'' @ [NL])]) } } })"

text \<open>\<open>raw_socket/UDP_with_Headers\<close>: the kernel fills the length and the checksum of the IP header.\<close>

definition hdr_fields :: "byte list \<Rightarrow> byte list option" where
  "hdr_fields b0 = ip_fields b0 0 0 0 ''127.0.0.2'' ''127.0.0.2''"

definition hdr_main :: "raw_env \<Rightarrow> bool \<Rightarrow> byte list list \<Rightarrow> (int option \<times> net_event list) option" where
  "hdr_main e opt_ok pkts =
     (if \<not> sock_ok e then Some (Some 1, [])
      else
        do { b1 \<leftarrow> hdr_fields (j_buf e);
             if \<not> opt_ok then Some (Some 1, [])
             else
               do { b2 \<leftarrow> udp_fields b1 20 8888 (8 + 1); b3 \<leftarrow> on_msg b2 28 (\<lambda>d. strcpy d (lit ''s''));
                    if \<not> send_ok e 0 then Some (Some 1, [])
                    else
                      do { b4 \<leftarrow> wr_at b3 28 (replicate MSG_SIZE 0);
                           let evs = [Send (Host (inet_bytes ''127.0.0.2'')) (take 29 b3), waiting];
                           (got, b5) \<leftarrow> await 1000 20 b4 pkts;
                           if \<not> got then Some (None, evs)
                           else
                             do { m \<leftarrow> rd_str (msg_text b5 28); s2 \<leftarrow> answer_text e 28 (msg_text b5 28);
                                  txt \<leftarrow> rd_str (msg_text s2 28);
                                  let evs = evs @ [Out (''Recieved message: '' @ m @ [NL]),
                                    Out (''Sent message: '' @ txt @ [NL])];
                                  s3 \<leftarrow> hdr_fields s2; n \<leftarrow> strlen (msg_text s3 28); s4 \<leftarrow> udp_fields s3 20 8888 (8 + n);
                                  k \<leftarrow> strlen (msg_text s4 28);
                                  if \<not> send_ok e 1 then Some (Some 1, evs)
                                  else Some (Some 0, evs @ [Send (sender b5) (take (28 + k) s4), Out (''Message sent.'' @ [NL])]) } } } })"

text \<open>
  \<open>raw_socket/UDP\<close>: the kernel writes the whole IP header, so a packet is sent without it and
  received with it.  The result of \<open>socket\<close> is not tested; without a socket \<open>sendto\<close> fails.
\<close>

definition udp_main :: "raw_env \<Rightarrow> byte list list \<Rightarrow> (int option \<times> net_event list) option" where
  "udp_main e pkts =
     do { b1 \<leftarrow> udp_fields (j_buf e) 0 8888 (8 + 1); b2 \<leftarrow> on_msg b1 8 (\<lambda>d. strcpy d (lit ''s''));
          if \<not> (sock_ok e \<and> send_ok e 0) then Some (Some 1, [])
          else
            do { b3 \<leftarrow> wr_at b2 8 (replicate MSG_SIZE 0);
                 let evs = [Send (Host (inet_bytes ''127.0.0.2'')) (take 9 b2), waiting];
                 (got, b4) \<leftarrow> await 1000 20 b3 pkts;
                 if \<not> got then Some (None, evs)
                 else
                   do { m \<leftarrow> rd_str (msg_text b4 28); s2 \<leftarrow> answer_text e 8 (msg_text b4 28);
                        txt \<leftarrow> rd_str (msg_text s2 8);
                        let evs = evs @ [Out (''Recieved message: '' @ m @ [NL]), Out (''Sent message: '' @ txt @ [NL])];
                        n \<leftarrow> strlen (msg_text s2 8); s3 \<leftarrow> udp_fields s2 0 8888 (8 + n);
                        k \<leftarrow> strlen (msg_text s3 8);
                        if \<not> send_ok e 1 then Some (Some 1, evs)
                        else Some (Some 0, evs @ [Send (sender b4) (take (8 + k) s3), Out (''Message sent.'' @ [NL])]) } } }"

section \<open>The server\<close>

text \<open>
  \<open>raw_socket/UDP/server.c\<close> after its handlers are installed; \<open>RawServers\<close> has the three programs.  \<open>pkts\<close> are the
  payloads that arrive, with the address and port of their senders, \<open>j\<close> the first contents of the array \<open>buf\<close>, \<open>bound\<close> whether \<open>bind\<close> succeeds.
\<close>

definition server_main :: "char list \<Rightarrow> bool \<Rightarrow> ((byte list \<times> 16 word) \<times> byte list) list \<Rightarrow> (int option \<times> net_event list) option" where
  "server_main j bound pkts =
     (if \<not> bound then Some (Some 1, [])
      else
        let evs = [Out (''Waiting conection...'' @ [NL])] in
        case pkts of
          [] \<Rightarrow> Some (None, evs)
        | ((a, q), c) # pkts' \<Rightarrow>
            do { b1 \<leftarrow> strcpy j (lit ''Hello!''); n \<leftarrow> strlen b1;
                 let evs = evs @ [Out (''Sent message: Hello!'' @ [NL]), Send (Peer a q) (map char_byte (take n b1)),
                   Out (''Message sent.'' @ [NL]), waiting];
                 b2 \<leftarrow> wr_at b1 0 (replicate MSG_SIZE NUL);
                 (case pkts' of
                    [] \<Rightarrow> Some (None, evs)
                  | (_, p) # _ \<Rightarrow>
                      do { m \<leftarrow> rd_str (map byte_char (recvfrom MSG_SIZE (map char_byte b2) p));
                           Some (Some 0, evs @ [Out (''Recieved message: '' @ m @ [NL])]) }) })"

end
