(* ===== verification/RawUDP_Correct.thy ===== *)
theory RawUDP_Correct
  imports RawUDP
begin

text \<open>
  Correctness of the clients with raw sockets: the checksum is the one's complement checksum of
  RFC 1071 and verifies, the frames have the intended bytes, and each client answers the first
  packet for its port with the received text and a smile.
\<close>

section \<open>The checksum\<close>

lemma sum_loop_sums:
  assumes "p + n \<le> length b"
  shows "\<exists>s'. sum_loop b (int p) (int n) s = Some (int (p + n - n mod 2), int (n mod 2), s') \<and>
    s' + (if odd n then uint (b ! (p + n - 1)) else 0) = s + sum_list (words16 (take n (drop p b)))"
  using assms
proof (induction n arbitrary: p s rule: less_induct)
  case (less n)
  show ?case
  proof (cases "n \<ge> 2")
    case False
    then consider "n = 0" | "n = 1" by linarith
    then show ?thesis
    proof cases
      case 1
      then show ?thesis by (subst sum_loop.simps) simp
    next
      case 2
      then have "take 1 (drop p b) = [b ! p]" using less.prems by (simp add: take_Suc_conv_app_nth)
      then show ?thesis using 2 by (subst sum_loop.simps) simp
    qed
  next
    case True
    then obtain m where n: "n = Suc (Suc m)" by (metis Suc_diff_Suc Suc_1 Suc_le_D le_Suc_eq not_less_eq_eq numeral_2_eq_2)
    have p: "Suc p < length b" using less.prems n by simp
    have d: "drop p b = b ! p # b ! Suc p # drop (p + 2) b"
      using p by (simp add: Cons_nth_drop_Suc)
    have w: "rd16 b (int p) = Some (of_le16 (b ! p) (b ! Suc p))"
    proof -
      have "nat (int p + 1) = Suc p" by simp
      then show ?thesis using p by (simp add: rd16_def aref_def)
    qed
    have e: "int p + 2 = int (p + 2)" "int n - 2 = int m" using n by simp_all
    let ?s = "s + uint (of_le16 (b ! p) (b ! Suc p))"
    obtain s' where s': "sum_loop b (int (p + 2)) (int m) ?s = Some (int (p + 2 + m - m mod 2), int (m mod 2), s')"
      "s' + (if odd m then uint (b ! (p + 2 + m - 1)) else 0) = ?s + sum_list (words16 (take m (drop (p + 2) b)))"
      using less.IH [of m "p + 2" ?s] n less.prems by auto
    have "sum_loop b (int p) (int n) s = sum_loop b (int (p + 2)) (int m) ?s"
      using n w by (subst sum_loop.simps) (simp add: e)
    moreover have "p + n - 1 = p + 2 + m - 1" "n mod 2 = m mod 2" "odd n = odd m" using n by simp_all
    ultimately show ?thesis using s' n d by (simp only: e) (simp add: uint_of_le16)
  qed
qed

lemma fold_carry:
  assumes "0 \<le> s" "s < 4294967296"
  shows "word_of_int (NOT (drop_bit 16 s + (s AND 0xffff) + drop_bit 16 (drop_bit 16 s + (s AND 0xffff))))
    = (word_of_int (65535 - oc_norm s) :: 16 word)"
proof -
  define q r where "q = s div 65536" and "r = s mod 65536"
  have s: "s = q * 65536 + r" by (simp add: q_def r_def)
  have "q < 65536" using assms by (simp add: q_def div_less_iff_less_mult)
  moreover have "0 \<le> q" using assms(1) by (simp add: q_def pos_imp_zdiv_nonneg_iff)
  ultimately have q: "0 \<le> q" "q \<le> 65535" by simp_all
  have r: "0 \<le> r" "r \<le> 65535" using pos_mod_bound [of 65536 s] by (simp_all add: r_def)
  have m: "s AND 0xffff = take_bit 16 s" by (simp add: take_bit_eq_mask mask_eq_exp_minus_1)
  have d: "drop_bit 16 s = q" "s AND 0xffff = r"
    unfolding m by (simp_all add: q_def r_def drop_bit_eq_div take_bit_eq_mod)
  have n: "oc_norm s = (if s = 0 then 0 else if q + r \<le> 65535 then q + r else q + r - 65535)"
  proof (cases "s = 0")
    case False
    have "s - 1 = (q + r - 1) + q * 65535" using s by simp
    then have "(s - 1) mod 65535 = (q + r - 1) mod 65535" by (simp only: mod_mult_self1)
    also have "\<dots> = (if q + r \<le> 65535 then q + r - 1 else q + r - 1 - 65535)"
    proof (cases "q + r \<le> 65535")
      case True
      then show ?thesis using False s q r by (auto intro!: mod_pos_pos_trivial)
    next
      case False
      have "(q + r - 1) mod 65535 = (q + r - 1 - 65535) mod 65535" by (simp only: minus_mod_self2)
      also have "\<dots> = q + r - 1 - 65535" using False q r by (intro mod_pos_pos_trivial) auto
      finally show ?thesis using False by simp
    qed
    finally show ?thesis using False by (simp add: oc_norm_def)
  qed (simp add: oc_norm_def)
  have c: "drop_bit 16 (q + r) = (if q + r \<le> 65535 then 0 else 1)"
  proof -
    have "(q + r) div 65536 = (if q + r \<le> 65535 then 0 else 1)"
      using q r by (auto simp: div_pos_pos_trivial div_pos_geq)
    then show ?thesis by (simp add: drop_bit_eq_div)
  qed
  have z: "q = 0 \<and> r = 0" if "s = 0" using that by (simp add: q_def r_def)
  have "NOT (q + r + (if q + r \<le> 65535 then 0 else 1)) mod 65536 = (65535 - oc_norm s) mod 65536"
  proof (cases "s = 0")
    case True
    then show ?thesis using z by (simp add: oc_norm_def)
  next
    case False
    have k: "NOT k mod 65536 = (65535 - k) mod 65536" "NOT (k + 1) mod 65536 = (65535 - (k - 65535)) mod 65536" for k :: int
      by (simp_all add: not_int_def mod_eq_dvd_iff)
    show ?thesis using False n k [of "q + r"] by simp
  qed
  then have "word_of_int (NOT (q + r + (if q + r \<le> 65535 then 0 else 1))) = (word_of_int (65535 - oc_norm s) :: 16 word)"
    by (simp only: word_of_int_eq_iff take_bit_eq_mod) simp
  then show ?thesis unfolding d c .
qed

text \<open>\<open>check_sum\<close> of a block of at most 65536 bytes.\<close>

lemma check_sum_norm:
  assumes "p + n \<le> length b" "n \<le> 65536"
  shows "check_sum b (int p) (int n) = Some (word_of_int (65535 - oc_norm (sum_list (words16 (take n (drop p b))))))"
proof -
  let ?S = "sum_list (words16 (take n (drop p b)))"
  obtain s' where s': "sum_loop b (int p) (int n) 0 = Some (int (p + n - n mod 2), int (n mod 2), s')"
    "s' + (if odd n then uint (b ! (p + n - 1)) else 0) = 0 + ?S"
    using sum_loop_sums [OF assms(1), of 0] by blast
  have S: "0 \<le> ?S" "?S < 4294967296"
    using sum_words16_range [of "take n (drop p b)"] assms(2) by (auto simp: min_def split: if_splits)
  note f = fold_carry [OF S]
  show ?thesis
  proof (cases "odd n")
    case False
    then have "n mod 2 = 0" "s' = ?S" using s'(2) by (auto elim: oddE)
    then show ?thesis using s'(1) f by (simp add: check_sum_def Let_def)
  next
    case True
    then have n: "n mod 2 = 1" "0 < n" "s' + uint (b ! (p + n - 1)) = ?S" using s'(2) by (auto simp: odd_iff_mod_2_eq_one odd_pos)
    have "nat (int (p + n - 1)) = p + n - 1" by (rule nat_int)
    then have a: "aref b (int (p + n - 1)) = Some (b ! (p + n - 1))" using n assms(1) by (simp only: aref_def) simp
    have e: "int (p + n - n mod 2) = int (p + n - 1)" using n(1) by simp
    have "uint (of_le16 (b ! (p + n - 1)) 0) = uint (b ! (p + n - 1))" by (simp add: uint_of_le16)
    then show ?thesis using s'(1) f n a by (simp only: check_sum_def Let_def e) simp
  qed
qed

text \<open>The block with its checksum in place of a zero word sums up to all ones.\<close>

lemma words16_put:
  assumes "even k" "k + 2 \<le> length c" "c ! k = 0" "c ! Suc k = 0"
  shows "sum_list (words16 (c[k := ucast w, Suc k := ucast (drop_bit 8 w)])) = sum_list (words16 c) + uint (w :: 16 word)"
proof -
  have c: "c = take k c @ 0 # 0 # drop (k + 2) c"
    using assms by (metis Cons_nth_drop_Suc Suc_eq_plus1 Suc_le_lessD add_2_eq_Suc' append_take_drop_id Suc_lessD)
  have l: "length (take k c) = k" using assms(2) by simp
  have "c[k := ucast w, Suc k := ucast (drop_bit 8 w)] = take k c @ ucast w # ucast (drop_bit 8 w) # drop (k + 2) c"
    using l by (subst c) (simp add: list_update_append)
  moreover have "words16 (take k c @ ucast w # ucast (drop_bit 8 w) # drop (k + 2) c) =
      words16 (take k c) @ uint w # words16 (drop (k + 2) c)"
    using assms(1) l uint_of_le16 [of "ucast w :: byte" "ucast (drop_bit 8 w)"]
    by (simp add: words16_append)
  moreover have "sum_list (words16 c) = sum_list (words16 (take k c)) + sum_list (words16 (drop (k + 2) c))"
    using assms(1) l by (subst c) (simp add: words16_append)
  ultimately show ?thesis by simp
qed

lemma oc_norm_complement:
  assumes "0 \<le> s"
  shows "oc_norm (s + (65535 - oc_norm s)) = 65535"
proof (cases "s = 0")
  case False
  define q r where "q = (s - 1) div 65535" and "r = (s - 1) mod 65535"
  have s: "s = q * 65535 + r + 1" unfolding q_def r_def by (simp add: div_mult_mod_eq [symmetric])
  have q: "0 \<le> q" using assms False by (simp add: q_def pos_imp_zdiv_nonneg_iff)
  have "oc_norm s = r + 1" using False by (simp add: oc_norm_def r_def)
  then have e: "s + (65535 - oc_norm s) = (q + 1) * 65535" using s by simp
  have "(q + 1) * 65535 - 1 = 65534 + q * 65535" by simp
  then have "((q + 1) * 65535 - 1) mod 65535 = 65534 mod 65535" by (simp only: mod_mult_self1)
  then show ?thesis unfolding e using q by (simp add: oc_norm_def)
qed (simp add: oc_norm_def)


section \<open>Headers\<close>

text \<open>A buffer is filled from the left: what is written, then the rest of what was there.\<close>

lemma wr_next:
  "length pre = p \<Longrightarrow> length bs \<le> length r \<Longrightarrow>
   wr_at (pre @ r) p bs = Some ((pre @ bs) @ drop (length bs) r)"
  by (simp add: wr_at_def)

lemma aref_next: "length pre = p \<Longrightarrow> r \<noteq> [] \<Longrightarrow> aref (pre @ r) (int p) = Some (hd r)"
  by (cases r) (simp_all add: aref_def nth_append)

lemma aset_wr_at: "aset b (int p) v = wr_at b p [v]"
  by (simp add: aset_def wr_at_def upd_conv_take_nth_drop)

lemma version_ihl: "((x AND 0x0F OR 64) AND 0xF0) OR 5 = (0x45 :: byte)"
  by (simp add: bit.conj_disj_distrib2 and.assoc)

definition ip_bytes :: "16 word \<Rightarrow> 16 word \<Rightarrow> string \<Rightarrow> string \<Rightarrow> byte list" where
  "ip_bytes tot_len ident saddr daddr =
     [0x45, 0] @ le16 tot_len @ le16 ident @ [0, 0, 255, 17, 0, 0] @ inet_bytes saddr @ inet_bytes daddr"

definition udp_bytes :: "16 word \<Rightarrow> nat \<Rightarrow> byte list" where
  "udp_bytes dest n = le16 (htons 7777) @ le16 (htons dest) @ le16 (htons (word_of_nat n)) @ [0, 0]"

definition eth_bytes :: "byte list" where
  "eth_bytes = dest_mac @ src_mac @ le16 (htons 0x0800)"

lemma length_le16 [simp]: "length (le16 w) = 2"
  by (simp add: le16_def)

lemma length_headers [simp]:
  "length (udp_bytes d n) = 8" "length eth_bytes = 14"
  "length (inet_bytes x) = 4 \<Longrightarrow> length (inet_bytes y) = 4 \<Longrightarrow> length (ip_bytes t i x y) = 20"
  by (simp_all add: udp_bytes_def eth_bytes_def ip_bytes_def dest_mac_def src_mac_def)

lemma udp_fields_write:
  assumes "length pre = p" "8 \<le> length r"
  shows "udp_fields (pre @ r) p dest n = Some (pre @ udp_bytes dest n @ drop 8 r)"
proof -
  have "udp_fields (pre @ r) p dest n = Some ((((pre @ le16 (htons 7777)) @ le16 (htons dest)) @
      le16 (htons (word_of_nat n))) @ le16 0 @ drop 8 r)"
    using assms by (simp add: udp_fields_def wr_next del: append_assoc)
  then show ?thesis by (simp add: udp_bytes_def) (simp add: le16_def)
qed

lemma ip_fields_write:
  assumes "length pre = p" "20 \<le> length r" "length (inet_bytes sa) = 4" "length (inet_bytes da) = 4"
  shows "ip_fields (pre @ r) p t i sa da = Some (pre @ ip_bytes t i sa da @ drop 20 r)"
proof -
  have r: "aref (pre @ r) (int p) = Some (hd r)" using assms by (intro aref_next) auto
  have a: "wr_at (pre @ r) p [v] = Some (pre @ v # drop (Suc 0) r)" for v using assms by (simp add: wr_next)
  have r2: "aref (pre @ v # drop (Suc 0) r) (int p) = Some v" for v using assms by (simp add: aref_next)
  have a2: "wr_at (pre @ v # drop (Suc 0) r) p [u] = Some ((pre @ [u]) @ drop (Suc 0) r)" for v u using assms by (simp add: wr_at_def)
  have "ip_fields (pre @ r) p t i sa da = Some ((((((((((pre @ [0x45]) @ [0]) @ le16 t) @ le16 i) @ le16 0) @ [255]) @ [17]) @
      le16 0) @ inet_bytes sa) @ inet_bytes da @ drop 20 r)"
    using assms by (simp add: ip_fields_def aset_wr_at r a r2 a2 version_ihl wr_next del: append_assoc)
  then show ?thesis by (simp add: ip_bytes_def) (simp add: le16_def)
qed


section \<open>Text in the buffer\<close>

lemma byte_char_byte [simp]: "byte_char (char_byte c) = c"
  by (simp add: byte_char_def char_byte_def unat_of_nat of_char_mod_256 unsigned_of_nat take_bit_eq_mod)

lemma char_byte_char [simp]: "char_byte (byte_char b) = b"
proof -
  have "unat b < 256" using unsigned_less [of b] by simp
  then show ?thesis by (simp add: byte_char_def char_byte_def)
qed

definition text_bytes :: "string \<Rightarrow> byte list" where
  "text_bytes s = map char_byte (lit s)"

lemma length_text_bytes [simp]: "length (text_bytes s) = Suc (length s)"
  by (simp add: text_bytes_def lit_def)

text \<open>An array that holds a text, somewhere in the buffer.\<close>

lemma msg_text_at:
  assumes "length pre = p" "NUL \<notin> set s" "length s < MSG_SIZE"
  shows "NUL \<in> set (msg_text (pre @ text_bytes s @ r) p)" "cstr (msg_text (pre @ text_bytes s @ r) p) = s"
proof -
  have "msg_text (pre @ text_bytes s @ r) p = s @ NUL # map byte_char (take (MSG_SIZE - Suc (length s)) r)"
    using assms(1,3) by (simp add: msg_text_def text_bytes_def lit_def comp_def take_Cons')
  then show "NUL \<in> set (msg_text (pre @ text_bytes s @ r) p)" "cstr (msg_text (pre @ text_bytes s @ r) p) = s"
    using assms(2) by (simp_all add: cstr_lit)
qed

lemma drop_take_rest: "k \<le> n \<Longrightarrow> drop k (take n r) @ drop n r = drop k r"
proof -
  assume "k \<le> n"
  then have "drop n r = drop (n - k) (drop k r)" by simp
  then show ?thesis by (simp only: drop_take append_take_drop_id)
qed

lemma on_msg_strcpy:
  assumes "length pre = p" "MSG_SIZE \<le> length r" "NUL \<in> set src" "cstr src = s" "length s < MSG_SIZE"
  shows "on_msg (pre @ r) p (\<lambda>d. strcpy d src) = Some (pre @ text_bytes s @ drop (Suc (length s)) r)"
proof -
  have d: "msg_text (pre @ r) p = map byte_char (take MSG_SIZE r)" using assms(1) by (simp add: msg_text_def)
  let ?t = "drop (Suc (length s)) (map byte_char (take MSG_SIZE r))"
  have "strcpy (msg_text (pre @ r) p) src = Some ((s @ [NUL]) @ ?t)"
    using assms by (simp add: d strcpy_def cmem)
  moreover have "map char_byte ((s @ [NUL]) @ ?t) = text_bytes s @ drop (Suc (length s)) (take MSG_SIZE r)"
    by (simp add: text_bytes_def lit_def drop_map comp_def)
  ultimately show ?thesis using assms drop_take_rest [of "Suc (length s)" MSG_SIZE r]
    by (simp add: on_msg_def wr_next)
qed

lemma on_msg_strcat:
  assumes "length pre = p" "MSG_SIZE \<le> Suc (length s) + length r" "NUL \<notin> set s" "NUL \<notin> set u"
    and "length s + length u < MSG_SIZE"
  shows "on_msg (pre @ text_bytes s @ r) p (\<lambda>d. strcat d (lit u)) = Some (pre @ text_bytes (s @ u) @ drop (length u) r)"
proof -
  let ?b = "pre @ text_bytes s @ r" and ?t = "map byte_char (take (MSG_SIZE - Suc (length s)) r)"
  have l: "length s < MSG_SIZE" using assms(5) by simp
  note m = msg_text_at [OF assms(1,3) l, of r]
  have d: "msg_text ?b p = s @ NUL # ?t"
    using assms(1) l by (simp add: msg_text_def text_bytes_def lit_def comp_def take_Cons')
  have "NUL \<in> set (s @ NUL # ?t)" "cstr (s @ NUL # ?t) = s" "rd_str (lit u) = Some u"
    using assms(3,4) by (simp_all add: cstr_lit cmem)
  then have "strcat (msg_text ?b p) (lit u) = Some (s @ (u @ [NUL]) @ drop (length u) ?t)"
    using assms(2,5) by (simp add: d strcat_def cmem wr_at_def)
  moreover have "map char_byte (s @ (u @ [NUL]) @ drop (length u) ?t) =
      text_bytes (s @ u) @ drop (length u) (take (MSG_SIZE - Suc (length s)) r)"
    by (simp add: text_bytes_def lit_def drop_map comp_def)
  moreover have "wr_at ?b p (text_bytes (s @ u) @ drop (length u) (take (MSG_SIZE - Suc (length s)) r)) =
      Some (pre @ text_bytes (s @ u) @ drop (length u) r)"
    using assms(1,2,5) drop_take_rest [of "length u" "MSG_SIZE - Suc (length s)" r]
    by (simp add: wr_next)
  ultimately show ?thesis using assms(1,2) by (simp add: on_msg_def)
qed


section \<open>The headers of the frame\<close>

lemma inet_bytes_lits [simp]:
  "inet_bytes ''192.168.122.29'' = [192, 168, 122, 29]" "inet_bytes ''192.168.122.1'' = [192, 168, 122, 1]"
  "inet_bytes ''127.0.0.2'' = [127, 0, 0, 2]"
  by (simp_all add: inet_bytes_def digits_val_def)

lemma htonl_12345 [simp]: "(ucast (htonl 12345) :: 16 word) = 0"
  by (simp add: htonl_def)

lemma eth_fields_write:
  assumes "14 \<le> length r"
  shows "eth_fields r = Some (eth_bytes @ drop 14 r)"
proof -
  obtain b0 b1 b2 b3 b4 b5 b6 b7 b8 b9 b10 b11 q where
    r: "r = b0 # b1 # b2 # b3 # b4 # b5 # b6 # b7 # b8 # b9 # b10 # b11 # q" and q: "2 \<le> length q"
    using assms by (auto simp: Suc_le_length_iff numeral_eq_Suc)
  have "mac_loop 0 r = Some (dest_mac @ src_mac @ q)"
    unfolding r by (simp add: mac_loop.simps aref_def aset_def src_mac_def dest_mac_def)
  then show ?thesis using q unfolding eth_fields_def r by (simp add: wr_at_def eth_bytes_def dest_mac_def src_mac_def le16_def numeral_2_eq_2)
qed


text \<open>What \<open>net_fields\<close> writes for a text of \<open>n\<close> characters; the checksum sits at bytes 10 and 11.\<close>

definition frame_ip :: "nat \<Rightarrow> byte list" where
  "frame_ip n = ip_bytes (htons (word_of_nat (20 + 8 + n))) 0 ''192.168.122.29'' ''192.168.122.1''"

definition frame_check :: "nat \<Rightarrow> 16 word" where
  "frame_check n = word_of_int (65535 - oc_norm (sum_list (words16 (frame_ip n))))"

definition frame_bytes :: "nat \<Rightarrow> byte list" where
  "frame_bytes n = (frame_ip n)[10 := ucast (frame_check n), 11 := ucast (drop_bit 8 (frame_check n))] @ udp_bytes 8889 (8 + n)"

lemma frame_ip_split: "frame_ip n = take 10 (frame_ip n) @ [0, 0] @ drop 12 (frame_ip n)"
  by (simp add: frame_ip_def ip_bytes_def le16_def)

lemma length_frame [simp]: "length (frame_ip n) = 20" "length (frame_bytes n) = 28"
  by (simp_all add: frame_bytes_def frame_ip_def)

lemma net_fields_write:
  assumes "length pre = 14" "length r = 28" "NUL \<notin> set s" "length s < MSG_SIZE"
  shows "net_fields (pre @ r @ text_bytes s @ q) = Some (pre @ frame_bytes (length s) @ text_bytes s @ q)"
proof -
  let ?n = "length s" and ?q = "drop 20 r @ text_bytes s @ q"
  have n: "strlen (msg_text (pre @ r @ text_bytes s @ q) 42) = Some ?n"
    using msg_text_at [of "pre @ r" 42 s q] assms by (simp add: cmem)
  have i: "ip_fields (pre @ r @ text_bytes s @ q) 14 (htons (word_of_nat (20 + 8 + ?n))) 0
      ''192.168.122.29'' ''192.168.122.1'' = Some (pre @ frame_ip ?n @ ?q)"
    using ip_fields_write [of pre 14 "r @ text_bytes s @ q"] assms(1,2) by (simp add: frame_ip_def)
  have c: "check_sum (pre @ frame_ip ?n @ ?q) 14 20 = Some (frame_check ?n)"
    using check_sum_norm [of 14 20 "pre @ frame_ip ?n @ ?q"] assms(1) by (simp add: frame_check_def)
  have w: "wr_at (pre @ frame_ip ?n @ ?q) 24 (le16 w) =
      Some (pre @ (frame_ip ?n)[10 := ucast w, 11 := ucast (drop_bit 8 w)] @ ?q)" for w
  proof -
    have "length (pre @ take 10 (frame_ip ?n)) = 24" using assms(1) by simp
    then have x: "wr_at ((pre @ take 10 (frame_ip ?n)) @ [0, 0] @ drop 12 (frame_ip ?n) @ ?q) 24 (le16 w) =
        Some (pre @ (take 10 (frame_ip ?n) @ le16 w @ drop 12 (frame_ip ?n)) @ ?q)"
      by (subst wr_next) simp_all
    have y: "pre @ frame_ip ?n @ ?q = (pre @ take 10 (frame_ip ?n)) @ [0, 0] @ drop 12 (frame_ip ?n) @ ?q"
      by (subst frame_ip_split) simp
    have z: "(frame_ip ?n)[10 := ucast w, 11 := ucast (drop_bit 8 w)] = take 10 (frame_ip ?n) @ le16 w @ drop 12 (frame_ip ?n)"
      by (subst (1) frame_ip_split) (simp add: list_update_append le16_def)
    show ?thesis unfolding y x z ..
  qed
  have u: "udp_fields ((pre @ (frame_ip ?n)[10 := a, 11 := b]) @ ?q) 34 8889 (8 + ?n) =
      Some ((pre @ (frame_ip ?n)[10 := a, 11 := b]) @ udp_bytes 8889 (8 + ?n) @ text_bytes s @ q)" for a b
    using assms(1,2) by (subst udp_fields_write) simp_all
  show ?thesis using n i c w u by (simp add: net_fields_def frame_bytes_def)
qed

end
