(* ===== verification/RawUDP_Main.thy ===== *)
theory RawUDP_Main
  imports RawUDP_Correct
begin

text \<open>
  The clients as a whole: the interface \<open>header_writer\<close> of the code that puts headers in front of a
  text, its three interpretations, the loop that waits for a packet, and the sessions of the clients.
\<close>

section \<open>Waiting\<close>

definition port :: "nat \<Rightarrow> byte list \<Rightarrow> 16 word" where
  "port off p = htons (of_le16 (p ! (off + 2)) (p ! (off + 3)))"

lemma rd16_port: "off + 4 \<le> length b \<Longrightarrow> rd16 b (int off + 2) = Some (of_le16 (b ! (off + 2)) (b ! (off + 3)))"
  by (simp add: rd16_def aref_def nat_add_distrib add.commute)

text \<open>Packets to other ports that are not longer than the one awaited leave no trace.\<close>

lemma await_answered:
  assumes "\<forall>x \<in> set ps. off + 4 \<le> length x \<and> length x \<le> length p \<and> port off x \<noteq> 7777"
    and "off + 4 \<le> length p" "length p \<le> cap" "port off p = 7777" "length b = cap"
  shows "await cap off b (ps @ p # rest) = Some (True, p @ drop (length p) b)"
  using assms
proof (induction ps arbitrary: b)
  case Nil
  let ?b = "p @ drop (length p) b"
  have "rd16 ?b (int off + 2) = Some (of_le16 (p ! (off + 2)) (p ! (off + 3)))"
    using Nil.prems by (subst rd16_port) (simp_all add: nth_append)
  then show ?case using Nil.prems by (simp add: recvfrom_def port_def Let_def)
next
  case (Cons x ps)
  let ?b = "x @ drop (length x) b"
  have x: "off + 4 \<le> length x" "length x \<le> length p" "port off x \<noteq> 7777" using Cons.prems(1) by simp_all
  have r: "rd16 ?b (int off + 2) = Some (of_le16 (x ! (off + 2)) (x ! (off + 3)))"
    using Cons.prems x by (subst rd16_port) (simp_all add: nth_append)
  have "await cap off ?b (ps @ p # rest) = Some (True, p @ drop (length p) ?b)"
    using Cons.prems x by (intro Cons.IH) auto
  moreover have "drop (length p) ?b = drop (length p) b" using x by simp
  ultimately show ?case using r x Cons.prems by (simp add: recvfrom_def port_def Let_def)
qed

text \<open>The array of the message was cleared, so the text of the packet ends in it.\<close>

lemma received_text:
  assumes "length h = k" "b = pre @ replicate MSG_SIZE 0 @ q" "length pre = k" "length m < MSG_SIZE" "p = h @ map char_byte m"
  shows "\<exists>q'. p @ drop (length p) b = h @ text_bytes m @ q'"
proof -
  have "MSG_SIZE - length m = Suc (MSG_SIZE - Suc (length m))" using assms(4) by simp
  then have "drop (length m) (replicate MSG_SIZE 0) = 0 # replicate (MSG_SIZE - Suc (length m)) (0 :: byte)"
    by (metis drop_replicate replicate_Suc)
  then have "p @ drop (length p) b = h @ text_bytes m @ replicate (MSG_SIZE - Suc (length m)) 0 @ q"
    using assms by (simp add: text_bytes_def lit_def char_byte_def NUL_def)
  then show ?thesis by blast
qed

section \<open>Headers in front of a text\<close>

locale header_writer =
  fixes fill :: "byte list \<Rightarrow> byte list option" and hlen :: nat and hdr :: "nat \<Rightarrow> byte list"
  assumes length_hdr: "length (hdr n) = hlen"
    and fill: "length r = hlen \<Longrightarrow> NUL \<notin> set s \<Longrightarrow> length s < MSG_SIZE \<Longrightarrow>
      fill (r @ text_bytes s @ q) = Some (hdr (length s) @ text_bytes s @ q)"
begin

lemma reply:
  assumes "length (j_temp e) = MSG_SIZE" "hlen + MSG_SIZE \<le> length (j_sec_buf e)"
    and "NUL \<in> set m" "cstr m = s" "length s + 3 < MSG_SIZE"
  obtains s2 s4 where "answer_text e hlen m = Some s2" "rd_str (msg_text s2 hlen) = Some (s @ '' =)'')" "fill s2 = Some s4"
    "strlen (msg_text s4 hlen) = Some (length s + 3)"
    "take (hlen + (length s + 3)) s4 = hdr (length s + 3) @ map char_byte (s @ '' =)'')"
proof -
  let ?r = "take hlen (j_sec_buf e)" and ?q = "drop hlen (j_sec_buf e)" and ?t = "s @ '' =)''"
  have n: "NUL \<notin> set s" "NUL \<notin> set ?t" "NUL \<notin> set '' =)''" "length ?t < MSG_SIZE"
    using assms(4,5) NUL_notin_cstr [of m] by (auto simp: NUL_def)
  obtain t where t: "strcpy (j_temp e) m = Some t" "NUL \<in> set t" "cstr t = s"
    using strcpy_Some [OF assms(3), of "j_temp e"] assms(1,4,5) by auto
  have r: "length ?r = hlen" using assms(2) by simp
  have "on_msg (?r @ ?q) hlen (\<lambda>d. strcpy d t) = Some (?r @ text_bytes s @ drop (Suc (length s)) ?q)"
    using assms(2,5) t by (intro on_msg_strcpy) auto
  moreover have "on_msg (?r @ text_bytes s @ drop (Suc (length s)) ?q) hlen (\<lambda>d. strcat d (lit '' =)'')) =
      Some (?r @ text_bytes ?t @ drop (length '' =)'') (drop (Suc (length s)) ?q))"
    using assms(2,5) n by (intro on_msg_strcat) auto
  ultimately obtain q where a: "answer_text e hlen m = Some (?r @ text_bytes ?t @ q)"
    using t(1) by (auto simp: answer_text_def)
  note f = fill [OF r n(2,4), of q]
  have x: "rd_str (msg_text (?r @ text_bytes ?t @ q) hlen) = Some ?t"
    using msg_text_at [OF r n(2,4), of q] by (simp add: cmem)
  have y: "strlen (msg_text (hdr (length ?t) @ text_bytes ?t @ q) hlen) = Some (length s + 3)"
    using msg_text_at [OF length_hdr n(2,4), of "length ?t" q] by (simp add: cmem)
  have "take (hlen + (length s + 3)) (hdr (length ?t) @ text_bytes ?t @ q) = hdr (length s + 3) @ map char_byte ?t"
    using length_hdr [of "length s + 3"] by (simp add: text_bytes_def lit_def eval_nat_numeral)
  then show ?thesis using that [OF a x f] y by simp
qed

end

definition all_fill :: "byte list \<Rightarrow> byte list option" where
  "all_fill b = do { s3 \<leftarrow> eth_fields b; net_fields s3 }"

definition hdr_fill :: "byte list \<Rightarrow> byte list option" where
  "hdr_fill b = do { s3 \<leftarrow> hdr_fields b; n \<leftarrow> strlen (msg_text s3 28); udp_fields s3 20 8888 (8 + n) }"

definition udp_fill :: "byte list \<Rightarrow> byte list option" where
  "udp_fill b = do { n \<leftarrow> strlen (msg_text b 8); udp_fields b 0 8888 (8 + n) }"

definition ip_local :: "byte list" where
  "ip_local = ip_bytes 0 0 ''127.0.0.2'' ''127.0.0.2''"

lemma length_ip_local [simp]: "length ip_local = 20"
  by (simp add: ip_local_def)

lemma hdr_fields_write: "20 \<le> length r \<Longrightarrow> hdr_fields r = Some (ip_local @ drop 20 r)"
  using ip_fields_write [of "[]" 0 r] by (simp add: hdr_fields_def ip_local_def)

interpretation all_hdr: header_writer all_fill 42 "\<lambda>n. eth_bytes @ frame_bytes n"
proof
  fix r q :: "byte list" and s
  assume a: "length r = 42" "NUL \<notin> set s" "length s < MSG_SIZE"
  have "eth_fields (r @ text_bytes s @ q) = Some (eth_bytes @ drop 14 r @ text_bytes s @ q)"
    using a(1) by (simp add: eth_fields_write)
  then show "all_fill (r @ text_bytes s @ q) = Some ((eth_bytes @ frame_bytes (length s)) @ text_bytes s @ q)"
    using net_fields_write [of eth_bytes "drop 14 r" s q] a by (simp add: all_fill_def)
qed simp

interpretation ip_hdr: header_writer hdr_fill 28 "\<lambda>n. ip_local @ udp_bytes 8888 (8 + n)"
proof
  fix r q :: "byte list" and s
  assume a: "length r = 28" "NUL \<notin> set s" "length s < MSG_SIZE"
  have h: "hdr_fields (r @ text_bytes s @ q) = Some (ip_local @ drop 20 r @ text_bytes s @ q)"
    using a(1) by (simp add: hdr_fields_write)
  have "strlen (msg_text ((ip_local @ drop 20 r) @ text_bytes s @ q) 28) = Some (length s)"
    using msg_text_at [of "ip_local @ drop 20 r" 28 s q] a by (simp add: cmem)
  moreover have "udp_fields (ip_local @ drop 20 r @ text_bytes s @ q) 20 8888 (8 + length s) =
      Some (ip_local @ udp_bytes 8888 (8 + length s) @ text_bytes s @ q)"
    using a(1) by (subst udp_fields_write) simp_all
  ultimately show "hdr_fill (r @ text_bytes s @ q) = Some ((ip_local @ udp_bytes 8888 (8 + length s)) @ text_bytes s @ q)"
    using h by (simp add: hdr_fill_def)
qed simp

interpretation udp_hdr: header_writer udp_fill 8 "\<lambda>n. udp_bytes 8888 (8 + n)"
proof
  fix r q :: "byte list" and s
  assume a: "length r = 8" "NUL \<notin> set s" "length s < MSG_SIZE"
  then show "udp_fill (r @ text_bytes s @ q) = Some (udp_bytes 8888 (8 + length s) @ text_bytes s @ q)"
    using msg_text_at [of r 8 s q] udp_fields_write [of "[]" 0 "r @ text_bytes s @ q"]
    by (simp add: udp_fill_def cmem)
qed simp


section \<open>Sessions\<close>

text \<open>The calls succeed and the arrays have their sizes.\<close>

definition raw_ok :: "raw_env \<Rightarrow> nat \<Rightarrow> bool" where
  "raw_ok e cap \<longleftrightarrow> sock_ok e \<and> send_ok e 0 \<and> send_ok e 1 \<and> length (j_buf e) = cap \<and>
     length (j_sec_buf e) = cap \<and> length (j_temp e) = MSG_SIZE"

text \<open>
  The packet \<open>p\<close> with the text \<open>m\<close> for port 7777 after the packets \<open>ps\<close> for other ports, which are not
  longer; the UDP header is at \<open>off\<close>.
\<close>

definition awaited :: "nat \<Rightarrow> byte list list \<Rightarrow> byte list \<Rightarrow> string \<Rightarrow> bool" where
  "awaited off ps p m \<longleftrightarrow> (\<exists>h. length h = off + 8 \<and> p = h @ map char_byte m) \<and> port off p = 7777 \<and>
     NUL \<notin> set m \<and> length m + 3 < MSG_SIZE \<and>
     (\<forall>x \<in> set ps. off + 4 \<le> length x \<and> length x \<le> length p \<and> port off x \<noteq> 7777)"

definition session_events :: "dest \<Rightarrow> byte list \<Rightarrow> string \<Rightarrow> dest \<Rightarrow> byte list \<Rightarrow> net_event list" where
  "session_events to request m to' reply =
     [Send to request, waiting, Out (''Recieved message: '' @ m @ [NL]), Out (''Sent message: '' @ (m @ '' =)'') @ [NL]),
      Send to' reply, Out (''Message sent.'' @ [NL])]"

lemma sender_cong: "take (20 + 8) b = take (20 + 8) p \<Longrightarrow> sender b = sender p"
proof -
  assume a: "take (20 + 8) b = take (20 + 8) p"
  have "take 4 (drop 12 b) = take 4 (drop 12 (take (20 + 8) b))" for b :: "byte list" by (simp add: drop_take)
  then show "sender b = sender p" using a unfolding sender_def by metis
qed

text \<open>What the waiting loop leaves in the buffer of a client that has cleared its message.\<close>

lemma await_text:
  assumes "awaited off ps p m" "b = pre @ replicate MSG_SIZE 0 @ q" "length pre \<le> off + 8"
    and "length b = cap" "off + 8 + MSG_SIZE \<le> cap" "off + 8 \<le> length pre + MSG_SIZE" "length m + (off + 8) < length pre + MSG_SIZE"
  obtains b' where "await cap off b (ps @ p # rest) = Some (True, b')" "NUL \<in> set (msg_text b' (off + 8))" "cstr (msg_text b' (off + 8)) = m"
    "take (off + 8) b' = take (off + 8) p"
proof -
  obtain h where h: "length h = off + 8" "p = h @ map char_byte m" using assms(1) by (auto simp: awaited_def)
  have m: "NUL \<notin> set m" "length m + 3 < MSG_SIZE" using assms(1) by (auto simp: awaited_def)
  let ?k = "length m + (off + 8) - length pre"
  have "drop (length p) b = drop ?k (replicate MSG_SIZE 0) @ q" using h assms(2,3,7) by simp
  moreover have k: "?k < MSG_SIZE" using assms(3,7) by linarith
  moreover have "drop ?k (replicate MSG_SIZE 0) = (0 :: byte) # replicate (MSG_SIZE - Suc ?k) 0"
    using k by (metis Suc_diff_Suc drop_replicate replicate_Suc)
  ultimately have t: "p @ drop (length p) b = h @ text_bytes m @ replicate (MSG_SIZE - Suc ?k) 0 @ q"
    using h by (simp add: text_bytes_def lit_def char_byte_def NUL_def)
  have "await cap off b (ps @ p # rest) = Some (True, p @ drop (length p) b)"
    using assms(1,4,5) h m by (intro await_answered) (auto simp: awaited_def)
  then show ?thesis using that msg_text_at [OF h(1) m(1), of "replicate (MSG_SIZE - Suc ?k) 0 @ q"] m(2) t h by simp
qed

text \<open>The client with all headers, given what the waiting loop leaves in its buffer.\<close>

lemma all_main_run:
  assumes "raw_ok e 10000"
  obtains q where "length q = 10000 - (42 + MSG_SIZE)"
    "\<forall>pkts b5 m. await 10000 34 ((eth_bytes @ frame_bytes 1) @ replicate MSG_SIZE 0 @ q) pkts = Some (True, b5) \<longrightarrow>
       NUL \<in> set (msg_text b5 42) \<longrightarrow> cstr (msg_text b5 42) = m \<longrightarrow> length m + 3 < MSG_SIZE \<longrightarrow>
       all_main e pkts = Some (Some 0, session_events (Link src_mac) (eth_bytes @ frame_bytes 1 @ map char_byte ''s'') m (Link src_mac)
         (eth_bytes @ frame_bytes (length m + 3) @ map char_byte (m @ '' =)'')))"
proof -
  have l: "length (j_temp e) = MSG_SIZE" "42 + MSG_SIZE \<le> length (j_sec_buf e)" "length (j_buf e) = 10000"
    using assms(1) by (simp_all add: raw_ok_def MSG_SIZE_def)
  obtain r1 r2 where r: "drop 14 (j_buf e) = r1 @ r2" "length r1 = 28" "length r2 = 9958"
    using l(3) that [of "take 28 (drop 14 (j_buf e))" "drop 28 (drop 14 (j_buf e))"] by (simp del: drop_drop)
  have b1: "eth_fields (j_buf e) = Some (eth_bytes @ r1 @ r2)" using l(3) r(1) by (simp add: eth_fields_write)
  let ?q = "drop (Suc (length ''s'')) r2"
  have "on_msg ((eth_bytes @ r1) @ r2) 42 (\<lambda>d. strcpy d (lit ''s'')) = Some ((eth_bytes @ r1) @ text_bytes ''s'' @ ?q)"
    using r by (intro on_msg_strcpy) (auto simp: MSG_SIZE_def lit_def cstr_def NUL_def)
  then have b2: "on_msg (eth_bytes @ r1 @ r2) 42 (\<lambda>d. strcpy d (lit ''s'')) = Some (eth_bytes @ r1 @ text_bytes ''s'' @ ?q)"
    by simp
  have b3: "net_fields (eth_bytes @ r1 @ text_bytes ''s'' @ ?q) = Some (eth_bytes @ frame_bytes 1 @ text_bytes ''s'' @ ?q)"
    using net_fields_write [of eth_bytes r1 "''s''" ?q] r by (simp add: MSG_SIZE_def NUL_def)
  let ?pre = "eth_bytes @ frame_bytes 1" and ?rest = "drop MSG_SIZE (text_bytes ''s'' @ ?q)"
  have b4: "wr_at (eth_bytes @ frame_bytes 1 @ text_bytes ''s'' @ ?q) 42 (replicate MSG_SIZE 0) =
      Some (?pre @ replicate MSG_SIZE 0 @ ?rest)"
    using wr_next [of ?pre 42 "replicate MSG_SIZE 0" "text_bytes ''s'' @ ?q"] r by (simp add: MSG_SIZE_def)
  have t: "take 43 (eth_bytes @ frame_bytes 1 @ text_bytes ''s'' @ ?q) = eth_bytes @ frame_bytes 1 @ map char_byte ''s''"
    by (simp add: text_bytes_def lit_def)
  have "all_main e pkts = Some (Some 0, session_events (Link src_mac) (eth_bytes @ frame_bytes 1 @ map char_byte ''s'') m (Link src_mac)
      (eth_bytes @ frame_bytes (length m + 3) @ map char_byte (m @ '' =)'')))"
    if b5: "await 10000 34 (?pre @ replicate MSG_SIZE 0 @ ?rest) pkts = Some (True, b5)"
      and b6: "NUL \<in> set (msg_text b5 42)" "cstr (msg_text b5 42) = m" and m: "length m + 3 < MSG_SIZE" for pkts b5 m
  proof -
    obtain s2 s4 where s: "answer_text e 42 (msg_text b5 42) = Some s2" "rd_str (msg_text s2 42) = Some (m @ '' =)'')"
      "all_fill s2 = Some s4" "strlen (msg_text s4 42) = Some (length m + 3)"
      "take (42 + (length m + 3)) s4 = (eth_bytes @ frame_bytes (length m + 3)) @ map char_byte (m @ '' =)'')"
      by (rule all_hdr.reply [OF l(1,2) b6(1,2) m])
    obtain s3 where s3: "eth_fields s2 = Some s3" "net_fields s3 = Some s4"
      using s(3) by (auto simp: all_fill_def bind_eq_Some_conv')
    show ?thesis using assms(1) b1 b2 b3 b4 b5 b6 t s s3
      by (simp add: all_main_def raw_ok_def cmem session_events_def waiting_def)
  qed
  then show ?thesis using that [of ?rest] r by (simp add: MSG_SIZE_def)
qed

lemma all_main_session:
  assumes "raw_ok e 10000" "awaited 34 ps p m"
  shows "all_main e (ps @ p # rest) = Some (Some 0, session_events (Link src_mac) (eth_bytes @ frame_bytes 1 @ map char_byte ''s'') m (Link src_mac)
    (eth_bytes @ frame_bytes (length m + 3) @ map char_byte (m @ '' =)'')))"
proof -
  obtain q where q: "length q = 10000 - (42 + MSG_SIZE)"
    and run: "\<forall>pkts b5 m. await 10000 34 ((eth_bytes @ frame_bytes 1) @ replicate MSG_SIZE 0 @ q) pkts = Some (True, b5) \<longrightarrow>
       NUL \<in> set (msg_text b5 42) \<longrightarrow> cstr (msg_text b5 42) = m \<longrightarrow> length m + 3 < MSG_SIZE \<longrightarrow>
       all_main e pkts = Some (Some 0, session_events (Link src_mac) (eth_bytes @ frame_bytes 1 @ map char_byte ''s'') m (Link src_mac)
         (eth_bytes @ frame_bytes (length m + 3) @ map char_byte (m @ '' =)'')))"
    by (rule all_main_run [OF assms(1)])
  let ?pre = "eth_bytes @ frame_bytes 1"
  have m: "length m + 3 < MSG_SIZE" using assms(2) by (simp add: awaited_def)
  have w: "length ?pre \<le> 34 + 8" "length (?pre @ replicate MSG_SIZE 0 @ q) = 10000" "34 + 8 + MSG_SIZE \<le> 10000"
    "34 + 8 \<le> length ?pre + MSG_SIZE" "length m + (34 + 8) < length ?pre + MSG_SIZE"
    using q m by (simp_all add: MSG_SIZE_def)
  obtain b5 where "await 10000 34 (?pre @ replicate MSG_SIZE 0 @ q) (ps @ p # rest) = Some (True, b5)"
    "NUL \<in> set (msg_text b5 (34 + 8))" "cstr (msg_text b5 (34 + 8)) = m"
    by (rule await_text [OF assms(2) refl w, where rest = rest])
  then show ?thesis using run m by simp
qed

text \<open>
  The client with all headers sends a request of one byte, waits until a packet for its port
  comes, and answers it with the received text and a smile in a frame of its own; then it ends with
  status 0.
\<close>

theorem all_main_answers:
  assumes "raw_ok e 10000" "awaited 34 ps p m"
  shows "all_main e (ps @ p # rest) = Some (Some 0, session_events (Link src_mac) (eth_bytes @ frame_bytes 1 @ map char_byte ''s'') m (Link src_mac)
    (eth_bytes @ frame_bytes (length m + 3) @ map char_byte (m @ '' =)'')))"
  by (rule all_main_session [OF assms])

text \<open>
  Nothing clears the buffer between two packets: after a longer packet for another port the
  client takes the tail of that packet for the end of the text, and sends it back.
\<close>

theorem all_main_stale:
  assumes "raw_ok e 10000" "length h = 42" "p = h @ map char_byte m" "port 34 p = 7777"
    and "length hx = 42" "x = hx @ map char_byte mx" "port 34 x \<noteq> 7777"
    and "length m < length mx" "length mx + 3 < MSG_SIZE" "NUL \<notin> set m" "NUL \<notin> set mx"
  shows "all_main e (x # p # rest) = Some (Some 0, session_events (Link src_mac) (eth_bytes @ frame_bytes 1 @ map char_byte ''s'')
    (m @ drop (length m) mx) (Link src_mac) (eth_bytes @ frame_bytes (length mx + 3) @ map char_byte (m @ drop (length m) mx @ '' =)'')))"
proof -
  obtain q where q: "length q = 10000 - (42 + MSG_SIZE)"
    and run: "\<forall>pkts b5 m. await 10000 34 ((eth_bytes @ frame_bytes 1) @ replicate MSG_SIZE 0 @ q) pkts = Some (True, b5) \<longrightarrow>
       NUL \<in> set (msg_text b5 42) \<longrightarrow> cstr (msg_text b5 42) = m \<longrightarrow> length m + 3 < MSG_SIZE \<longrightarrow>
       all_main e pkts = Some (Some 0, session_events (Link src_mac) (eth_bytes @ frame_bytes 1 @ map char_byte ''s'') m (Link src_mac)
         (eth_bytes @ frame_bytes (length m + 3) @ map char_byte (m @ '' =)'')))"
    by (rule all_main_run [OF assms(1)])
  let ?b = "(eth_bytes @ frame_bytes 1) @ replicate MSG_SIZE 0 @ q" and ?m = "m @ drop (length m) mx"
  obtain q' where q': "x @ drop (length x) ?b = hx @ text_bytes mx @ q'"
    using received_text [OF assms(5) refl _ _ assms(6), of "eth_bytes @ frame_bytes 1" q] assms(9) by auto
  have l: "length ?b = 10000" "length p \<le> length x" "length x \<le> 10000" "38 \<le> length p"
    using q assms by (simp_all add: MSG_SIZE_def)
  have "length (x @ drop (length x) ?b) = 10000" using l by simp
  then have "await 10000 34 (x @ drop (length x) ?b) ([] @ p # rest) = Some (True, p @ drop (length p) (x @ drop (length x) ?b))"
    using assms l by (intro await_answered) auto
  moreover have "await 10000 34 ?b (x # p # rest) = await 10000 34 (x @ drop (length x) ?b) (p # rest)"
    using l assms(7) rd16_port [of 34 "x @ drop (length x) ?b"] by (simp add: recvfrom_def port_def nth_append)
  moreover have "p @ drop (length p) (x @ drop (length x) ?b) = h @ text_bytes ?m @ q'"
    unfolding q' using assms by (simp add: text_bytes_def lit_def drop_map)
  ultimately have b5: "await 10000 34 ?b (x # p # rest) = Some (True, h @ text_bytes ?m @ q')" by simp
  have n: "NUL \<notin> set ?m" "length ?m < MSG_SIZE" "length ?m = length mx" using assms by (auto dest: in_set_dropD)
  from run [rule_format, OF b5 msg_text_at [OF assms(2) n(1,2)]] show ?thesis using n(3) assms(9) by simp
qed


text \<open>
  The client with IP and UDP headers does the same, with the headers of its own and the length
  and checksum of the IP header left to the kernel; the answer goes to the host the packet came from.
\<close>

theorem hdr_main_answers:
  assumes "raw_ok e 1000" "awaited 20 ps p m"
  shows "hdr_main e True (ps @ p # rest) = Some (Some 0, session_events (Host (inet_bytes ''127.0.0.2'')) (ip_local @ udp_bytes 8888 9 @ map char_byte ''s'') m (sender p)
    (ip_local @ udp_bytes 8888 (8 + (length m + 3)) @ map char_byte (m @ '' =)'')))"
proof -
  have l: "length (j_temp e) = MSG_SIZE" "28 + MSG_SIZE \<le> length (j_sec_buf e)" "length (j_buf e) = 1000"
    using assms(1) by (simp_all add: raw_ok_def MSG_SIZE_def)
  obtain r1 r2 where r: "drop 20 (j_buf e) = r1 @ r2" "length r1 = 8" "length r2 = 972"
    using l(3) that [of "take 8 (drop 20 (j_buf e))" "drop 8 (drop 20 (j_buf e))"] by (simp del: drop_drop)
  have m: "length m + 3 < MSG_SIZE" using assms(2) by (simp add: awaited_def)
  let ?pre = "ip_local @ udp_bytes 8888 9" and ?q = "drop (Suc (length ''s'')) r2"
  let ?rest = "drop MSG_SIZE (text_bytes ''s'' @ ?q)"
  have b1: "hdr_fields (j_buf e) = Some (ip_local @ r1 @ r2)" using l(3) r(1) by (simp add: hdr_fields_write)
  have b2: "udp_fields (ip_local @ r1 @ r2) 20 8888 9 = Some (?pre @ r2)"
    using r by (subst udp_fields_write) simp_all
  have b3: "on_msg (?pre @ r2) 28 (\<lambda>d. strcpy d (lit ''s'')) = Some (?pre @ text_bytes ''s'' @ ?q)"
    using r by (intro on_msg_strcpy) (auto simp: MSG_SIZE_def lit_def cstr_def NUL_def)
  have b4: "wr_at (?pre @ text_bytes ''s'' @ ?q) 28 (replicate MSG_SIZE 0) = Some (?pre @ replicate MSG_SIZE 0 @ ?rest)"
    using wr_next [of ?pre 28 "replicate MSG_SIZE 0" "text_bytes ''s'' @ ?q"] r by (simp add: MSG_SIZE_def)
  have w: "length ?pre \<le> 20 + 8" "length (?pre @ replicate MSG_SIZE 0 @ ?rest) = 1000" "20 + 8 + MSG_SIZE \<le> 1000"
    "20 + 8 \<le> length ?pre + MSG_SIZE" "length m + (20 + 8) < length ?pre + MSG_SIZE"
    using r m by (simp_all add: MSG_SIZE_def)
  obtain b5 where b5: "await 1000 20 (?pre @ replicate MSG_SIZE 0 @ ?rest) (ps @ p # rest) = Some (True, b5)"
    "NUL \<in> set (msg_text b5 (20 + 8))" "cstr (msg_text b5 (20 + 8)) = m" "take (20 + 8) b5 = take (20 + 8) p"
    by (rule await_text [OF assms(2) refl w, where rest = rest])
  have b6: "NUL \<in> set (msg_text b5 28)" "cstr (msg_text b5 28) = m" "sender b5 = sender p" using b5(2,3) sender_cong [OF b5(4)] by simp_all
  obtain s2 s4 where s: "answer_text e 28 (msg_text b5 28) = Some s2" "rd_str (msg_text s2 28) = Some (m @ '' =)'')"
    "hdr_fill s2 = Some s4" "strlen (msg_text s4 28) = Some (length m + 3)"
    "take (28 + (length m + 3)) s4 = (ip_local @ udp_bytes 8888 (8 + (length m + 3))) @ map char_byte (m @ '' =)'')"
    by (rule ip_hdr.reply [OF l(1,2) b6(1,2) m])
  obtain s3 n where s3: "hdr_fields s2 = Some s3" "strlen (msg_text s3 28) = Some n" "udp_fields s3 20 8888 (8 + n) = Some s4"
    using s(3) by (auto simp: hdr_fill_def bind_eq_Some_conv')
  have "take 29 (?pre @ text_bytes ''s'' @ ?q) = ?pre @ map char_byte ''s''" by (simp add: text_bytes_def lit_def)
  then show ?thesis using assms(1) b1 b2 b3 b4 b5(1) b6 s s3
    by (simp add: hdr_main_def raw_ok_def cmem session_events_def waiting_def)
qed

lemma udp_main_answers:
  assumes "raw_ok e 1000" "awaited 20 ps p m" "length m + 28 < 8 + MSG_SIZE"
  shows "udp_main e (ps @ p # rest) = Some (Some 0, session_events (Host (inet_bytes ''127.0.0.2'')) (udp_bytes 8888 9 @ map char_byte ''s'') m (sender p)
    (udp_bytes 8888 (8 + (length m + 3)) @ map char_byte (m @ '' =)'')))"
proof -
  have l: "length (j_temp e) = MSG_SIZE" "8 + MSG_SIZE \<le> length (j_sec_buf e)" "length (j_buf e) = 1000"
    using assms(1) by (simp_all add: raw_ok_def MSG_SIZE_def)
  let ?r = "drop 8 (j_buf e)" and ?pre = "udp_bytes 8888 9"
  let ?q = "drop (Suc (length ''s'')) ?r"
  let ?rest = "drop MSG_SIZE (text_bytes ''s'' @ ?q)"
  have m: "length m + 3 < MSG_SIZE" using assms(2) by (simp add: awaited_def)
  have b1: "udp_fields (j_buf e) 0 8888 9 = Some (?pre @ ?r)"
    using udp_fields_write [of "[]" 0 "j_buf e"] l(3) by simp
  have b2: "on_msg (?pre @ ?r) 8 (\<lambda>d. strcpy d (lit ''s'')) = Some (?pre @ text_bytes ''s'' @ ?q)"
    using l(3) by (intro on_msg_strcpy) (auto simp: MSG_SIZE_def lit_def cstr_def NUL_def)
  have b3: "wr_at (?pre @ text_bytes ''s'' @ ?q) 8 (replicate MSG_SIZE 0) = Some (?pre @ replicate MSG_SIZE 0 @ ?rest)"
    using wr_next [of ?pre 8 "replicate MSG_SIZE 0" "text_bytes ''s'' @ ?q"] l(3) by (simp add: MSG_SIZE_def)
  have w: "length ?pre \<le> 20 + 8" "length (?pre @ replicate MSG_SIZE 0 @ ?rest) = 1000" "20 + 8 + MSG_SIZE \<le> 1000"
    "20 + 8 \<le> length ?pre + MSG_SIZE" "length m + (20 + 8) < length ?pre + MSG_SIZE"
    using l(3) assms(3) by (simp_all add: MSG_SIZE_def)
  obtain b5 where b5: "await 1000 20 (?pre @ replicate MSG_SIZE 0 @ ?rest) (ps @ p # rest) = Some (True, b5)"
    "NUL \<in> set (msg_text b5 (20 + 8))" "cstr (msg_text b5 (20 + 8)) = m" "take (20 + 8) b5 = take (20 + 8) p"
    by (rule await_text [OF assms(2) refl w, where rest = rest])
  have b6: "NUL \<in> set (msg_text b5 28)" "cstr (msg_text b5 28) = m" "sender b5 = sender p" using b5(2,3) sender_cong [OF b5(4)] by simp_all
  obtain s2 s4 where s: "answer_text e 8 (msg_text b5 28) = Some s2" "rd_str (msg_text s2 8) = Some (m @ '' =)'')"
    "udp_fill s2 = Some s4" "strlen (msg_text s4 8) = Some (length m + 3)"
    "take (8 + (length m + 3)) s4 = udp_bytes 8888 (8 + (length m + 3)) @ map char_byte (m @ '' =)'')"
    by (rule udp_hdr.reply [OF l(1,2) b6(1,2) m])
  obtain n where n: "strlen (msg_text s2 8) = Some n" "udp_fields s2 0 8888 (8 + n) = Some s4"
    using s(3) by (auto simp: udp_fill_def bind_eq_Some_conv')
  have "take 9 (?pre @ text_bytes ''s'' @ ?q) = ?pre @ map char_byte ''s''" by (simp add: text_bytes_def lit_def)
  then show ?thesis using assms(1) b1 b2 b3 b5(1) b6 s n
    by (simp add: udp_main_def raw_ok_def cmem session_events_def waiting_def)
qed

section \<open>The checksum\<close>

text \<open>
  C11. \<open>check_sum\<close> computes the checksum of RFC 1071: the complement of the one's complement sum of the
  16-bit words of the block, an odd last byte padded with zero, for blocks of up to 65536 bytes.
\<close>

theorem check_sum_is_rfc1071:
  assumes "p + n \<le> length b" "n \<le> 65536"
  shows "check_sum b (int p) (int n) = Some (word_of_int (65535 - oc_sum (words16 (take n (drop p b)))))"
  using check_sum_norm [OF assms] by (simp add: oc_sum_norm)

theorem check_sum_is_rfc1071_witness:
  "check_sum [0x45, 0x00, 0xff] (int 0) (int 3) =
     Some (word_of_int (65535 - oc_sum (words16 (take 3 (drop 0 [0x45, 0x00, 0xff])))))
   \<and> oc_sum (words16 [0x45, 0x00, 0xff]) = 0x144"
  using check_sum_is_rfc1071 [of 0 3 "[0x45, 0x00, 0xff]"] by (simp add: oc_sum_def oc_add_def)

lemma frame_verifies_at:
  assumes "length pre = p"
  shows "check_sum (pre @ frame_bytes n @ q) (int p) 20 = Some 0"
proof -
  let ?h = "(frame_ip n)[10 := ucast (frame_check n), 11 := ucast (drop_bit 8 (frame_check n))]"
  let ?S = "sum_list (words16 (frame_ip n))"
  have S: "0 \<le> ?S" using sum_words16_range [of "frame_ip n"] by simp
  have z: "frame_ip n ! 10 = 0" "frame_ip n ! Suc 10 = 0"
    by (simp_all add: frame_ip_def ip_bytes_def le16_def)
  have "sum_list (words16 ?h) = ?S + uint (frame_check n)"
    using words16_put [of 10 "frame_ip n" "frame_check n"] z by simp
  moreover have "uint (frame_check n) = 65535 - oc_norm ?S"
    using oc_norm_range [OF S] by (simp only: frame_check_def uint_word_of_int) (simp add: mod_pos_pos_trivial)
  ultimately have "oc_norm (sum_list (words16 ?h)) = 65535" using oc_norm_complement [OF S] by simp
  moreover have "take 20 (drop p (pre @ frame_bytes n @ q)) = ?h" using assms by (simp add: frame_bytes_def)
  ultimately show ?thesis using check_sum_norm [of p 20 "pre @ frame_bytes n @ q"] assms by simp
qed

section \<open>Instances\<close>

definition ex_env :: "nat \<Rightarrow> raw_env" where
  "ex_env cap = \<lparr>sock_ok = True, send_ok = \<lambda>_. True, j_buf = replicate cap 1, j_sec_buf = replicate cap 2,
     j_temp = replicate MSG_SIZE NUL\<rparr>"

definition ex_packet :: "nat \<Rightarrow> byte \<Rightarrow> string \<Rightarrow> byte list" where
  "ex_packet off low m = replicate (off + 2) 0 @ [0x1e, low] @ replicate 4 0 @ map char_byte m"

lemma ex_env_ok: "raw_ok (ex_env cap) cap"
  by (simp add: raw_ok_def ex_env_def)

lemma port_ex: "port off (ex_packet off low m) = of_le16 low 0x1e"
proof -
  have "ex_packet off low m ! (off + 2) = 0x1e" "ex_packet off low m ! (off + 3) = low"
    by (simp_all add: ex_packet_def nth_append)
  then show ?thesis by (simp only: port_def htons_def bytes_of_le16)
qed

lemma of_le16_port: "of_le16 0x61 0x1e = 7777" "of_le16 0x62 0x1e \<noteq> 7777"
  by (simp_all add: of_le16_def)

lemma ex_awaited: "NUL \<notin> set m \<Longrightarrow> length m + 3 < MSG_SIZE \<Longrightarrow> awaited off [] (ex_packet off 0x61 m) m"
  unfolding awaited_def port_ex of_le16_port
  by (intro conjI exI [of _ "replicate (off + 2) 0 @ [0x1e, 0x61] @ replicate 4 0"]) (simp_all add: ex_packet_def)

theorem all_main_answers_witness:
  "all_main (ex_env 10000) ([] @ ex_packet 34 0x61 ''Hi'' # []) = Some (Some 0,
     session_events (Link src_mac) (eth_bytes @ frame_bytes 1 @ map char_byte ''s'') ''Hi'' (Link src_mac)
       (eth_bytes @ frame_bytes (length ''Hi'' + 3) @ map char_byte (''Hi'' @ '' =)'')))"
  by (rule all_main_answers [OF ex_env_ok ex_awaited]) (simp_all add: NUL_def MSG_SIZE_def)

theorem hdr_main_answers_witness:
  "hdr_main (ex_env 1000) True ([] @ ex_packet 20 0x61 ''Hi'' # []) = Some (Some 0,
     session_events (Host (inet_bytes ''127.0.0.2'')) (ip_local @ udp_bytes 8888 9 @ map char_byte ''s'') ''Hi'' (sender (ex_packet 20 0x61 ''Hi''))
       (ip_local @ udp_bytes 8888 (8 + (length ''Hi'' + 3)) @ map char_byte (''Hi'' @ '' =)'')))"
  by (rule hdr_main_answers [OF ex_env_ok ex_awaited]) (simp_all add: NUL_def MSG_SIZE_def)

theorem all_main_stale_witness:
  "all_main (ex_env 10000) (ex_packet 34 0x62 ''Goodbye'' # ex_packet 34 0x61 ''Hi'' # []) = Some (Some 0,
     session_events (Link src_mac) (eth_bytes @ frame_bytes 1 @ map char_byte ''s'') (''Hi'' @ drop (length ''Hi'') ''Goodbye'')
       (Link src_mac) (eth_bytes @ frame_bytes (length ''Goodbye'' + 3) @ map char_byte (''Hi'' @ drop (length ''Hi'') ''Goodbye'' @ '' =)'')))"
  using port_ex [of 34 "0x61" "''Hi''"] port_ex [of 34 "0x62" "''Goodbye''"]
  by (intro all_main_stale [OF ex_env_ok, of "replicate 36 0 @ [0x1e, 0x61] @ replicate 4 0" _ _ "replicate 36 0 @ [0x1e, 0x62] @ replicate 4 0"])
    (simp_all add: ex_packet_def of_le16_port NUL_def MSG_SIZE_def)

end
