(* ===== verification/RawServers.thy ===== *)
theory RawServers
  imports RawUDP_Main
begin

text \<open>
  The three servers of the clients with raw sockets, and their conversations: what a host makes of a packet
  (the receiving side of RFC 791, 768 and 1071), that it makes of every packet of a client what
  the client meant, and that client and server complete their conversation over it.
\<close>

section \<open>The servers\<close>


text \<open>Either handler ends the process while it waits.\<close>

definition handle_sigint :: "(int option \<times> net_event list) option \<Rightarrow> (int option \<times> net_event list) option" where
  "handle_sigint r = (case r of Some (None, evs) \<Rightarrow> Some (Some 0, evs @ [Out [NL]]) | _ \<Rightarrow> r)"



section \<open>Receiving a packet\<close>

text \<open>The source port, the destination port and the payload of a UDP datagram at offset \<open>p\<close>.\<close>

definition udp_datagram :: "nat \<Rightarrow> byte list \<Rightarrow> (16 word \<times> 16 word \<times> byte list) option" where
  "udp_datagram p f =
     do { sp \<leftarrow> rd16 f (int p); dp \<leftarrow> rd16 f (int p + 2); len \<leftarrow> rd16 f (int p + 4);
          let n = unat (htons len);
          if 8 \<le> n \<and> p + n \<le> length f then Some (htons sp, htons dp, take (n - 8) (drop (p + 8) f)) else None }"

text \<open>
  An IP packet at offset \<open>p\<close>: a header of version 4 without options, its checksum, protocol 17, and
  the length; the result is the source with its port, the destination with its port, and the payload.
\<close>

type_synonym datagram = "(byte list \<times> 16 word) \<times> (byte list \<times> 16 word) \<times> byte list"

definition ip_datagram :: "nat \<Rightarrow> byte list \<Rightarrow> datagram option" where
  "ip_datagram p f =
     do { v \<leftarrow> aref f (int p); proto \<leftarrow> aref f (int p + 9); ck \<leftarrow> check_sum f (int p) 20; tot \<leftarrow> rd16 f (int p + 2);
          let n = unat (htons tot);
          if v = 0x45 \<and> proto = 17 \<and> ck = 0 \<and> p + n \<le> length f
          then do { (r, q, d) \<leftarrow> udp_datagram (p + 20) (take (p + n) f);
                    Some ((take 4 (drop (p + 12) f), r), (take 4 (drop (p + 16) f), q), d) } else None }"

definition eth_datagram :: "byte list \<Rightarrow> datagram option" where
  "eth_datagram f = do { t \<leftarrow> rd16 f 12; if t = htons 0x0800 then ip_datagram 14 f else None }"

text \<open>
  What comes of something that is sent to a place.  A frame goes through the local network.  A packet whose IP header the kernel completes
  arrives where it is sent if the header names that host too.  For one without a header the kernel makes it: the
  destination is the place, the source an address of this host, \<open>src\<close>.
\<close>

definition link_datagram :: "dest \<Rightarrow> byte list \<Rightarrow> datagram option" where
  "link_datagram to f = (case to of Link _ \<Rightarrow> eth_datagram f | _ \<Rightarrow> None)"



text \<open>The payloads that a socket bound to an address and a port receives, with their senders.\<close>

definition delivered :: "(dest \<Rightarrow> byte list \<Rightarrow> datagram option) \<Rightarrow> string \<Rightarrow> nat \<Rightarrow> (dest \<times> byte list) list \<Rightarrow> ((byte list \<times> 16 word) \<times> byte list) list" where
  "delivered receive a n sends = List.map_filter (\<lambda>(to, f). case receive to f of
     Some (from, x, d) \<Rightarrow> if x = (inet_bytes a, word_of_nat n) then Some (from, d) else None | None \<Rightarrow> None) sends"

section \<open>What the clients send is received as it was meant\<close>

lemma rd16_le16: "length pre = p \<Longrightarrow> rd16 (pre @ le16 w @ r) (int p) = Some w"
proof -
  assume p: "length pre = p"
  have "nat (int p + 1) = Suc p" by simp
  then show ?thesis using p by (simp add: rd16_def aref_def le16_def nth_append)
qed

lemma rd16_at: "length pre = p \<Longrightarrow> k = int p \<Longrightarrow> rd16 (pre @ le16 w @ r) k = Some w"
  by (simp add: rd16_le16)

lemma udp_datagram_bytes:
  assumes "length pre = p" "8 + length t < 65536"
  shows "udp_datagram p (pre @ udp_bytes dest (8 + length t) @ t) = Some (7777, dest, t)"
proof -
  let ?n = "word_of_nat (8 + length t) :: 16 word"
  let ?f = "pre @ udp_bytes dest (8 + length t) @ t"
  have "?f = pre @ le16 (htons 7777) @ le16 (htons dest) @ le16 (htons ?n) @ [0, 0] @ t" by (simp add: udp_bytes_def)
  then have 0: "rd16 ?f (int p) = Some (htons 7777)" using assms(1) by (simp only:) (rule rd16_at [of _ p], simp_all)
  have "?f = (pre @ le16 (htons 7777)) @ le16 (htons dest) @ le16 (htons ?n) @ [0, 0] @ t" by (simp add: udp_bytes_def)
  then have 1: "rd16 ?f (int p + 2) = Some (htons dest)" using assms(1) by (simp only:) (rule rd16_at [of _ "p + 2"], simp_all)
  have "?f = ((pre @ le16 (htons 7777)) @ le16 (htons dest)) @ le16 (htons ?n) @ [0, 0] @ t" by (simp add: udp_bytes_def)
  then have 2: "rd16 ?f (int p + 4) = Some (htons ?n)" using assms(1) by (simp only:) (rule rd16_at [of _ "p + 4"], simp_all)
  have "unat ?n = 8 + length t" using assms(2) by (simp only: unat_of_nat) (simp add: take_bit_nat_eq_self_iff)
  moreover have "drop (p + 8) ?f = t" using assms(1) by simp
  ultimately show ?thesis unfolding udp_datagram_def 0 1 2 using assms(1) by (simp add: Let_def del: of_nat_add)
qed

text \<open>A frame of the client that builds all headers, with what follows it in the buffer.\<close>

lemma frame_received:
  assumes "28 + length t < 65536"
  shows "eth_datagram (eth_bytes @ frame_bytes (length t) @ t) =
    Some ((inet_bytes ''192.168.122.29'', 7777), (inet_bytes ''192.168.122.1'', 8889), t)"
proof -
  let ?n = "length t" and ?c = "frame_check (length t)"
  let ?f = "eth_bytes @ frame_bytes ?n @ t"
  let ?tot = "word_of_nat (20 + 8 + ?n) :: 16 word"
  have l: "length eth_bytes = 14" by simp
  have e: "rd16 ?f 12 = Some (htons 0x0800)"
    using rd16_at [of "dest_mac @ src_mac" 12 12 "htons 0x0800" "frame_bytes ?n @ t"] by (simp add: eth_bytes_def dest_mac_def src_mac_def)
  have f: "frame_bytes ?n = [0x45, 0] @ le16 (htons ?tot) @ [0, 0, 0, 0, 255, 17] @ le16 ?c @ [192, 168, 122, 29, 192, 168, 122, 1] @
      udp_bytes 8889 (8 + ?n)"
    by (simp add: frame_bytes_def frame_ip_def ip_bytes_def le16_def)
  have v: "aref ?f 14 = Some 0x45" "aref ?f (14 + 9) = Some 17"
    by (simp_all add: f aref_def nth_append le16_def eval_nat_numeral)
  have t: "rd16 ?f (14 + 2) = Some (htons ?tot)"
    using rd16_at [of "eth_bytes @ [0x45, 0]" 16 16] by (simp add: f)
  have k: "check_sum ?f 14 20 = Some 0" using frame_verifies_at [OF l, of ?n t] by simp
  have a: "take 4 (drop (14 + 16) ?f) = [192, 168, 122, 1]" "take 4 (drop (14 + 12) ?f) = [192, 168, 122, 29]" by (simp_all add: f le16_def eval_nat_numeral)
  have n: "unat ?tot = 28 + ?n" using assms by (simp only: unat_of_nat) (simp add: take_bit_nat_eq_self_iff)
  have f2: "?f = (eth_bytes @ take 20 (frame_bytes ?n)) @ udp_bytes 8889 (8 + ?n) @ t" by (simp add: f le16_def eval_nat_numeral)
  have u: "udp_datagram (14 + 20) ?f = Some (7777, 8889, t)"
    by (subst f2, rule udp_datagram_bytes) (use assms in simp_all)
  have w: "14 + unat (htons (htons ?tot)) = length ?f" using n by (simp del: of_nat_add)
  have "ip_datagram 14 ?f = Some (([192, 168, 122, 29], 7777), ([192, 168, 122, 1], 8889), t)"
    unfolding ip_datagram_def by (simp only: of_nat_numeral v t k bind.bind_lunit Let_def w) (simp only: take_all u a le_refl, simp)
  then show ?thesis by (simp add: eth_datagram_def e)
qed

text \<open>
  The interface of a client's headers that a host understands: who sends, to which address and port, and the text that follows.  What is sent to
  another host does not arrive.
\<close>

locale packet_writer = header_writer fill hlen hdr
  for fill :: "byte list \<Rightarrow> byte list option" and hlen :: nat and hdr :: "nat \<Rightarrow> byte list" +
  fixes receive :: "dest \<Rightarrow> byte list \<Rightarrow> datagram option" and to :: dest and src :: "byte list" and addr :: string and dport :: nat
  assumes received: "28 + length t < 65536 \<Longrightarrow> receive to (hdr (length t) @ t) = Some ((src, 7777), (inet_bytes addr, word_of_nat dport), t)"
    and missed: "a \<noteq> inet_bytes addr \<Longrightarrow> receive (Host a) f = Some (from, (x, q), d) \<Longrightarrow> x \<noteq> inet_bytes addr"
begin

lemma delivered_two:
  assumes "length t = n" "length u = k" "28 + n < 65536" "28 + k < 65536"
  shows "delivered receive addr dport [(to, hdr n @ t), (to, hdr k @ u)] = [((src, 7777), t), ((src, 7777), u)]"
  using received [of t] received [of u] assms by (simp add: delivered_def map_filter_simps)

lemma delivered_lost:
  assumes "length t = n" "28 + n < 65536" "a \<noteq> inet_bytes addr"
  shows "delivered receive addr dport [(to, hdr n @ t), (Host a, f)] = [((src, 7777), t)]"
  using received [of t] missed [OF assms(3), of f] assms by (auto simp: delivered_def map_filter_simps split: option.splits)

text \<open>A message anywhere in the buffer, in front of which the headers are filled in.\<close>

lemma fill_received:
  assumes "hlen + MSG_SIZE \<le> length b" "NUL \<in> set (msg_text b hlen)"
  shows "\<exists>b'. fill b = Some b' \<and> drop hlen b' = drop hlen b \<and>
    receive to (take (hlen + length (cstr (msg_text b hlen))) b') = Some ((src, 7777), (inet_bytes addr, word_of_nat dport), map char_byte (cstr (msg_text b hlen)))"
proof -
  let ?m = "msg_text b hlen"
  obtain r where r: "?m = cstr ?m @ NUL # r" using cstr_decomp [OF assms(2)] by blast
  have l: "length ?m = MSG_SIZE" using assms(1) by (simp add: msg_text_def)
  have s: "NUL \<notin> set (cstr ?m)" "length (cstr ?m) < MSG_SIZE" using length_cstr [OF assms(2)] l by simp_all
  have "take MSG_SIZE (drop hlen b) = map char_byte ?m" by (simp add: msg_text_def comp_def)
  also have "\<dots> = text_bytes (cstr ?m) @ map char_byte r" by (subst r) (simp add: text_bytes_def lit_def)
  finally obtain q where d: "drop hlen b = text_bytes (cstr ?m) @ q" by (metis append_assoc append_take_drop_id)
  then have b: "b = take hlen b @ text_bytes (cstr ?m) @ q" by (metis append_take_drop_id)
  have "length (take hlen b) = hlen" using assms(1) by simp
  from fill [OF this s, of q] have f: "fill b = Some (hdr (length (cstr ?m)) @ text_bytes (cstr ?m) @ q)" using b by simp
  have "take (hlen + length (cstr ?m)) (hdr (length (cstr ?m)) @ text_bytes (cstr ?m) @ q) =
      hdr (length (map char_byte (cstr ?m))) @ map char_byte (cstr ?m)"
    using length_hdr by (simp add: text_bytes_def lit_def)
  moreover have "28 + length (map char_byte (cstr ?m)) < 65536" using s(2) by (simp add: MSG_SIZE_def)
  ultimately show ?thesis using f received [of "map char_byte (cstr ?m)"] d length_hdr by simp
qed

end

interpretation all_pkt: packet_writer all_fill 42 "\<lambda>n. eth_bytes @ frame_bytes n" link_datagram "Link src_mac" "inet_bytes ''192.168.122.29''" "''192.168.122.1''" 8889
  by unfold_locales (simp_all add: link_datagram_def frame_received)



text \<open>
  C20. Round trip: the frame that the client makes of any text in its buffer, whatever was in the room for the
  headers, is accepted by the receiving host (its checksum verifies, its lengths agree) and gives back
  exactly the text, for port 8889 of 192.168.122.1, from port 7777 of 192.168.122.29.
\<close>

theorem frame_round_trip:
  assumes "42 + MSG_SIZE \<le> length b" "NUL \<in> set (msg_text b 42)"
  shows "\<exists>b1 b2. eth_fields b = Some b1 \<and> net_fields b1 = Some b2 \<and> drop 42 b2 = drop 42 b \<and>
    eth_datagram (take (42 + length (cstr (msg_text b 42))) b2) =
      Some ((inet_bytes ''192.168.122.29'', 7777), (inet_bytes ''192.168.122.1'', 8889), map char_byte (cstr (msg_text b 42)))"
proof -
  obtain b2 where "all_fill b = Some b2" "drop 42 b2 = drop 42 b" "link_datagram (Link src_mac) (take (42 + length (cstr (msg_text b 42))) b2) =
      Some ((inet_bytes ''192.168.122.29'', 7777), (inet_bytes ''192.168.122.1'', word_of_nat 8889), map char_byte (cstr (msg_text b 42)))"
    using all_pkt.fill_received [OF assms] by blast
  then show ?thesis by (auto simp: all_fill_def link_datagram_def bind_eq_Some_conv')
qed

theorem frame_round_trip_witness:
  "\<exists>b1 b2. eth_fields (replicate 241 0) = Some b1 \<and> net_fields b1 = Some b2 \<and>
    eth_datagram (take 42 b2) = Some (([192, 168, 122, 29], 7777), ([192, 168, 122, 1], 8889), [])"
proof -
  have "char_byte NUL = 0" by (simp add: char_byte_def NUL_def)
  then have z: "byte_char 0 = NUL" by (metis byte_char_byte)
  have m: "msg_text (replicate 241 0) 42 = replicate MSG_SIZE NUL" by (simp add: msg_text_def MSG_SIZE_def z)
  have "cstr (replicate MSG_SIZE NUL) = []" by (simp add: MSG_SIZE_def cstr_def numeral_eq_Suc)
  then show ?thesis using frame_round_trip [of "replicate 241 0", unfolded m] by (auto simp: MSG_SIZE_def)
qed

section \<open>Conversations\<close>










end
