(* ===== verification/Pool.thy ===== *)
theory Pool
  imports Transition CLib
begin

text \<open>
  The server \<open>sokets2/3scheme/server.c\<close>: \<open>main\<close> accepts connections and puts their descriptors into a
  System V message queue, fifteen worker threads take them out, greet the client and show what it
  sends.  Each thread is a program counter; a step is one call of the system or one access to
  shared memory, with the result of the call as a parameter.  The state is a record that the server
  of \<open>sokets2/4scheme\<close> extends.
\<close>

section \<open>State\<close>

definition SIZE_BUF :: nat where "SIZE_BUF = 199"
definition COUNT_OF_THREADS :: nat where "COUNT_OF_THREADS = 15"

text \<open>The process runs, has ended with a status, or has no defined behaviour any more.\<close>

datatype status = Running | Exited int | Undefined

text \<open>
  Where a worker is in \<open>process\<close>: before \<open>msgget\<close>, or in its loop; the descriptor and the array \<open>buf\<close> are
  its own.
\<close>

datatype worker = WOpen | WTry | WTake | WGreet int | WRead int | WShow "char list" | WUnlock

text \<open>
  Where \<open>main\<close> is: before \<open>accept\<close>, or about to send to a queue; the other places are those of the server of
  \<open>sokets2/4scheme\<close>, before \<open>epoll_wait\<close>, \<open>recvfrom\<close>, the second \<open>msgsnd\<close> and \<open>sleep\<close>.
\<close>

datatype main_pc = MWait | MQueue int | MEpoll | MRecv | MQueue2 | MSleep

text \<open>
  \<open>accepted\<close>, \<open>taken\<close>, \<open>greeted\<close>: the descriptors that \<open>accept\<close> returned, that workers received from the
  queue and that got the greeting, in order; \<open>shown\<close>: what was printed.
\<close>

record pool =
  status :: status
  main_pc :: main_pc
  queue :: "int list"
  workers :: "worker list"
  locked :: "bool list"
  accepted :: "int list"
  taken :: "int list"
  greeted :: "int list"
  shown :: "string list"

text \<open>
  The result of a call: an error, success, a new descriptor, or data together with the indeterminate
  contents of the array it is received into.
\<close>

datatype result = Fail | Done | Conn int | Data "char list" "char list"

section \<open>Steps\<close>

definition goto_w :: "nat \<Rightarrow> worker \<Rightarrow> 'a pool_scheme \<Rightarrow> 'a pool_scheme" where
  "goto_w i pc s = s\<lparr>workers := (workers s)[i := pc]\<rparr>"

text \<open>One action of worker \<open>i\<close>: the function \<open>process\<close>.\<close>

definition worker_step :: "nat \<Rightarrow> result \<Rightarrow> 'a pool_scheme \<Rightarrow> 'a pool_scheme option" where
  "worker_step i r s =
     (case workers s ! i of
        WOpen \<Rightarrow> Some (if r = Fail then s\<lparr>status := Exited 1\<rparr> else goto_w i WTry s)
      | WTry \<Rightarrow> Some (if locked s ! i then s else goto_w i WTake (s\<lparr>locked := (locked s)[i := True]\<rparr>))
      | WTake \<Rightarrow>
          (if r = Fail then Some (s\<lparr>status := Exited 1\<rparr>)
           else (case queue s of
              [] \<Rightarrow> None
            | fd # q \<Rightarrow> Some (goto_w i (WGreet fd) (s\<lparr>queue := q, taken := taken s @ [fd]\<rparr>))))
      | WGreet fd \<Rightarrow>
          (if r = Fail then Some (s\<lparr>status := Exited 1\<rparr>)
           else Some (goto_w i (WRead fd) (s\<lparr>greeted := greeted s @ [fd]\<rparr>)))
      | WRead fd \<Rightarrow>
          (case r of
             Data d junk \<Rightarrow> Some (goto_w i (WShow (take SIZE_BUF d @ drop (length d) junk)) s)
           | Fail \<Rightarrow> Some (s\<lparr>status := Exited 1\<rparr>)
           | _ \<Rightarrow> None)
      | WShow buf \<Rightarrow>
          (case rd_str buf of
             None \<Rightarrow> Some (s\<lparr>status := Undefined\<rparr>)
           | Some t \<Rightarrow> Some (goto_w i WUnlock (s\<lparr>shown := shown s @ [''receive massage: '' @ t]\<rparr>)))
      | WUnlock \<Rightarrow> Some (goto_w i WTry (s\<lparr>locked := (locked s)[i := False]\<rparr>)))"

text \<open>The loop of \<open>main\<close>: \<open>accept\<close>, then \<open>msgsnd\<close>.\<close>

definition accept_step :: "result \<Rightarrow> 'a pool_scheme \<Rightarrow> 'a pool_scheme option" where
  "accept_step r s =
     (case main_pc s of
        MWait \<Rightarrow>
          (case r of
             Conn fd \<Rightarrow> Some (s\<lparr>main_pc := MQueue fd, accepted := accepted s @ [fd]\<rparr>)
           | Fail \<Rightarrow> Some (s\<lparr>status := Exited 1\<rparr>)
           | _ \<Rightarrow> None)
      | MQueue fd \<Rightarrow>
          (if r = Fail then Some (s\<lparr>status := Exited 1\<rparr>)
           else Some (s\<lparr>main_pc := MWait, queue := queue s @ [fd]\<rparr>))
      | _ \<Rightarrow> None)"

text \<open>The handlers of \<open>SIGINT\<close> and \<open>SIGTSTP\<close> print a line feed and end the process.\<close>

definition handle_signal :: "'a pool_scheme \<Rightarrow> 'a pool_scheme" where
  "handle_signal s = s\<lparr>status := Exited 0, shown := shown s @ [[NL]]\<rparr>"

text \<open>
  The threads in any order.  \<open>accept\<close> returns a descriptor that is not in use, and the server never
  closes one.
\<close>

inductive pool_step :: "pool \<Rightarrow> pool \<Rightarrow> bool" where
  by_worker: "status s = Running \<Longrightarrow> i < COUNT_OF_THREADS \<Longrightarrow> worker_step i r s = Some t \<Longrightarrow> pool_step s t"
| by_main: "status s = Running \<Longrightarrow> \<forall>fd. r = Conn fd \<longrightarrow> fd \<notin> set (accepted s) \<Longrightarrow> accept_step r s = Some t \<Longrightarrow> pool_step s t"
| by_signal: "status s = Running \<Longrightarrow> pool_step s (handle_signal s)"

inductive_cases pool_stepE: "pool_step s t"

text \<open>
  What \<open>main\<close> does before: the first call that fails ends the process with status 1 after its
  message; otherwise all threads start, with an empty queue.
\<close>

fun first_error :: "(string \<times> bool) list \<Rightarrow> string option" where
  "first_error [] = None"
| "first_error ((m, ok) # cs) = (if ok then first_error cs else Some m)"

record calls =
  msgget_ok :: bool
  sigint_ok :: bool
  sigtstp_ok :: bool
  socket_ok :: bool
  bind_ok :: bool
  listen_ok :: bool

definition pool_setup :: "calls \<Rightarrow> string option" where
  "pool_setup c = first_error [(''msgget'', msgget_ok c), (''signal SIGINT'', sigint_ok c),
     (''signal SIGTSTP'', sigtstp_ok c), (''socket in Server'', socket_ok c), (''bind'', bind_ok c),
     (''listen'', listen_ok c)]"

definition pool_start :: pool where
  "pool_start = \<lparr>status = Running, main_pc = MWait, queue = [], workers = replicate COUNT_OF_THREADS WOpen,
     locked = replicate COUNT_OF_THREADS False, accepted = [], taken = [], greeted = [], shown = []\<rparr>"

definition pool_main :: "calls \<Rightarrow> pool" where
  "pool_main c = (case pool_setup c of
     None \<Rightarrow> pool_start | Some m \<Rightarrow> pool_start\<lparr>status := Exited 1, shown := [m]\<rparr>)"

section \<open>The invariant\<close>

text \<open>The descriptors that workers hold without having greeted, and the one in the hands of \<open>main\<close>.\<close>

fun in_hand :: "worker \<Rightarrow> int list" where
  "in_hand (WGreet fd) = [fd]"
| "in_hand _ = []"

fun pending :: "main_pc \<Rightarrow> int list" where
  "pending (MQueue fd) = [fd]"
| "pending _ = []"

text \<open>A worker holds its mutex from the successful \<open>trylock\<close> on.\<close>

fun owns :: "worker \<Rightarrow> bool" where
  "owns WOpen = False"
| "owns WTry = False"
| "owns _ = True"

definition held :: "'a pool_scheme \<Rightarrow> int list" where
  "held s = concat (map in_hand (workers s))"

definition pool_ok :: "worker list \<Rightarrow> bool list \<Rightarrow> int list \<Rightarrow> int list \<Rightarrow> int list \<Rightarrow> int list \<Rightarrow> int list \<Rightarrow> int list \<Rightarrow> bool" where
  "pool_ok ws ls acc tk q pend gr hs \<longleftrightarrow> length ws = COUNT_OF_THREADS \<and> length ls = COUNT_OF_THREADS \<and>
     distinct acc \<and> acc = tk @ q @ pend \<and> mset tk = mset gr + mset hs \<and>
     (\<forall>i < COUNT_OF_THREADS. ls ! i \<longleftrightarrow> owns (ws ! i))"

definition pool_inv :: "'a pool_scheme \<Rightarrow> bool" where
  "pool_inv s \<longleftrightarrow>
     pool_ok (workers s) (locked s) (accepted s) (taken s) (queue s) (pending (main_pc s)) (greeted s) (held s)"

end
