(* ===== verification/Dispatch.thy ===== *)
theory Dispatch
  imports Transition
begin

text \<open>
  What a server with a pool of workers promises, without threads, mutexes and queues: a desk at which
  customers arrive, are assigned in the order of their arrival and are served once, after they have
  been assigned.  The servers of \<open>sokets2/3scheme\<close> and \<open>sokets2/4scheme\<close> refine it.
\<close>

record desk =
  came :: "int list"
  assigned :: nat
  served :: "int list"

inductive desk_step :: "desk \<Rightarrow> desk \<Rightarrow> bool" where
  arrive: "fd \<notin> set (came d) \<Longrightarrow> desk_step d (d\<lparr>came := came d @ [fd]\<rparr>)"
| assign: "assigned d < length (came d) \<Longrightarrow> desk_step d (d\<lparr>assigned := Suc (assigned d)\<rparr>)"
| serve: "fd \<in> set (take (assigned d) (came d)) \<Longrightarrow> fd \<notin> set (served d) \<Longrightarrow> desk_step d (d\<lparr>served := served d @ [fd]\<rparr>)"

inductive_cases desk_stepE: "desk_step d e"

definition desk_init :: "desk \<Rightarrow> bool" where
  "desk_init d \<longleftrightarrow> d = \<lparr>came = [], assigned = 0, served = []\<rparr>"

definition desk_inv :: "desk \<Rightarrow> bool" where
  "desk_inv d \<longleftrightarrow> distinct (came d) \<and> assigned d \<le> length (came d) \<and> distinct (served d) \<and>
     set (served d) \<subseteq> set (take (assigned d) (came d))"

interpretation desk_sys: inductive_invariant desk_init desk_step desk_inv
proof
  fix d e assume "desk_inv d" "desk_step d e"
  then show "desk_inv e"
    by (auto elim!: desk_stepE simp: desk_inv_def take_Suc_conv_app_nth)
qed (simp add: desk_init_def desk_inv_def)

abbreviation desk_steps :: "desk \<Rightarrow> desk \<Rightarrow> bool" where
  "desk_steps \<equiv> desk_step\<^sup>*\<^sup>*"

end
