(* ===== verification/Pool_Correct.thy ===== *)
theory Pool_Correct
  imports Pool Dispatch
begin

text \<open>
  Correctness of the pool of workers: it refines the desk of \<open>Dispatch\<close>; connections are taken in the
  order in which they were accepted, each by one worker, and none gets lost between \<open>main\<close>, the queue
  and the workers; a free worker can always serve the next one.
\<close>

section \<open>The invariant is kept\<close>

lemma goto_w_sel [simp]:
  "workers (goto_w i pc s) = (workers s)[i := pc]" "queue (goto_w i pc s) = queue s" "locked (goto_w i pc s) = locked s"
  "accepted (goto_w i pc s) = accepted s" "taken (goto_w i pc s) = taken s" "greeted (goto_w i pc s) = greeted s"
  "main_pc (goto_w i pc s) = main_pc s" "status (goto_w i pc s) = status s" "shown (goto_w i pc s) = shown s"
  by (simp_all add: goto_w_def)

lemma held_goto:
  "i < length (workers s) \<Longrightarrow>
   mset (held (goto_w i pc s)) + mset (in_hand (workers s ! i)) = mset (held s) + mset (in_hand pc)"
  by (simp add: held_def mset_concat_update)

text \<open>A worker moves: what it holds afterwards, what it has taken and greeted, whether it holds its mutex.\<close>

lemma worker_move:
  assumes "pool_inv s" "i < COUNT_OF_THREADS" "workers t = (workers s)[i := pc]" "accepted t = accepted s"
    and "main_pc t = main_pc s" "taken t @ queue t = taken s @ queue s"
    and "mset (taken t) + mset (greeted s) + mset (in_hand (workers s ! i)) = mset (taken s) + mset (greeted t) + mset (in_hand pc)"
    and "locked t = (locked s)[i := owns pc]"
  shows "pool_inv t"
proof -
  have l: "length (workers s) = COUNT_OF_THREADS" "length (locked s) = COUNT_OF_THREADS" "distinct (accepted s)"
    "mset (taken s) = mset (greeted s) + mset (held s)" "\<forall>i < COUNT_OF_THREADS. locked s ! i \<longleftrightarrow> owns (workers s ! i)"
    and a: "accepted s = taken s @ queue s @ pending (main_pc s)"
    using assms(1) unfolding pool_inv_def pool_ok_def by blast+
  have h: "mset (held t) + mset (in_hand (workers s ! i)) = mset (held s) + mset (in_hand pc)"
    using held_goto [of i s pc] assms(2,3) l(1) by (simp add: held_def)
  have "mset (taken t) + (mset (greeted s) + mset (in_hand (workers s ! i))) =
      mset (greeted s) + mset (greeted t) + (mset (held s) + mset (in_hand pc))"
    using assms(7) l(4) by (simp add: ac_simps)
  also have "\<dots> = (mset (greeted t) + mset (held t)) + (mset (greeted s) + mset (in_hand (workers s ! i)))"
    unfolding h [symmetric] by (simp only: ac_simps)
  finally have m: "mset (taken t) = mset (greeted t) + mset (held t)" by (rule add_right_imp_eq)
  have q: "accepted t = taken t @ queue t @ pending (main_pc t)"
    using a assms(4-6) by (metis append_assoc)
  have "\<forall>j < COUNT_OF_THREADS. locked t ! j \<longleftrightarrow> owns (workers t ! j)"
  proof (intro allI impI)
    fix j assume "j < COUNT_OF_THREADS"
    then show "locked t ! j \<longleftrightarrow> owns (workers t ! j)"
      using l(1,2,5) by (cases "j = i") (simp_all add: assms(3,8))
  qed
  moreover have "length (workers t) = COUNT_OF_THREADS" "length (locked t) = COUNT_OF_THREADS" "distinct (accepted t)"
    using l(1-3) by (simp_all only: assms(3,4,8) length_list_update)
  ultimately show ?thesis using m q unfolding pool_inv_def pool_ok_def by blast
qed

lemma inv_frame [simp]: "pool_inv (s\<lparr>status := st\<rparr>) = pool_inv s" "pool_inv (s\<lparr>shown := sh\<rparr>) = pool_inv s"
  by (simp_all add: pool_inv_def held_def)

lemma lock_of_worker:
  assumes "pool_inv s" "i < COUNT_OF_THREADS"
  shows "(locked s)[i := owns (workers s ! i)] = locked s"
proof -
  have e: "owns (workers s ! i) = locked s ! i" using assms unfolding pool_inv_def pool_ok_def by blast
  show ?thesis unfolding e by (rule list_update_id)
qed

lemma worker_inv:
  assumes "pool_inv s" "i < COUNT_OF_THREADS" "worker_step i r s = Some t"
  shows "pool_inv t"
proof (cases "workers s ! i")
  case WOpen
  show ?thesis
  proof (cases "r = Fail")
    case True
    then show ?thesis using assms WOpen by (auto simp: worker_step_def)
  next
    case False
    then have t: "t = goto_w i WTry s" using assms(3) WOpen by (simp add: worker_step_def)
    show ?thesis unfolding t using WOpen lock_of_worker [OF assms(1,2)]
      by (intro worker_move [OF assms(1,2), where pc = WTry]) simp_all
  qed
next
  case WTry
  then show ?thesis using assms
    by (auto simp: worker_step_def split: if_splits intro!: worker_move [OF assms(1,2), where pc = WTake])
next
  case WTake
  show ?thesis
  proof (cases "r = Fail")
    case True
    then show ?thesis using assms WTake by (auto simp: worker_step_def)
  next
    case False
    then obtain fd q where q: "queue s = fd # q" "t = goto_w i (WGreet fd) (s\<lparr>queue := q, taken := taken s @ [fd]\<rparr>)"
      using assms(3) WTake by (auto simp: worker_step_def split: list.splits)
    show ?thesis using q WTake lock_of_worker [OF assms(1,2)]
      by (intro worker_move [OF assms(1,2), where pc = "WGreet fd"]) simp_all
  qed
next
  case (WGreet fd)
  then consider "t = s\<lparr>status := Exited 1\<rparr>" | "t = goto_w i (WRead fd) (s\<lparr>greeted := greeted s @ [fd]\<rparr>)"
    using assms(3) by (auto simp: worker_step_def split: if_splits)
  then show ?thesis
  proof cases
    case 1
    then show ?thesis using assms(1) by simp
  next
    case 2
    then show ?thesis using WGreet lock_of_worker [OF assms(1,2)]
      by (intro worker_move [OF assms(1,2), where pc = "WRead fd"]) simp_all
  qed
next
  case (WRead fd)
  then consider "t = s\<lparr>status := Exited 1\<rparr>" | b where "t = goto_w i (WShow b) s"
    using assms(3) by (auto simp: worker_step_def split: result.splits)
  then show ?thesis
  proof cases
    case 1
    then show ?thesis using assms(1) by simp
  next
    case (2 b)
    then show ?thesis using WRead lock_of_worker [OF assms(1,2)]
      by (intro worker_move [OF assms(1,2), where pc = "WShow b"]) simp_all
  qed
next
  case (WShow b)
  then consider "t = s\<lparr>status := Undefined\<rparr>" | x where "t = goto_w i WUnlock (s\<lparr>shown := x\<rparr>)"
    using assms(3) by (auto simp: worker_step_def split: option.splits)
  then show ?thesis
  proof cases
    case 1
    then show ?thesis using assms(1) by simp
  next
    case (2 x)
    then show ?thesis using WShow lock_of_worker [OF assms(1,2)]
      by (intro worker_move [OF assms(1,2), where pc = WUnlock]) simp_all
  qed
next
  case WUnlock
  then show ?thesis using assms
    by (auto simp: worker_step_def intro!: worker_move [OF assms(1,2), where pc = WTry])
qed

lemma accept_inv:
  assumes "pool_inv s" "\<forall>fd. r = Conn fd \<longrightarrow> fd \<notin> set (accepted s)" "accept_step r s = Some t"
  shows "pool_inv t"
proof -
  consider "t = s\<lparr>status := Exited 1\<rparr>"
    | fd where "main_pc s = MWait" "r = Conn fd" "t = s\<lparr>main_pc := MQueue fd, accepted := accepted s @ [fd]\<rparr>"
    | fd where "main_pc s = MQueue fd" "t = s\<lparr>main_pc := MWait, queue := queue s @ [fd]\<rparr>"
    using assms(3) by (auto simp: accept_step_def split: main_pc.splits result.splits if_splits)
  then show ?thesis
  proof cases
    case 1
    then show ?thesis using assms(1) by simp
  next
    case (2 fd)
    then show ?thesis using assms(1,2) by (auto simp: pool_inv_def pool_ok_def held_def)
  next
    case (3 fd)
    then show ?thesis using assms(1) by (auto simp: pool_inv_def pool_ok_def held_def)
  qed
qed

lemma start_inv: "pool_inv pool_start"
  by (simp add: pool_inv_def pool_ok_def pool_start_def held_def)

interpretation pool_sys: inductive_invariant "\<lambda>s. s = pool_start" pool_step pool_inv
proof
  fix s t assume i: "pool_inv s" "pool_step s t"
  from i(2) show "pool_inv t"
  proof (rule pool_stepE)
    fix k r assume "k < COUNT_OF_THREADS" "worker_step k r s = Some t"
    then show ?thesis by (rule worker_inv [OF i(1)])
  next
    fix r assume "\<forall>fd. r = Conn fd \<longrightarrow> fd \<notin> set (accepted s)" "accept_step r s = Some t"
    then show ?thesis by (rule accept_inv [OF i(1)])
  next
    assume "t = handle_signal s"
    then show ?thesis using i(1) by (simp add: handle_signal_def)
  qed
qed (simp add: start_inv)


section \<open>Properties of the server\<close>

lemma pool_inv_facts:
  assumes "pool_inv s"
  shows "distinct (greeted s) \<and> accepted s = taken s @ queue s @ pending (main_pc s) \<and>
    mset (taken s) = mset (greeted s) + mset (held s)"
proof -
  have d: "distinct (accepted s)" "accepted s = taken s @ queue s @ pending (main_pc s)"
    "mset (taken s) = mset (greeted s) + mset (held s)"
    using assms unfolding pool_inv_def pool_ok_def by blast+
  have "distinct (taken s)" using d(1,2) by (metis distinct_append)
  moreover have "mset (taken s) = mset (greeted s @ held s)" using d(3) by simp
  ultimately have "distinct (greeted s @ held s)" by (metis mset_eq_imp_distinct_iff)
  then show ?thesis using d(2,3) by simp
qed

abbreviation pool_steps :: "pool \<Rightarrow> pool \<Rightarrow> bool" where
  "pool_steps \<equiv> pool_step\<^sup>*\<^sup>*"

abbreviation pool_reachable :: "pool \<Rightarrow> bool" where
  "pool_reachable \<equiv> reach (\<lambda>s. s = pool_start) pool_step"

section \<open>Refinement of the desk\<close>

text \<open>The server as a desk: who has come, how many of them a worker has taken, who has been greeted.\<close>

definition desk_of :: "'a pool_scheme \<Rightarrow> desk" where
  "desk_of s = \<lparr>came = accepted s, assigned = length (taken s), served = greeted s\<rparr>"

lemma desk_of_cong: "accepted t = accepted s \<Longrightarrow> taken t = taken s \<Longrightarrow> greeted t = greeted s \<Longrightarrow> desk_of t = desk_of s"
  by (simp add: desk_of_def)

lemma worker_desk:
  assumes "pool_inv s" "i < COUNT_OF_THREADS" "worker_step i r s = Some t"
  shows "desk_of t = desk_of s \<or> desk_step (desk_of s) (desk_of t)"
proof -
  have l: "length (workers s) = COUNT_OF_THREADS" "accepted s = taken s @ queue s @ pending (main_pc s)"
    "mset (taken s) = mset (greeted s @ held s)" "distinct (accepted s)"
    using assms(1) unfolding pool_inv_def pool_ok_def by auto
  note step = assms(3) [unfolded worker_step_def]
  show ?thesis
  proof (cases "workers s ! i")
    case WTake
    then consider "t = s\<lparr>status := Exited 1\<rparr>"
      | fd q where "queue s = fd # q" "t = goto_w i (WGreet fd) (s\<lparr>queue := q, taken := taken s @ [fd]\<rparr>)"
      using step by (auto split: if_splits list.splits)
    then show ?thesis
    proof cases
      case 1
      then show ?thesis by (simp add: desk_of_def)
    next
      case (2 fd q)
      then have "desk_of t = desk_of s\<lparr>assigned := Suc (assigned (desk_of s))\<rparr>" by (simp add: desk_of_def)
      moreover have "assigned (desk_of s) < length (came (desk_of s))" using l(2) 2(1) by (simp add: desk_of_def)
      ultimately show ?thesis using desk_step.assign by metis
    qed
  next
    case (WGreet fd)
    have "fd \<in> set (held s)" using WGreet l(1) assms(2) by (force simp: held_def in_set_conv_nth)
    moreover have "distinct (greeted s @ held s)" using l(2-4) by (metis distinct_append mset_eq_imp_distinct_iff)
    ultimately have "fd \<in> set (taken s)" "fd \<notin> set (greeted s)" using mset_eq_setD [OF l(3)] by auto
    then have "desk_step (desk_of s) (desk_of s\<lparr>served := served (desk_of s) @ [fd]\<rparr>)"
      using l(2) by (intro desk_step.serve) (simp_all add: desk_of_def)
    then show ?thesis using WGreet step by (auto simp: desk_of_def split: if_splits)
  qed (use step in \<open>auto simp: desk_of_def goto_w_def split: if_splits result.splits option.splits\<close>)
qed

lemma accept_desk:
  assumes "\<forall>fd. r = Conn fd \<longrightarrow> fd \<notin> set (accepted s)" "accept_step r s = Some t"
  shows "desk_of t = desk_of s \<or> desk_step (desk_of s) (desk_of t)"
proof (cases "main_pc s = MWait \<and> (\<exists>fd. r = Conn fd)")
  case True
  then obtain fd where "r = Conn fd" "t = s\<lparr>main_pc := MQueue fd, accepted := accepted s @ [fd]\<rparr>"
    using assms(2) by (auto simp: accept_step_def)
  then show ?thesis using assms(1) desk_step.arrive [of fd "desk_of s"] by (simp add: desk_of_def)
next
  case False
  then have "desk_of t = desk_of s"
    using assms(2) by (auto simp: accept_step_def desk_of_def split: main_pc.splits result.splits if_splits)
  then show ?thesis ..
qed

interpretation pool_desk: refinement "\<lambda>s. s = pool_start" pool_step pool_inv desk_of desk_init desk_step
proof
  fix s t assume i: "pool_inv s" "pool_step s t"
  from i(2) show "desk_of t = desk_of s \<or> desk_step (desk_of s) (desk_of t)"
  proof (rule pool_stepE)
    fix k r assume "k < COUNT_OF_THREADS" "worker_step k r s = Some t"
    then show ?thesis by (rule worker_desk [OF i(1)])
  next
    fix r assume "\<forall>fd. r = Conn fd \<longrightarrow> fd \<notin> set (accepted s)" "accept_step r s = Some t"
    then show ?thesis by (rule accept_desk)
  qed (simp add: handle_signal_def desk_of_def)
qed (simp add: desk_of_def desk_init_def pool_start_def)

text \<open>
  C5. Every run of the server is a run of the desk: whatever the threads do between the calls, connections arrive,
  are assigned in the order of arrival and are greeted after that, each once.  And none is lost: the
  accepted descriptors are those taken by workers, in that order, then those in the queue, then the one in
  the hands of \<open>main\<close>; those taken are the ones greeted and the ones a worker is about to greet.
\<close>

theorem pool_refines_desk:
  assumes "pool_reachable s" "pool_steps s t"
  shows "reach desk_init desk_step (desk_of s) \<and> desk_steps (desk_of s) (desk_of t) \<and> distinct (greeted t) \<and>
    accepted t = taken t @ queue t @ pending (main_pc t) \<and> mset (taken t) = mset (greeted t) + mset (held t)"
proof -
  have "pool_reachable t" using assms by (rule reach_steps [rotated])
  then show ?thesis using pool_inv_facts [OF pool_sys.always] pool_desk.simulated [OF assms(1)]
      pool_desk.simulated_run [OF assms(2) pool_sys.always [OF assms(1)]] by blast
qed

section \<open>Progress\<close>

text \<open>A free worker serves the head of the queue.\<close>

lemma serve_from_take:
  assumes "status s = Running" "i < COUNT_OF_THREADS" "length (workers s) = COUNT_OF_THREADS" "workers s ! i = WTake" "queue s = fd # q"
  shows "\<exists>t. pool_steps s t \<and> greeted t = greeted s @ [fd] \<and> status t = Running"
proof -
  define t where "t = goto_w i (WGreet fd) (s\<lparr>queue := q, taken := taken s @ [fd]\<rparr>)"
  define u where "u = goto_w i (WRead fd) (t\<lparr>greeted := greeted t @ [fd]\<rparr>)"
  have "worker_step i Done s = Some t" using assms by (simp add: worker_step_def t_def)
  then have 1: "pool_step s t" using assms by (intro by_worker)
  have "workers t ! i = WGreet fd" using assms by (simp add: t_def)
  then have "worker_step i Done t = Some u" by (simp add: worker_step_def u_def)
  then have 2: "pool_step t u" using assms by (intro by_worker) (simp_all add: t_def)
  have "greeted u = greeted s @ [fd]" "status u = Running" using assms by (simp_all add: u_def t_def)
  then show ?thesis using 1 2 by (meson converse_rtranclp_into_rtranclp r_into_rtranclp)
qed

lemma serve_from_try:
  assumes "status s = Running" "i < COUNT_OF_THREADS" "length (workers s) = COUNT_OF_THREADS" "workers s ! i = WTry"
    and "\<not> locked s ! i" "queue s = fd # q"
  shows "\<exists>t. pool_steps s t \<and> greeted t = greeted s @ [fd] \<and> status t = Running"
proof -
  define t where "t = goto_w i WTake (s\<lparr>locked := (locked s)[i := True]\<rparr>)"
  have "worker_step i Done s = Some t" using assms by (simp add: worker_step_def t_def)
  then have "pool_step s t" using assms by (intro by_worker)
  moreover have "\<exists>u. pool_steps t u \<and> greeted u = greeted t @ [fd] \<and> status u = Running"
    using assms by (intro serve_from_take [of _ i]) (simp_all add: t_def)
  moreover have "greeted t = greeted s" by (simp add: t_def)
  ultimately show ?thesis by (metis converse_rtranclp_into_rtranclp)
qed

text \<open>
  The pool makes progress: in every reachable state in which a connection waits in the queue and
  some worker is not busy with a client, a run exists in which that worker greets the connection
  (possibly after giving its mutex back).
\<close>

theorem pool_can_serve:
  assumes "pool_reachable s" "status s = Running" "queue s = fd # q" "i < COUNT_OF_THREADS" "workers s ! i \<in> {WOpen, WTry, WTake, WUnlock}"
  shows "\<exists>t. pool_steps s t \<and> greeted t = greeted s @ [fd] \<and> status t = Running"
proof -
  have l: "length (workers s) = COUNT_OF_THREADS" "length (locked s) = COUNT_OF_THREADS" "locked s ! i \<longleftrightarrow> owns (workers s ! i)"
    using pool_sys.always [OF assms(1)] assms(4) unfolding pool_inv_def pool_ok_def by blast+
  consider "workers s ! i = WOpen" | "workers s ! i = WTry" | "workers s ! i = WTake" | "workers s ! i = WUnlock" using assms(5) by blast
  then show ?thesis
  proof cases
    case 1
    define t where "t = goto_w i WTry s"
    have "worker_step i Done s = Some t" using 1 by (simp add: worker_step_def t_def)
    then have "pool_step s t" using assms by (intro by_worker)
    moreover have "\<exists>u. pool_steps t u \<and> greeted u = greeted t @ [fd] \<and> status u = Running"
      using l assms 1 by (intro serve_from_try [of _ i]) (simp_all add: t_def)
    moreover have "greeted t = greeted s" by (simp add: t_def)
    ultimately show ?thesis by (metis converse_rtranclp_into_rtranclp)
  next
    case 2
    then show ?thesis using l assms by (intro serve_from_try) simp_all
  next
    case 3
    then show ?thesis using l assms by (intro serve_from_take) simp_all
  next
    case 4
    define t where "t = goto_w i WTry (s\<lparr>locked := (locked s)[i := False]\<rparr>)"
    have "worker_step i Done s = Some t" using 4 by (simp add: worker_step_def t_def)
    then have "pool_step s t" using assms by (intro by_worker)
    moreover have "\<exists>u. pool_steps t u \<and> greeted u = greeted t @ [fd] \<and> status u = Running"
      using l assms by (intro serve_from_try [of _ i]) (simp_all add: t_def)
    moreover have "greeted t = greeted s" by (simp add: t_def)
    ultimately show ?thesis by (metis converse_rtranclp_into_rtranclp)
  qed
qed

text \<open>Instances: a state with one connection in the queue.\<close>

lemma one_queued: "pool_reachable (pool_start\<lparr>accepted := [4], queue := [4]\<rparr>)"
proof -
  let ?t = "pool_start\<lparr>main_pc := MQueue 4, accepted := [4]\<rparr>"
  have "pool_step pool_start ?t"
    by (rule by_main [of _ "Conn 4"]) (simp_all add: pool_start_def accept_step_def)
  moreover have "pool_step ?t (pool_start\<lparr>accepted := [4], queue := [4]\<rparr>)"
    by (rule by_main [of _ Done]) (simp_all add: pool_start_def accept_step_def)
  ultimately show ?thesis by (blast intro: reach_init reach_step)
qed

theorem pool_refines_desk_witness:
  "desk_steps (desk_of pool_start) (desk_of (pool_start\<lparr>accepted := [4], queue := [4]\<rparr>))"
proof -
  have "pool_steps pool_start (pool_start\<lparr>accepted := [4], queue := [4]\<rparr>)"
    using one_queued by (induction rule: reach.induct) (auto intro: rtranclp.rtrancl_into_rtrancl)
  moreover have "pool_reachable pool_start" by (rule reach_init) simp
  ultimately show ?thesis using pool_refines_desk by blast
qed

theorem pool_can_serve_witness:
  "\<exists>t. pool_steps (pool_start\<lparr>accepted := [4], queue := [4]\<rparr>) t \<and> greeted t = [] @ [4] \<and> status t = Running"
  using pool_can_serve [OF one_queued, of 4 "[]" 3] by (simp add: pool_start_def COUNT_OF_THREADS_def)

end
