(* ===== verification/TwoPools.thy ===== *)
theory TwoPools
  imports Pool_Correct
begin

text \<open>
  The servers of \<open>sokets2/4scheme\<close> and \<open>sokets2/1-2scheme\<close>.  The first has two pools of workers: the one
  of \<open>Pool\<close> for TCP, and one for UDP whose queue carries a pointer to the one variable \<open>udp_cln\<close> of
  \<open>main\<close>.  The second starts one thread for each connection and passes it a pointer to \<open>client_fd\<close>.
\<close>

section \<open>Two pools\<close>

text \<open>A UDP worker; the address it works with is \<open>*client\<close>, the shared variable.\<close>

datatype worker2 = UOpen | UTry | UTake | UGreet | URead | UShow "char list" | UUnlock

text \<open>
  \<open>queue2\<close> counts the messages of the second queue, which are all the same pointer.  \<open>sock\<close>: the
  datagrams that wait in the UDP socket, with their senders; \<open>backlog\<close>: connections not yet accepted.
  \<open>requested\<close>, \<open>answered\<close>: the senders \<open>main\<close> has read, the addresses that got the greeting; \<open>unread\<close> counts
  the calls of \<open>recvfrom\<close> in \<open>main\<close> that failed, which it does not test.
\<close>

record server4 = pool +
  udp_cln :: int
  queue2 :: nat
  workers2 :: "worker2 list"
  locked2 :: "bool list"
  sock :: "(int \<times> char list) list"
  backlog :: nat
  requested :: "int list"
  unread :: nat
  answered :: "int list"

definition goto_u :: "nat \<Rightarrow> worker2 \<Rightarrow> server4 \<Rightarrow> server4" where
  "goto_u i pc s = s\<lparr>workers2 := (workers2 s)[i := pc]\<rparr>"

text \<open>The function \<open>process2\<close>; worker \<open>i\<close> has the mutex \<open>COUNT_OF_THREADS + i\<close>.\<close>

definition worker2_step :: "nat \<Rightarrow> result \<Rightarrow> server4 \<Rightarrow> server4 option" where
  "worker2_step i r s =
     (case workers2 s ! i of
        UOpen \<Rightarrow> Some (if r = Fail then s\<lparr>status := Exited 1\<rparr> else goto_u i UTry s)
      | UTry \<Rightarrow> Some (if locked2 s ! i then s else goto_u i UTake (s\<lparr>locked2 := (locked2 s)[i := True]\<rparr>))
      | UTake \<Rightarrow>
          (if r = Fail then Some (s\<lparr>status := Exited 1\<rparr>)
           else (case queue2 s of 0 \<Rightarrow> None | Suc n \<Rightarrow> Some (goto_u i UGreet (s\<lparr>queue2 := n\<rparr>))))
      | UGreet \<Rightarrow>
          (if r = Fail then Some (s\<lparr>status := Exited 1\<rparr>)
           else Some (goto_u i URead (s\<lparr>answered := answered s @ [udp_cln s]\<rparr>)))
      | URead \<Rightarrow>
          (case r of
             Data d junk \<Rightarrow>
               (case sock s of
                  [] \<Rightarrow> None
                | (a, d') # rest \<Rightarrow>
                    if d' = d
                    then Some (goto_u i (UShow (take SIZE_BUF d @ drop (length d) junk)) (s\<lparr>sock := rest, udp_cln := a\<rparr>))
                    else None)
           | Fail \<Rightarrow> Some (s\<lparr>status := Exited 1\<rparr>)
           | _ \<Rightarrow> None)
      | UShow buf \<Rightarrow>
          (case rd_str buf of
             None \<Rightarrow> Some (s\<lparr>status := Undefined\<rparr>)
           | Some t \<Rightarrow> Some (goto_u i UUnlock (s\<lparr>shown := shown s @ [''receive massage: '' @ t]\<rparr>)))
      | UUnlock \<Rightarrow> Some (goto_u i UTry (s\<lparr>locked2 := (locked2 s)[i := False]\<rparr>)))"

text \<open>
  The loop of \<open>main\<close>, one call of the system at a time.  \<open>epoll_wait\<close> is allowed 15 events but has room for one, so that two ready
  sockets overflow it.  \<open>accept\<close> and \<open>recvfrom\<close> wait when nothing is there any more, as when a worker has taken the datagram; a
  failing \<open>recvfrom\<close> leaves \<open>udp_cln\<close> as it was, and the message is queued all the same.
\<close>

definition next_round :: "server4 \<Rightarrow> server4" where
  "next_round s = (if main_pc s = MWait then s\<lparr>main_pc := MEpoll\<rparr> else s)"

definition main4_step :: "result \<Rightarrow> server4 \<Rightarrow> server4 option" where
  "main4_step r s =
     (case main_pc s of
        MEpoll \<Rightarrow>
          (if r = Fail then Some (s\<lparr>status := Exited 1\<rparr>)
           else if 0 < backlog s \<and> sock s \<noteq> [] then Some (s\<lparr>status := Undefined\<rparr>)
           else if 0 < backlog s then Some (s\<lparr>main_pc := MWait\<rparr>)
           else if sock s \<noteq> [] then Some (s\<lparr>main_pc := MRecv\<rparr>)
           else None)
      | MWait \<Rightarrow>
          (if r = Fail then accept_step r s
           else if 0 < backlog s then accept_step r (s\<lparr>backlog := backlog s - 1\<rparr>)
           else None)
      | MQueue fd \<Rightarrow> map_option next_round (accept_step r s)
      | MRecv \<Rightarrow>
          (if r = Fail then Some (s\<lparr>unread := unread s + 1, main_pc := MQueue2\<rparr>)
           else (case sock s of
              [] \<Rightarrow> None
            | (a, d) # rest \<Rightarrow> Some (s\<lparr>sock := rest, udp_cln := a, requested := requested s @ [a], main_pc := MQueue2\<rparr>)))
      | MQueue2 \<Rightarrow>
          (if r = Fail then Some (s\<lparr>status := Exited 1\<rparr>)
           else Some (s\<lparr>queue2 := queue2 s + 1, main_pc := MSleep\<rparr>))
      | MSleep \<Rightarrow> Some (s\<lparr>main_pc := MEpoll\<rparr>))"

text \<open>
  The function \<open>process\<close> and the handlers of this server are those of the first one, on its own state;
  the handlers close three descriptors instead of one.
\<close>

definition tcp_worker_step :: "nat \<Rightarrow> result \<Rightarrow> server4 \<Rightarrow> server4 option" where
  "tcp_worker_step i r s = worker_step i r s"

definition handle_signal4 :: "server4 \<Rightarrow> server4" where
  "handle_signal4 s = handle_signal s"

inductive server4_step :: "server4 \<Rightarrow> server4 \<Rightarrow> bool" where
  tcp_worker: "status s = Running \<Longrightarrow> i < COUNT_OF_THREADS \<Longrightarrow> tcp_worker_step i r s = Some t \<Longrightarrow> server4_step s t"
| udp_worker: "status s = Running \<Longrightarrow> i < COUNT_OF_THREADS \<Longrightarrow> worker2_step i r s = Some t \<Longrightarrow> server4_step s t"
| main4: "status s = Running \<Longrightarrow> \<forall>fd. r = Conn fd \<longrightarrow> fd \<notin> set (accepted s) \<Longrightarrow> main4_step r s = Some t \<Longrightarrow> server4_step s t"
| connection: "server4_step s (s\<lparr>backlog := backlog s + 1\<rparr>)"
| datagram: "server4_step s (s\<lparr>sock := sock s @ [(a, d)]\<rparr>)"
| signal4: "status s = Running \<Longrightarrow> server4_step s (handle_signal4 s)"

inductive_cases server4_stepE: "server4_step s t"

text \<open>
  The loop that starts the threads \<open>i\<close> up to \<open>n\<close>: each gets a pointer to its element of the array, which
  holds its number.
\<close>

function create_loop :: "int \<Rightarrow> int \<Rightarrow> int list \<Rightarrow> int list option" where
  "create_loop n i a = (if i < n then do { a' \<leftarrow> aset a i i; create_loop n (i + 1) a' } else Some a)"
  by pat_completeness auto
termination by (relation "measure (\<lambda>(n, i, a). nat (n - i))") auto

declare create_loop.simps [simp del]

definition create_threads :: "int list \<Rightarrow> int list \<Rightarrow> (int list \<times> int list) option" where
  "create_threads arr arr2 =
     do { a \<leftarrow> create_loop (int COUNT_OF_THREADS) 0 arr;
          b \<leftarrow> create_loop (2 * int COUNT_OF_THREADS) (int COUNT_OF_THREADS) arr2;
          Some (a, b) }"

text \<open>The calls before that can fail, in order, and the state once all threads have started.\<close>

definition server4_setup :: "bool list \<Rightarrow> string option" where
  "server4_setup oks = first_error (zip
     [''signal SIGINT'', ''signal SIGTSTP'', ''msgget1'', ''msgget2'', ''socket - tcp'', ''socket - udp'',
      ''bind to tcp'', ''bind to udp'', ''listen'', ''epoll_create1'', ''epoll_ctl - tcp'', ''epoll_ctl - udp''] oks)"

definition server4_start :: server4 where
  "server4_start = pool.extend (pool_start\<lparr>main_pc := MEpoll\<rparr>) \<lparr>udp_cln = 0, queue2 = 0, workers2 = replicate COUNT_OF_THREADS UOpen,
     locked2 = replicate COUNT_OF_THREADS False, sock = [], backlog = 0, requested = [], unread = 0, answered = []\<rparr>"

text \<open>
  The server comes to its loop only if starting the threads has defined behaviour: \<open>mem\<close> is the memory from \<open>arr2\<close> on that the
  loop may write.
\<close>

definition server4_started :: "int list \<Rightarrow> int list \<Rightarrow> server4 option" where
  "server4_started arr mem = do { _ \<leftarrow> create_threads arr mem; Some server4_start }"

section \<open>A thread for each connection\<close>

datatype thread = TStart | TGreet int | TRead int | TShow "char list" | TDone

datatype main12_pc = AAccept | ACreate | AJoin | ADone

record server12 =
  status1 :: status
  main1 :: main12_pc
  client_fd :: int
  threads :: "thread list"
  accepted1 :: "int list"
  greeted1 :: "int list"
  shown1 :: "string list"

definition goto_t :: "nat \<Rightarrow> thread \<Rightarrow> server12 \<Rightarrow> server12" where
  "goto_t i pc s = s\<lparr>threads := (threads s)[i := pc]\<rparr>"

text \<open>The body of \<open>process\<close>: the argument points to the variable \<open>client_fd\<close> of \<open>main\<close>.\<close>

definition thread_step :: "nat \<Rightarrow> result \<Rightarrow> server12 \<Rightarrow> server12 option" where
  "thread_step i r s =
     (case threads s ! i of
        TStart \<Rightarrow> Some (goto_t i (TGreet (client_fd s)) s)
      | TGreet fd \<Rightarrow>
          (if r = Fail then Some (s\<lparr>status1 := Exited 1\<rparr>)
           else Some (goto_t i (TRead fd) (s\<lparr>greeted1 := greeted1 s @ [fd]\<rparr>)))
      | TRead fd \<Rightarrow>
          (case r of
             Data d junk \<Rightarrow> Some (goto_t i (TShow (take SIZE_BUF d @ drop (length d) junk)) s)
           | Fail \<Rightarrow> Some (s\<lparr>status1 := Exited 1\<rparr>)
           | _ \<Rightarrow> None)
      | TShow buf \<Rightarrow>
          (case rd_str buf of
             None \<Rightarrow> Some (s\<lparr>status1 := Undefined\<rparr>)
           | Some t \<Rightarrow> Some (goto_t i TDone (s\<lparr>shown1 := shown1 s @ [''receive massage: '' @ t]\<rparr>)))
      | TDone \<Rightarrow> None)"

definition main12_step :: "result \<Rightarrow> server12 \<Rightarrow> server12 option" where
  "main12_step r s =
     (case main1 s of
        AAccept \<Rightarrow>
          (case r of
             Conn fd \<Rightarrow> Some (s\<lparr>main1 := ACreate, client_fd := fd, accepted1 := accepted1 s @ [fd],
               shown1 := shown1 s @ [show_int fd @ [NL]]\<rparr>)
           | Fail \<Rightarrow> Some (s\<lparr>status1 := Exited 1\<rparr>)
           | _ \<Rightarrow> None)
      | ACreate \<Rightarrow>
          (let n = length (threads s) + 1 in
           Some (s\<lparr>threads := threads s @ [TStart], main1 := (if n > COUNT_OF_THREADS - 1 then AJoin else AAccept)\<rparr>))
      | AJoin \<Rightarrow>
          (if list_all (\<lambda>t. t = TDone) (threads s) then Some (s\<lparr>main1 := ADone, status1 := Exited 0\<rparr>) else None)
      | ADone \<Rightarrow> None)"

inductive server12_step :: "server12 \<Rightarrow> server12 \<Rightarrow> bool" where
  by_thread: "status1 s = Running \<Longrightarrow> i < length (threads s) \<Longrightarrow> thread_step i r s = Some t \<Longrightarrow> server12_step s t"
| by_main12: "status1 s = Running \<Longrightarrow> main12_step r s = Some t \<Longrightarrow> server12_step s t"
| by_signal12: "status1 s = Running \<Longrightarrow> server12_step s (s\<lparr>status1 := Exited 0, shown1 := shown1 s @ [[NL]]\<rparr>)"

inductive_cases server12_stepE: "server12_step s t"

definition server12_start :: "int \<Rightarrow> server12" where
  "server12_start junk = \<lparr>status1 = Running, main1 = AAccept, client_fd = junk, threads = [], accepted1 = [],
     greeted1 = [], shown1 = []\<rparr>"

text \<open>The calls of \<open>main\<close> before its loop; the first that fails ends the process with status 1.\<close>

definition server12_setup :: "bool list \<Rightarrow> string option" where
  "server12_setup oks = first_error (zip
     [''signal SIGINT'', ''signal SIGTSTP'', ''socket in Server'', ''bind'', ''listen''] oks)"

end
