(* ===== verification/TwoPools_Correct.thy ===== *)
theory TwoPools_Correct
  imports TwoPools
begin

text \<open>
  Correctness of the two other servers: the TCP side of the first refines the desk of \<open>Dispatch\<close>; the
  counts of its UDP pool are right but the answers can go to the wrong client, and so can the greetings of the server with a thread for each connection, which
  ends after fifteen connections.
\<close>

section \<open>Starting the threads\<close>

lemma create_loop_in_bounds:
  "0 \<le> i \<Longrightarrow> i \<le> n \<Longrightarrow> n \<le> int (length a) \<Longrightarrow> \<exists>b. create_loop n i a = Some b \<and> length b = length a"
proof (induction n i a rule: create_loop.induct)
  case (1 n i a)
  show ?case
  proof (cases "i < n")
    case True
    have "aset a i i = Some (a[nat i := i])" using True "1.prems" by (simp add: aset_def)
    then show ?thesis using "1.IH" [of "a[nat i := i]"] True "1.prems" by (subst create_loop.simps) auto
  next
    case False
    then show ?thesis by (subst create_loop.simps) simp
  qed
qed

text \<open>
  The server of \<open>4scheme\<close> has no defined behaviour: \<open>arr2\<close> has fifteen elements and is written at
  the indices fifteen to twenty-nine.  (\<open>arr\<close> alone would be in bounds.)
\<close>

theorem create_threads_undefined:
  assumes "length arr = COUNT_OF_THREADS" "length arr2 = COUNT_OF_THREADS"
  shows "create_threads arr arr2 = None \<and> create_loop (int COUNT_OF_THREADS) 0 arr \<noteq> None"
proof -
  have "create_loop (2 * int COUNT_OF_THREADS) (int COUNT_OF_THREADS) arr2 = None"
    using assms(2) by (subst create_loop.simps) (simp add: COUNT_OF_THREADS_def aset_def)
  then show ?thesis using create_loop_in_bounds [of 0 "int COUNT_OF_THREADS" arr] assms(1)
    by (auto simp: create_threads_def)
qed

theorem create_threads_undefined_witness:
  "create_threads (replicate 15 0) (replicate 15 0) = None \<and> create_loop (int COUNT_OF_THREADS) 0 (replicate 15 0) \<noteq> None"
  by (rule create_threads_undefined) (simp_all add: COUNT_OF_THREADS_def)

section \<open>Two pools\<close>

fun asks :: "worker2 \<Rightarrow> nat" where
  "asks UGreet = 1"
| "asks _ = 0"

fun pending2 :: "main_pc \<Rightarrow> nat" where
  "pending2 MQueue2 = 1"
| "pending2 _ = 0"

definition udp_inv :: "server4 \<Rightarrow> bool" where
  "udp_inv s \<longleftrightarrow> length (workers2 s) = COUNT_OF_THREADS \<and>
     length (requested s) + unread s = length (answered s) + sum_list (map asks (workers2 s)) + queue2 s + pending2 (main_pc s)"

lemma worker_step_udp:
  "worker_step i r (s :: server4) = Some t \<Longrightarrow>
   workers2 t = workers2 s \<and> requested t = requested s \<and> unread t = unread s \<and> answered t = answered s \<and> queue2 t = queue2 s \<and> main_pc t = main_pc s"
  by (auto simp: worker_step_def goto_w_def split: worker.splits if_splits list.splits result.splits option.splits)

lemma accept_step_udp:
  "accept_step r (s :: server4) = Some t \<Longrightarrow>
   workers2 t = workers2 s \<and> requested t = requested s \<and> unread t = unread s \<and> answered t = answered s \<and> queue2 t = queue2 s \<and>
   pending2 (main_pc t) = pending2 (main_pc s)"
  by (auto simp: accept_step_def split: main_pc.splits if_splits result.splits)

lemma udp_inv_cong:
  assumes "udp_inv s" "workers2 t = workers2 s \<and> requested t = requested s \<and> unread t = unread s \<and> answered t = answered s \<and> queue2 t = queue2 s"
    and "pending2 (main_pc t) = pending2 (main_pc s)"
  shows "udp_inv t"
  using assms by (simp add: udp_inv_def)

text \<open>A UDP worker moves.\<close>

lemma udp_move:
  assumes "udp_inv s" "i < COUNT_OF_THREADS" "workers2 t = (workers2 s)[i := pc]" "requested t = requested s" "unread t = unread s" "main_pc t = main_pc s"
    and "length (answered t) + asks pc + queue2 t = length (answered s) + asks (workers2 s ! i) + queue2 s"
  shows "udp_inv t"
  using assms sum_list_update [of i "workers2 s" asks pc] by (simp add: udp_inv_def)

lemma list_update_same: "xs ! i = x \<Longrightarrow> xs = xs[i := x]"
  by auto

lemma worker2_udp:
  assumes "udp_inv s" "i < COUNT_OF_THREADS" "worker2_step i r s = Some t"
  shows "udp_inv t"
proof -
  have "i < length (workers2 s)" using assms(1,2) by (simp add: udp_inv_def)
  then have "workers2 t = (workers2 s)[i := workers2 t ! i] \<and> requested t = requested s \<and> unread t = unread s \<and> main_pc t = main_pc s \<and>
       length (answered t) + asks (workers2 t ! i) + queue2 t = length (answered s) + asks (workers2 s ! i) + queue2 s"
    using assms(3)
    by (cases "workers2 s ! i")
      (auto simp: worker2_step_def goto_u_def list_update_same
        split: if_splits nat.splits list.splits result.splits option.splits)
  then show ?thesis by (intro udp_move [OF assms(1,2), where pc = "workers2 t ! i"]) simp_all
qed

lemma worker2_pool:
  assumes "pool_inv s" "worker2_step i r s = Some t"
  shows "pool_inv t"
proof -
  have "workers t = workers s \<and> locked t = locked s \<and> accepted t = accepted s \<and> taken t = taken s \<and> queue t = queue s \<and>
      main_pc t = main_pc s \<and> greeted t = greeted s"
    using assms(2) by (auto simp: worker2_step_def goto_u_def
        split: worker2.splits if_splits nat.splits list.splits result.splits option.splits)
  then show ?thesis using assms(1) by (simp add: pool_inv_def held_def)
qed

text \<open>What a step of \<open>main\<close> can be.\<close>

lemma main4_cases:
  assumes "main4_step r s = Some t"
  obtains b where "accept_step r (s\<lparr>backlog := b\<rparr>) = Some t"
  | u where "accept_step r s = Some u" "t = next_round u"
  | st where "t = s\<lparr>status := st\<rparr>"
  | pc where "main_pc s = MEpoll" "pc \<in> {MWait, MRecv}" "t = s\<lparr>main_pc := pc\<rparr>"
  | "main_pc s = MRecv" "t = s\<lparr>unread := unread s + 1, main_pc := MQueue2\<rparr>"
  | a d rest where "main_pc s = MRecv" "sock s = (a, d) # rest"
      "t = s\<lparr>sock := rest, udp_cln := a, requested := requested s @ [a], main_pc := MQueue2\<rparr>"
  | "main_pc s = MQueue2" "t = s\<lparr>queue2 := queue2 s + 1, main_pc := MSleep\<rparr>"
  | "main_pc s = MSleep" "t = s\<lparr>main_pc := MEpoll\<rparr>"
proof (cases "main_pc s")
  case MEpoll
  then show ?thesis using assms that(3) that(4) [OF MEpoll] by (auto simp: main4_step_def split: if_splits)
next
  case MWait
  then have "accept_step r (s\<lparr>backlog := backlog s\<rparr>) = Some t \<or> accept_step r (s\<lparr>backlog := backlog s - 1\<rparr>) = Some t"
    using assms by (simp add: main4_step_def split: if_splits)
  then show ?thesis using that(1) by blast
next
  case (MQueue fd)
  then show ?thesis using assms that(2) by (auto simp: main4_step_def)
next
  case MRecv
  then show ?thesis using assms that(5) [OF MRecv] that(6) [OF MRecv] by (auto simp: main4_step_def split: if_splits list.splits)
next
  case MQueue2
  then show ?thesis using assms that(3) that(7) [OF MQueue2] by (auto simp: main4_step_def split: if_splits)
next
  case MSleep
  then show ?thesis using assms that(8) [OF MSleep] by (auto simp: main4_step_def)
qed

text \<open>The next round of the loop: nothing is pending.\<close>

lemma next_round [simp]: "pending2 (main_pc (next_round s)) = pending2 (main_pc s)" "pool_inv (next_round s) = pool_inv s" "desk_of (next_round s) = desk_of s"
  "workers2 (next_round s) = workers2 s" "requested (next_round s) = requested s" "unread (next_round s) = unread s"
  "answered (next_round s) = answered s" "queue2 (next_round s) = queue2 s"
  by (simp_all add: next_round_def pool_inv_def held_def desk_of_def)

lemma main4_udp:
  assumes "udp_inv s" "main4_step r s = Some t"
  shows "udp_inv t"
  using assms(2)
proof (rule main4_cases)
  fix b assume "accept_step r (s\<lparr>backlog := b\<rparr>) = Some t"
  from accept_step_udp [OF this] show ?thesis using udp_inv_cong [OF assms(1), of t] by simp
next
  fix u assume "accept_step r s = Some u" "t = next_round u"
  then show ?thesis using accept_step_udp [of r s u] udp_inv_cong [OF assms(1), of t] by simp
qed (use assms(1) in \<open>auto simp: udp_inv_def\<close>)

lemma main4_pool:
  assumes "pool_inv s" "\<forall>fd. r = Conn fd \<longrightarrow> fd \<notin> set (accepted s)" "main4_step r s = Some t"
  shows "pool_inv t"
  using assms(3)
proof (rule main4_cases)
  fix b assume "accept_step r (s\<lparr>backlog := b\<rparr>) = Some t"
  moreover have "pool_inv (s\<lparr>backlog := b\<rparr>)" using assms(1) by (simp add: pool_inv_def held_def)
  ultimately show ?thesis using assms(2) accept_inv [of "s\<lparr>backlog := b\<rparr>" r t] by simp
next
  fix u assume "accept_step r s = Some u" "t = next_round u"
  then show ?thesis using accept_inv [OF assms(1,2)] by simp
qed (use assms(1) in \<open>auto simp: pool_inv_def held_def\<close>)

interpretation server4_sys: inductive_invariant "\<lambda>s. s = server4_start" server4_step "\<lambda>s. pool_inv s \<and> udp_inv s"
proof
  fix s assume s: "s = server4_start"
  have "pool_inv server4_start"
    by (simp add: pool_inv_def pool_ok_def held_def server4_start_def pool_start_def pool.extend_def)
  moreover have "udp_inv server4_start"
    by (simp add: udp_inv_def server4_start_def pool_start_def pool.extend_def sum_list_replicate map_replicate)
  ultimately show "pool_inv s \<and> udp_inv s" using s by simp
next
  fix s t assume i: "pool_inv s \<and> udp_inv s" "server4_step s t"
  from i(2) show "pool_inv t \<and> udp_inv t"
  proof (rule server4_stepE)
    fix k r assume k: "k < COUNT_OF_THREADS" "tcp_worker_step k r s = Some t"
    note k = k [unfolded tcp_worker_step_def]
    have "udp_inv t" using i(1) worker_step_udp [OF k(2)] by (simp add: udp_inv_def)
    then show ?thesis using worker_inv [OF _ k] i(1) by simp
  next
    fix k r assume k: "k < COUNT_OF_THREADS" "worker2_step k r s = Some t"
    then show ?thesis using i(1) worker2_udp worker2_pool by blast
  next
    fix r assume "\<forall>fd. r = Conn fd \<longrightarrow> fd \<notin> set (accepted s)" "main4_step r s = Some t"
    then show ?thesis using i(1) main4_udp main4_pool by blast
  qed (use i(1) in \<open>simp_all add: pool_inv_def held_def udp_inv_def handle_signal4_def handle_signal_def\<close>)
qed

lemma worker2_desk: "worker2_step i r s = Some t \<Longrightarrow> desk_of t = desk_of s"
  by (cases "workers2 s ! i")
    (auto simp: worker2_step_def goto_u_def desk_of_def split: if_splits nat.splits list.splits result.splits option.splits)

lemma main4_desk:
  assumes "\<forall>fd. r = Conn fd \<longrightarrow> fd \<notin> set (accepted s)" "main4_step r s = Some t"
  shows "desk_of t = desk_of s \<or> desk_step (desk_of s) (desk_of t)"
  using assms(2)
proof (rule main4_cases)
  fix b assume "accept_step r (s\<lparr>backlog := b\<rparr>) = Some t"
  from accept_desk [OF _ this] show ?thesis using assms(1) by (simp add: desk_of_def)
next
  fix u assume "accept_step r s = Some u" "t = next_round u"
  then show ?thesis using accept_desk [OF assms(1)] by simp
qed (simp_all add: desk_of_def)

interpretation server4_desk: refinement "\<lambda>s. s = server4_start" server4_step "\<lambda>s. pool_inv s \<and> udp_inv s" desk_of desk_init desk_step
proof
  fix s t assume i: "pool_inv s \<and> udp_inv s" "server4_step s t"
  from i(2) show "desk_of t = desk_of s \<or> desk_step (desk_of s) (desk_of t)"
  proof (rule server4_stepE)
    fix k r assume "k < COUNT_OF_THREADS" "tcp_worker_step k r s = Some t"
    then show ?thesis unfolding tcp_worker_step_def by (intro worker_desk [OF conjunct1 [OF i(1)]])
  next
    fix k r assume "worker2_step k r s = Some t"
    then show ?thesis using worker2_desk by blast
  next
    fix r assume "\<forall>fd. r = Conn fd \<longrightarrow> fd \<notin> set (accepted s)" "main4_step r s = Some t"
    then show ?thesis by (rule main4_desk)
  qed (simp_all add: desk_of_def handle_signal4_def handle_signal_def)
qed (simp add: desk_of_def desk_init_def server4_start_def pool_start_def pool.extend_def)

abbreviation server4_reachable :: "server4 \<Rightarrow> bool" where
  "server4_reachable \<equiv> reach (\<lambda>s. s = server4_start) server4_step"

text \<open>
  The writes behind \<open>arr2\<close> do no harm when the memory there is not used for anything else: then the loop ends, the
  threads get the numbers 0 to 29 and the server comes to its loop.
\<close>

lemma create_loop_numbers:
  "0 \<le> i \<Longrightarrow> i \<le> n \<Longrightarrow> n \<le> int (length a) \<Longrightarrow>
   \<exists>b. create_loop n i a = Some b \<and> length b = length a \<and> (\<forall>k < length a. b ! k = (if i \<le> int k \<and> int k < n then int k else a ! k))"
proof (induction n i a rule: create_loop.induct)
  case (1 n i a)
  show ?case
  proof (cases "i < n")
    case True
    have "aset a i i = Some (a[nat i := i])" using True "1.prems" by (simp add: aset_def)
    moreover obtain b where "create_loop n (i + 1) (a[nat i := i]) = Some b" "length b = length a"
      "\<forall>k < length a. b ! k = (if i + 1 \<le> int k \<and> int k < n then int k else a[nat i := i] ! k)"
      using "1.IH" [of "a[nat i := i]"] True "1.prems" calculation by auto
    moreover have "a[nat i := i] ! k = (if int k = i then int k else a ! k)" if "k < length a" for k
      using that "1.prems"(1) by (auto simp: nth_list_update)
    ultimately show ?thesis using True by (subst create_loop.simps) auto
  next
    case False
    then show ?thesis by (subst create_loop.simps) auto
  qed
qed

lemma server4_started_iff:
  assumes "length arr = COUNT_OF_THREADS"
  shows "server4_started arr mem = (if length mem < 2 * COUNT_OF_THREADS then None else Some server4_start)"
proof (cases "length mem < 2 * COUNT_OF_THREADS")
  case False
  then show ?thesis
    using assms create_loop_numbers [of 0 "int COUNT_OF_THREADS" arr] create_loop_numbers [of "int COUNT_OF_THREADS" "2 * int COUNT_OF_THREADS" mem]
    by (auto simp: server4_started_def create_threads_def)
next
  case True
  have "create_loop n i a = None" if "0 \<le> i" "i \<le> int (length a)" "int (length a) < n" for n i and a :: "int list"
    using that
  proof (induction n i a rule: create_loop.induct)
    case (1 n i a)
    then show ?case by (subst create_loop.simps) (auto simp: aset_def bind_eq_None_conv)
  qed
  moreover have "create_loop n i a = None" if "int (length a) \<le> i" "i < n" for n i and a :: "int list"
    using that by (subst create_loop.simps) (simp add: aset_def)
  ultimately have "create_loop (2 * int COUNT_OF_THREADS) (int COUNT_OF_THREADS) mem = None"
    using True by (cases "COUNT_OF_THREADS \<le> length mem") (simp_all add: COUNT_OF_THREADS_def)
  then show ?thesis using True assms create_loop_in_bounds [of 0 "int COUNT_OF_THREADS" arr] by (auto simp: server4_started_def create_threads_def)
qed

text \<open>
  C21. The server gets to its loop only if the fifteen numbers that it writes behind \<open>arr2\<close> fall into memory that it
  may write: \<open>mem\<close> is \<open>arr2\<close> with what lies behind it, and with less than thirty elements there is no start.  From then on, whatever the
  threads do and whichever calls fail, the TCP side is a desk like that of the first server, and no connection is lost; and every datagram that \<open>main\<close> has read,
  and every failed \<open>recvfrom\<close>, which it takes for one, leads to exactly one answer: sent, about to be sent, or in the queue.
\<close>

theorem server4_answers_count:
  assumes "length arr = COUNT_OF_THREADS" "reach (\<lambda>s. server4_started arr mem = Some s) server4_step s"
  shows "2 * COUNT_OF_THREADS \<le> length mem \<and> reach desk_init desk_step (desk_of s) \<and> accepted s = taken s @ queue s @ pending (main_pc s) \<and>
    length (requested s) + unread s = length (answered s) + sum_list (map asks (workers2 s)) + queue2 s + pending2 (main_pc s)"
proof -
  have r: "server4_reachable s \<and> 2 * COUNT_OF_THREADS \<le> length mem" using assms(2)
  proof (induction rule: reach.induct)
    case (reach_init s)
    then show ?case using assms(1) by (auto simp: server4_started_iff split: if_splits intro: reach.reach_init)
  next
    case (reach_step s t)
    then show ?case using reach.reach_step by metis
  qed
  then have "pool_inv s" "udp_inv s" using server4_sys.always [of s] by simp_all
  then show ?thesis using pool_inv_facts [of s] server4_desk.simulated [of s] r by (auto simp: udp_inv_def)
qed

text \<open>A schedule for the runs below: which thread acts, with which result.\<close>

datatype act = Main result | Udp nat result | Arrive int "char list" | Connect

fun act_step :: "act \<Rightarrow> server4 \<Rightarrow> server4 option" where
  "act_step (Main r) s = (if status s = Running \<and> (\<forall>fd \<in> set (accepted s). r \<noteq> Conn fd) then main4_step r s else None)"
| "act_step (Udp i r) s = (if status s = Running \<and> i < COUNT_OF_THREADS then worker2_step i r s else None)"
| "act_step (Arrive a d) s = Some (s\<lparr>sock := sock s @ [(a, d)]\<rparr>)"
| "act_step Connect s = Some (s\<lparr>backlog := backlog s + 1\<rparr>)"

fun run_acts :: "act list \<Rightarrow> server4 \<Rightarrow> server4 option" where
  "run_acts [] s = Some s"
| "run_acts (a # as) s = do { t \<leftarrow> act_step a s; run_acts as t }"

lemma act_step_step: "act_step a s = Some t \<Longrightarrow> server4_step s t"
proof (cases a)
  case (Main r)
  assume "act_step a s = Some t"
  then show ?thesis using Main by (intro main4 [of _ r]) (auto split: if_splits)
next
  case (Udp i r)
  assume "act_step a s = Some t"
  then show ?thesis using Udp by (intro udp_worker [of _ i r]) (auto split: if_splits)
next
  case (Arrive x d)
  assume "act_step a s = Some t"
  then show ?thesis using Arrive datagram [of s x d] by simp
next
  case Connect
  assume "act_step a s = Some t"
  then show ?thesis using Connect connection [of s] by simp
qed

lemma run_acts_reach: "run_acts as s = Some t \<Longrightarrow> server4_reachable s \<Longrightarrow> server4_reachable t"
proof (induction as arbitrary: s)
  case (Cons a as)
  then obtain u where "act_step a s = Some u" "run_acts as u = Some t" by (auto simp: bind_eq_Some_conv')
  then show ?case using Cons act_step_step reach_step by metis
qed simp

text \<open>Two clients ask, the third \<open>recvfrom\<close> fails since a worker has taken the datagram and the call was interrupted.\<close>

theorem server4_answers_count_witness:
  "\<exists>s. reach (\<lambda>s. server4_started (replicate 15 0) (replicate 30 0) = Some s) server4_step s \<and> requested s = [1, 2] \<and> unread s = 1 \<and> answered s = [2] \<and>
    sum_list (map asks (workers2 s)) + queue2 s + pending2 (main_pc s) = 2"
proof -
  let ?as = "[Arrive 1 ''x'', Main Done, Main Done, Main Done, Main Done, Arrive 2 ''x'', Main Done, Main Done, Main Done, Main Done,
    Udp 0 Done, Udp 0 Done, Udp 0 Done, Udp 0 Done, Arrive 3 ''x'', Main Done, Udp 0 (Data ''x'' [NUL]), Main Fail]"
  have i: "(\<lambda>s. server4_started (replicate 15 0) (replicate 30 0) = Some s) = (\<lambda>s. s = server4_start)"
    by (auto simp: server4_started_iff COUNT_OF_THREADS_def)
  have "\<exists>s. run_acts ?as server4_start = Some s \<and> requested s = [1, 2] \<and> unread s = 1 \<and> answered s = [2]"
    by (simp add: server4_start_def pool_start_def pool.extend_def main4_step_def worker2_step_def goto_u_def next_round_def SIZE_BUF_def
        COUNT_OF_THREADS_def nth_list_update)
  then obtain s where s: "server4_reachable s" "requested s = [1, 2]" "unread s = 1" "answered s = [2]"
    using run_acts_reach reach_init [of "\<lambda>s. s = server4_start"] by blast
  then have r: "reach (\<lambda>s. server4_started (replicate 15 0) (replicate 30 0) = Some s) server4_step s" by (simp add: i)
  have "length (replicate 15 (0 :: int)) = COUNT_OF_THREADS" by (simp add: COUNT_OF_THREADS_def)
  from server4_answers_count [OF this r] have "sum_list (map asks (workers2 s)) + queue2 s + pending2 (main_pc s) = 2"
    by (simp add: s(2-4))
  with s r show ?thesis by blast
qed

text \<open>
  C36. The answers of the UDP pool can go to the wrong client: two clients ask, and both greetings are
  sent to the second one, since every worker reads the address from the variable of \<open>main\<close>.
\<close>

theorem udp_answers_wrong_client:
  "\<exists>s. server4_reachable s \<and> requested s = [1, 2] \<and> answered s = [2, 2] \<and> status s = Running"
proof -
  let ?as = "[Arrive 1 ''x'', Main Done, Main Done, Main Done, Main Done, Arrive 2 ''x'', Main Done, Main Done, Main Done,
    Udp 0 Done, Udp 0 Done, Udp 0 Done, Udp 0 Done, Udp 1 Done, Udp 1 Done, Udp 1 Done, Udp 1 Done]"
  have "\<exists>s. run_acts ?as server4_start = Some s \<and> requested s = [1, 2] \<and> answered s = [2, 2] \<and> status s = Running"
    by (simp add: server4_start_def pool_start_def pool.extend_def main4_step_def worker2_step_def goto_u_def
        COUNT_OF_THREADS_def nth_list_update)
  then show ?thesis using run_acts_reach reach_init [of "\<lambda>s. s = server4_start"] by blast
qed

text \<open>
  A connection and a datagram that arrive while \<open>main\<close> waits overflow the one event it has room for.
\<close>

theorem epoll_overflows:
  "\<exists>s. server4_reachable s \<and> status s = Undefined \<and> accepted s = [] \<and> requested s = []"
proof -
  have "\<exists>s. run_acts [Connect, Arrive 1 ''x'', Main Done] server4_start = Some s \<and> status s = Undefined \<and> accepted s = [] \<and> requested s = []"
    by (simp add: server4_start_def pool_start_def pool.extend_def main4_step_def)
  then show ?thesis using run_acts_reach reach_init [of "\<lambda>s. s = server4_start"] by blast
qed


section \<open>A thread for each connection\<close>

definition inv12 :: "server12 \<Rightarrow> bool" where
  "inv12 s \<longleftrightarrow> length (accepted1 s) = length (threads s) + (if main1 s = ACreate then 1 else 0) \<and>
     (if main1 s \<in> {AJoin, ADone} then length (threads s) = COUNT_OF_THREADS else length (threads s) < COUNT_OF_THREADS) \<and>
     (main1 s = ADone \<longrightarrow> (\<forall>t \<in> set (threads s). t = TDone))"

lemma thread_step_frame:
  "thread_step i r s = Some t \<Longrightarrow>
   accepted1 t = accepted1 s \<and> main1 t = main1 s \<and> length (threads t) = length (threads s) \<and> threads s ! i \<noteq> TDone"
  by (auto simp: thread_step_def goto_t_def split: thread.splits if_splits result.splits option.splits)

lemma inv12_thread:
  assumes "inv12 s" "i < length (threads s)" "thread_step i r s = Some t"
  shows "inv12 t"
proof -
  note f = thread_step_frame [OF assms(3)]
  have "main1 s \<noteq> ADone"
  proof
    assume "main1 s = ADone"
    then have "\<forall>t \<in> set (threads s). t = TDone" using assms(1) by (simp add: inv12_def)
    then show False using f assms(2) by simp
  qed
  then show ?thesis using assms(1) f by (simp add: inv12_def)
qed

lemma inv12_main:
  assumes "inv12 s" "main12_step r s = Some t"
  shows "inv12 t"
proof (cases "main1 s")
  case AAccept
  then show ?thesis using assms by (auto simp: main12_step_def inv12_def split: result.splits)
next
  case ACreate
  then show ?thesis using assms by (auto simp: main12_step_def inv12_def Let_def COUNT_OF_THREADS_def split: if_splits)
next
  case AJoin
  then show ?thesis using assms by (auto simp: main12_step_def inv12_def list_all_iff split: if_splits)
next
  case ADone
  then show ?thesis using assms by (simp add: main12_step_def)
qed

interpretation server12_sys: inductive_invariant "\<lambda>s. s = server12_start junk" server12_step inv12
proof
  fix s t assume i: "inv12 s" "server12_step s t"
  from i(2) show "inv12 t"
    by (rule server12_stepE) (use inv12_thread [OF i(1)] inv12_main [OF i(1)] i(1) in \<open>auto simp: inv12_def\<close>)
qed (simp add: server12_start_def inv12_def COUNT_OF_THREADS_def)

text \<open>
  The server with a thread for each connection never accepts more than fifteen connections, and
  \<open>main\<close> ends by itself only when all fifteen threads have ended.
\<close>

theorem server12_bounded:
  assumes "reach (\<lambda>s. s = server12_start junk) server12_step s"
  shows "length (accepted1 s) \<le> COUNT_OF_THREADS \<and> length (threads s) \<le> COUNT_OF_THREADS \<and>
    (main1 s = ADone \<longrightarrow> length (accepted1 s) = COUNT_OF_THREADS \<and> (\<forall>t \<in> set (threads s). t = TDone))"
proof -
  have "inv12 s" by (rule server12_sys.always [OF assms])
  then show ?thesis by (auto simp: inv12_def split: if_splits)
qed

theorem server12_bounded_witness: "length (accepted1 (server12_start 0)) \<le> COUNT_OF_THREADS"
  using server12_bounded [OF reach_init, of "server12_start 0" 0] by simp

text \<open>
  The descriptor is passed by reference: two connections are accepted, both threads read the
  variable after the second \<open>accept\<close>, and the second client is greeted twice, the first one never.
\<close>

theorem server12_race:
  "\<exists>s. reach (\<lambda>s. s = server12_start 0) server12_step s \<and> accepted1 s = [4, 5] \<and> greeted1 s = [5, 5] \<and>
     threads s = [TRead 5, TRead 5]"
proof -
  define s1 where "s1 = (server12_start 0)\<lparr>main1 := ACreate, client_fd := 4, accepted1 := [4], shown1 := [show_int 4 @ [NL]]\<rparr>"
  define s2 where "s2 = s1\<lparr>threads := [TStart], main1 := AAccept\<rparr>"
  define s3 where "s3 = s2\<lparr>main1 := ACreate, client_fd := 5, accepted1 := [4, 5], shown1 := shown1 s2 @ [show_int 5 @ [NL]]\<rparr>"
  define s4 where "s4 = s3\<lparr>threads := [TStart, TStart], main1 := AAccept\<rparr>"
  define s5 where "s5 = s4\<lparr>threads := [TGreet 5, TStart]\<rparr>"
  define s6 where "s6 = s5\<lparr>threads := [TGreet 5, TGreet 5]\<rparr>"
  define s7 where "s7 = s6\<lparr>threads := [TRead 5, TGreet 5], greeted1 := [5]\<rparr>"
  define s8 where "s8 = s7\<lparr>threads := [TRead 5, TRead 5], greeted1 := [5, 5]\<rparr>"
  note d = s1_def s2_def s3_def s4_def s5_def s6_def s7_def s8_def server12_start_def
  have m: "server12_step (server12_start 0) s1" "server12_step s1 s2" "server12_step s2 s3" "server12_step s3 s4"
    using by_main12 [of "server12_start 0" "Conn 4" s1] by_main12 [of s1 Done s2] by_main12 [of s2 "Conn 5" s3] by_main12 [of s3 Done s4]
    by (simp_all add: main12_step_def d COUNT_OF_THREADS_def)
  have t: "server12_step s4 s5" "server12_step s5 s6" "server12_step s6 s7" "server12_step s7 s8"
    using by_thread [of s4 0 Done s5] by_thread [of s5 1 Done s6] by_thread [of s6 0 Done s7] by_thread [of s7 1 Done s8]
    by (simp_all add: thread_step_def goto_t_def d)
  have "reach (\<lambda>s. s = server12_start 0) server12_step s8"
    by (rule reach_init reach_step t m refl)+
  then show ?thesis by (intro exI [of _ s8]) (simp add: d)
qed

end
