(* ===== verification/Arrays.thy ===== *)
theory Arrays
  imports CLib
begin

text \<open>
  The exercises on matrices, \<open>arrays/task1.c\<close> to \<open>arrays/task4.c\<close>.  A matrix is the list of its rows.
  The size \<open>N\<close> of the spiral and of the triangle is a parameter of the model.
\<close>

section \<open>Access to a matrix\<close>

definition aref2 :: "int list list \<Rightarrow> int \<Rightarrow> int \<Rightarrow> int option" where
  "aref2 a i j = do { r \<leftarrow> aref a i; aref r j }"

definition aset2 :: "int list list \<Rightarrow> int \<Rightarrow> int \<Rightarrow> int \<Rightarrow> int list list option" where
  "aset2 a i j v = do { r \<leftarrow> aref a i; r' \<leftarrow> aset r j v; aset a i r' }"

text \<open>The conversions \<open>%3d\<close> and \<open>%d\<close> with the blank behind.\<close>

definition show3 :: "int \<Rightarrow> string" where
  "show3 v = (let s = show_int v in replicate (3 - length s) (CHR '' '') @ s @ '' '')"

definition show_d :: "int \<Rightarrow> string" where
  "show_d v = show_int v @ '' ''"

section \<open>Printing\<close>

function print_row :: "(int \<Rightarrow> string) \<Rightarrow> int \<Rightarrow> int \<Rightarrow> int \<Rightarrow> int list list \<Rightarrow> string option" where
  "print_row f n i j a =
     (if j < n then do { v \<leftarrow> aref2 a i j; t \<leftarrow> print_row f n i (j + 1) a; Some (f v @ t) } else Some [NL])"
  by pat_completeness auto
termination by (relation "measure (\<lambda>(f, n, i, j, a). nat (n - j))") auto

function print_rows :: "(int \<Rightarrow> string) \<Rightarrow> int \<Rightarrow> int \<Rightarrow> int list list \<Rightarrow> string option" where
  "print_rows f n i a =
     (if i < n then do { s \<leftarrow> print_row f n i 0 a; t \<leftarrow> print_rows f n (i + 1) a; Some (s @ t) } else Some [])"
  by pat_completeness auto
termination by (relation "measure (\<lambda>(f, n, i, a). nat (n - i))") auto

text \<open>\<open>task1.c\<close> prints its matrix, \<open>task2.c\<close> an array from the last element to the first.\<close>

definition task1_main :: "string option" where
  "task1_main = print_rows show3 4 0 [[1, 2, 3, 4], [5, 6, 7, 8], [9, 10, 11, 12], [13, 14, 15, 16]]"

function print_back :: "int \<Rightarrow> int list \<Rightarrow> string option" where
  "print_back i a = (if i \<ge> 0 then do { v \<leftarrow> aref a i; t \<leftarrow> print_back (i - 1) a; Some (show_d v @ t) } else Some [NL])"
  by pat_completeness auto
termination by (relation "measure (\<lambda>(i, a). nat (i + 1))") auto

definition task2_main :: "string option" where
  "task2_main = print_back (10 - 1) [1, 2, 3, 4, 5, 6, 7, 8, 9, 10]"

section \<open>The triangle\<close>

text \<open>The loop that sets \<open>a[i][j]\<close>, \<open>j < hi\<close>, to \<open>v\<close>.\<close>

function fill :: "int \<Rightarrow> int \<Rightarrow> int \<Rightarrow> int \<Rightarrow> int list list \<Rightarrow> int list list option" where
  "fill v hi i j a = (if j < hi then do { a' \<leftarrow> aset2 a i j v; fill v hi i (j + 1) a' } else Some a)"
  by pat_completeness auto
termination by (relation "measure (\<lambda>(v, hi, i, j, a). nat (hi - j))") auto

function triangle :: "int \<Rightarrow> int \<Rightarrow> int list list \<Rightarrow> int list list option" where
  "triangle n i a =
     (if i < n then do { b \<leftarrow> fill 1 (n - i) i 0 a; c \<leftarrow> fill 0 n i (n - i) b; triangle n (i + 1) c } else Some a)"
  by pat_completeness auto
termination by (relation "measure (\<lambda>(n, i, a). nat (n - i))") auto

definition task3_main :: "string option" where
  "task3_main = do { a \<leftarrow> triangle 3 0 [[1325, 12, 13], [21, 341, 3], [14, 34, 34]]; print_rows show_d 3 0 a }"

section \<open>The spiral\<close>

text \<open>The four loops of a ring; each returns the matrix and \<open>count\<close>.\<close>

function go_right :: "int \<Rightarrow> int \<Rightarrow> int \<Rightarrow> int list list \<Rightarrow> int \<Rightarrow> (int list list \<times> int) option" where
  "go_right n k j a cnt =
     (if j < k then do { a' \<leftarrow> aset2 a n j cnt; go_right n k (j + 1) a' (cnt + 1) } else Some (a, cnt))"
  by pat_completeness auto
termination by (relation "measure (\<lambda>(n, k, j, a, cnt). nat (k - j))") auto

function go_down :: "int \<Rightarrow> int \<Rightarrow> int list list \<Rightarrow> int \<Rightarrow> (int list list \<times> int) option" where
  "go_down k j a cnt =
     (if j < k then do { a' \<leftarrow> aset2 a j (k - 1) cnt; go_down k (j + 1) a' (cnt + 1) } else Some (a, cnt))"
  by pat_completeness auto
termination by (relation "measure (\<lambda>(k, j, a, cnt). nat (k - j))") auto

function go_left :: "int \<Rightarrow> int \<Rightarrow> int \<Rightarrow> int list list \<Rightarrow> int \<Rightarrow> (int list list \<times> int) option" where
  "go_left n k j a cnt =
     (if j \<ge> n then do { a' \<leftarrow> aset2 a (k - 1) j cnt; go_left n k (j - 1) a' (cnt + 1) } else Some (a, cnt))"
  by pat_completeness auto
termination by (relation "measure (\<lambda>(n, k, j, a, cnt). nat (j - n + 1))") auto

function go_up :: "int \<Rightarrow> int \<Rightarrow> int list list \<Rightarrow> int \<Rightarrow> (int list list \<times> int) option" where
  "go_up n j a cnt =
     (if j \<ge> n + 1 then do { a' \<leftarrow> aset2 a j n cnt; go_up n (j - 1) a' (cnt + 1) } else Some (a, cnt))"
  by pat_completeness auto
termination by (relation "measure (\<lambda>(n, j, a, cnt). nat (j - n))") auto

declare print_row.simps [simp del] print_rows.simps [simp del] print_back.simps [simp del] fill.simps [simp del]
  triangle.simps [simp del] go_right.simps [simp del] go_down.simps [simp del] go_left.simps [simp del] go_up.simps [simp del]

definition ring :: "int \<Rightarrow> int \<Rightarrow> int list list \<Rightarrow> int \<Rightarrow> (int list list \<times> int) option" where
  "ring n k a0 c0 =
     do { (a1, c1) \<leftarrow> go_right n k n a0 c0; (a2, c2) \<leftarrow> go_down k (n + 1) a1 c1;
          (a3, c3) \<leftarrow> go_left n k (k - 2) a2 c2; go_up n (k - 2) a3 c3 }"

text \<open>
  The \<open>while\<close> loop for at most \<open>fuel\<close> rounds; the flag of the result tells whether it has ended.
\<close>

fun spiral_loop :: "nat \<Rightarrow> int \<Rightarrow> int \<Rightarrow> int \<Rightarrow> int list list \<Rightarrow> int \<Rightarrow> (bool \<times> int list list) option" where
  "spiral_loop 0 N n k a cnt = Some (False, a)"
| "spiral_loop (Suc fuel) N n k a cnt =
     (if cnt \<le> N * N
      then do { (a', cnt') \<leftarrow> ring n k a cnt; spiral_loop fuel N (n + 1) (k - 1) a' cnt' }
      else Some (True, a))"

definition spiral :: "nat \<Rightarrow> nat \<Rightarrow> (bool \<times> int list list) option" where
  "spiral fuel N = spiral_loop fuel (int N) 0 (int N) (replicate N (replicate N 0)) 1"

definition task4_main :: "nat \<Rightarrow> string option option" where
  "task4_main fuel = do { (ended, a) \<leftarrow> spiral fuel 19;
     if ended then do { s \<leftarrow> print_rows show3 19 0 a; Some (Some s) } else Some None }"

end
