(* ===== verification/Arrays_Correct.thy ===== *)
theory Arrays_Correct
  imports Arrays
begin

text \<open>
  Correctness of the exercises on matrices: the loops stay in bounds, the spiral ends and fills every
  cell with the number its place on the spiral has, and the triangle is the upper left one.
\<close>

section \<open>Square matrices\<close>

definition square :: "int \<Rightarrow> int list list \<Rightarrow> bool" where
  "square N a \<longleftrightarrow> 0 \<le> N \<and> int (length a) = N \<and> (\<forall>i < length a. int (length (a ! i)) = N)"

definition at :: "int list list \<Rightarrow> int \<Rightarrow> int \<Rightarrow> int" where
  "at a i j = a ! nat i ! nat j"

definition inside :: "int \<Rightarrow> int \<Rightarrow> int \<Rightarrow> bool" where
  "inside N i j \<longleftrightarrow> 0 \<le> i \<and> i < N \<and> 0 \<le> j \<and> j < N"

lemma aset2_returns:
  assumes "square N a" "inside N i j"
  shows "\<exists>b. aset2 a i j v = Some b \<and> square N b \<and>
    (\<forall>x y. inside N x y \<longrightarrow> at b x y = (if x = i \<and> y = j then v else at a x y))"
proof -
  let ?b = "a[nat i := (a ! nat i)[nat j := v]]"
  have l: "nat i < length a" "int (length (a ! nat i)) = N" using assms by (auto simp: square_def inside_def)
  have "aset2 a i j v = Some ?b" using assms l by (simp add: aset2_def inside_def square_def cmem)
  moreover have "square N ?b"
    unfolding square_def
  proof (intro conjI allI impI)
    fix m assume "m < length ?b"
    then show "int (length (?b ! m)) = N" using assms(1) l by (cases "m = nat i") (simp_all add: square_def)
  qed (use assms(1) in \<open>simp_all add: square_def\<close>)
  moreover have "at ?b x y = (if x = i \<and> y = j then v else at a x y)" if "inside N x y" for x y
  proof (cases "x = i")
    case True
    have j: "nat j < length (a ! nat i)" using l(2) assms(2) unfolding inside_def by linarith
    have "y = j \<longleftrightarrow> nat y = nat j" using that assms(2) unfolding inside_def by linarith
    then show ?thesis using True l(1) j by (cases "y = j") (simp_all add: at_def)
  next
    case False
    then have "nat x \<noteq> nat i" using that assms(2) by (simp add: inside_def eq_nat_nat_iff)
    then show ?thesis using False by (simp add: at_def)
  qed
  ultimately show ?thesis by blast
qed

lemma aref2_at: "square N a \<Longrightarrow> inside N i j \<Longrightarrow> aref2 a i j = Some (at a i j)"
  by (auto simp: square_def inside_def aref2_def at_def aref_def)

text \<open>
  What a loop does to a matrix: it returns, and the cells \<open>p\<close> selects get the value \<open>f\<close>, the others
  keep theirs.
\<close>

definition sets :: "int \<Rightarrow> (int \<Rightarrow> int \<Rightarrow> bool) \<Rightarrow> (int \<Rightarrow> int \<Rightarrow> int) \<Rightarrow> int list list \<Rightarrow> int list list \<Rightarrow> bool" where
  "sets N p f a b \<longleftrightarrow> square N b \<and> (\<forall>x y. inside N x y \<longrightarrow> at b x y = (if p x y then f x y else at a x y))"

lemma setsD: "sets N p f a b \<Longrightarrow> inside N x y \<Longrightarrow> at b x y = (if p x y then f x y else at a x y)"
  by (simp add: sets_def)

lemma sets_none: "square N a \<Longrightarrow> (\<And>x y. \<not> p x y) \<Longrightarrow> sets N p f a a"
  by (simp add: sets_def)

text \<open>One assignment, then the rest of the loop.\<close>

lemma sets_step:
  assumes "square N a" "inside N i j" "\<And>b. square N b \<Longrightarrow> \<exists>c. g b = Some (c, e) \<and> sets N p f b c"
    and "\<And>x y. p x y \<or> (x = i \<and> y = j) \<longleftrightarrow> q x y" "\<And>x y. p x y \<Longrightarrow> h x y = f x y" "h i j = v" "\<not> p i j"
  shows "\<exists>c. do { b \<leftarrow> aset2 a i j v; g b } = Some (c, e) \<and> sets N q h a c"
proof -
  obtain b where b: "aset2 a i j v = Some b" "square N b"
    "\<forall>x y. inside N x y \<longrightarrow> at b x y = (if x = i \<and> y = j then v else at a x y)"
    using aset2_returns [OF assms(1,2)] by blast
  obtain c where c: "g b = Some (c, e)" "sets N p f b c" using assms(3) [OF b(2)] by blast
  have "sets N q h a c"
    using c(2) b(3) assms(5,6) unfolding sets_def by (auto simp: assms(4) [symmetric])
  then show ?thesis using b c by auto
qed

section \<open>The loops of a ring\<close>

lemma go_right_sets:
  "square N a \<Longrightarrow> 0 \<le> n \<Longrightarrow> n < N \<Longrightarrow> 0 \<le> j \<Longrightarrow> j \<le> k \<Longrightarrow> k \<le> N \<Longrightarrow>
   \<exists>b. go_right n k j a c = Some (b, c + (k - j)) \<and> sets N (\<lambda>x y. x = n \<and> j \<le> y \<and> y < k) (\<lambda>x y. c + (y - j)) a b"
proof (induction "nat (k - j)" arbitrary: j a c)
  case 0
  then have "j = k" by simp
  then show ?case using 0 by (subst go_right.simps) (auto intro!: sets_none)
next
  case (Suc m)
  then have j: "j < k" by simp
  have "\<exists>b. do { a' \<leftarrow> aset2 a n j c; go_right n k (j + 1) a' (c + 1) } = Some (b, c + (k - j)) \<and>
      sets N (\<lambda>x y. x = n \<and> j \<le> y \<and> y < k) (\<lambda>x y. c + (y - j)) a b"
  proof (rule sets_step [where p = "\<lambda>x y. x = n \<and> j + 1 \<le> y \<and> y < k" and f = "\<lambda>x y. (c + 1) + (y - (j + 1))"])
    fix b assume "square N b"
    then show "\<exists>d. go_right n k (j + 1) b (c + 1) = Some (d, c + (k - j)) \<and>
        sets N (\<lambda>x y. x = n \<and> j + 1 \<le> y \<and> y < k) (\<lambda>x y. (c + 1) + (y - (j + 1))) b d"
      using Suc.hyps(1) [of "j + 1" b "c + 1"] Suc.hyps(2) Suc.prems j by (simp add: algebra_simps)
  qed (use Suc.prems j in \<open>auto simp: inside_def\<close>)
  then show ?case using j by (subst go_right.simps) simp
qed


lemma go_down_sets:
  "square N a \<Longrightarrow> 0 < k \<Longrightarrow> 0 \<le> j \<Longrightarrow> j \<le> k \<Longrightarrow> k \<le> N \<Longrightarrow>
   \<exists>b. go_down k j a c = Some (b, c + (k - j)) \<and> sets N (\<lambda>x y. y = k - 1 \<and> j \<le> x \<and> x < k) (\<lambda>x y. c + (x - j)) a b"
proof (induction "nat (k - j)" arbitrary: j a c)
  case 0
  then have "j = k" by simp
  then show ?case using 0 by (subst go_down.simps) (auto intro!: sets_none)
next
  case (Suc m)
  then have j: "j < k" by simp
  have "\<exists>b. do { a' \<leftarrow> aset2 a j (k - 1) c; go_down k (j + 1) a' (c + 1) } = Some (b, c + (k - j)) \<and>
      sets N (\<lambda>x y. y = k - 1 \<and> j \<le> x \<and> x < k) (\<lambda>x y. c + (x - j)) a b"
  proof (rule sets_step [where p = "\<lambda>x y. y = k - 1 \<and> j + 1 \<le> x \<and> x < k" and f = "\<lambda>x y. (c + 1) + (x - (j + 1))"])
    fix b assume "square N b"
    then show "\<exists>d. go_down k (j + 1) b (c + 1) = Some (d, c + (k - j)) \<and>
        sets N (\<lambda>x y. y = k - 1 \<and> j + 1 \<le> x \<and> x < k) (\<lambda>x y. (c + 1) + (x - (j + 1))) b d"
      using Suc.hyps(1) [of "j + 1" b "c + 1"] Suc.hyps(2) Suc.prems j by (simp add: algebra_simps)
  qed (use Suc.prems j in \<open>auto simp: inside_def\<close>)
  then show ?case using j by (subst go_down.simps) simp
qed

lemma go_left_sets:
  "square N a \<Longrightarrow> 0 \<le> n \<Longrightarrow> 0 < k \<Longrightarrow> k \<le> N \<Longrightarrow> n - 1 \<le> j \<Longrightarrow> j < N \<Longrightarrow>
   \<exists>b. go_left n k j a c = Some (b, c + (j - n + 1)) \<and> sets N (\<lambda>x y. x = k - 1 \<and> n \<le> y \<and> y \<le> j) (\<lambda>x y. c + (j - y)) a b"
proof (induction "nat (j - n + 1)" arbitrary: j a c)
  case 0
  then have "j = n - 1" by simp
  then show ?case using 0 by (subst go_left.simps) (auto intro!: sets_none)
next
  case (Suc m)
  then have j: "j \<ge> n" by simp
  have "\<exists>b. do { a' \<leftarrow> aset2 a (k - 1) j c; go_left n k (j - 1) a' (c + 1) } = Some (b, c + (j - n + 1)) \<and>
      sets N (\<lambda>x y. x = k - 1 \<and> n \<le> y \<and> y \<le> j) (\<lambda>x y. c + (j - y)) a b"
  proof (rule sets_step [where p = "\<lambda>x y. x = k - 1 \<and> n \<le> y \<and> y \<le> j - 1" and f = "\<lambda>x y. (c + 1) + (j - 1 - y)"])
    fix b assume "square N b"
    then show "\<exists>d. go_left n k (j - 1) b (c + 1) = Some (d, c + (j - n + 1)) \<and>
        sets N (\<lambda>x y. x = k - 1 \<and> n \<le> y \<and> y \<le> j - 1) (\<lambda>x y. (c + 1) + (j - 1 - y)) b d"
      using Suc.hyps(1) [of "j - 1" b "c + 1"] Suc.hyps(2) Suc.prems j by (simp add: algebra_simps)
  qed (use Suc.prems j in \<open>auto simp: inside_def\<close>)
  then show ?case using j by (subst go_left.simps) simp
qed

lemma go_up_sets:
  "square N a \<Longrightarrow> 0 \<le> n \<Longrightarrow> n < N \<Longrightarrow> n \<le> j \<Longrightarrow> j < N \<Longrightarrow>
   \<exists>b. go_up n j a c = Some (b, c + (j - n)) \<and> sets N (\<lambda>x y. y = n \<and> n + 1 \<le> x \<and> x \<le> j) (\<lambda>x y. c + (j - x)) a b"
proof (induction "nat (j - n)" arbitrary: j a c)
  case 0
  then have "j = n" by simp
  then show ?case using 0 by (subst go_up.simps) (auto intro!: sets_none)
next
  case (Suc m)
  then have j: "j \<ge> n + 1" by simp
  have "\<exists>b. do { a' \<leftarrow> aset2 a j n c; go_up n (j - 1) a' (c + 1) } = Some (b, c + (j - n)) \<and>
      sets N (\<lambda>x y. y = n \<and> n + 1 \<le> x \<and> x \<le> j) (\<lambda>x y. c + (j - x)) a b"
  proof (rule sets_step [where p = "\<lambda>x y. y = n \<and> n + 1 \<le> x \<and> x \<le> j - 1" and f = "\<lambda>x y. (c + 1) + (j - 1 - x)"])
    fix b assume "square N b"
    then show "\<exists>d. go_up n (j - 1) b (c + 1) = Some (d, c + (j - n)) \<and>
        sets N (\<lambda>x y. y = n \<and> n + 1 \<le> x \<and> x \<le> j - 1) (\<lambda>x y. (c + 1) + (j - 1 - x)) b d"
      using Suc.hyps(1) [of "j - 1" b "c + 1"] Suc.hyps(2) Suc.prems j by (simp add: algebra_simps)
  qed (use Suc.prems j in \<open>auto simp: inside_def\<close>)
  then show ?case using j by (subst go_up.simps) simp
qed

section \<open>The spiral\<close>

text \<open>The ring of a cell counted from outside, and the number of the cell on the spiral.\<close>

definition ring_of :: "int \<Rightarrow> int \<Rightarrow> int \<Rightarrow> int" where
  "ring_of N i j = min (min i j) (min (N - 1 - i) (N - 1 - j))"

definition spiral_at :: "int \<Rightarrow> int \<Rightarrow> int \<Rightarrow> int" where
  "spiral_at N i j =
     (let r = ring_of N i j; m = N - 1 - 2 * r in
      4 * r * (N - r) + 1 +
        (if i = r then j - r
         else if j = N - 1 - r then m + (i - r)
         else if i = N - 1 - r then 2 * m + (N - 1 - r - j)
         else 3 * m + (N - 1 - r - i)))"

definition ring_done :: "int \<Rightarrow> int \<Rightarrow> int list list \<Rightarrow> bool" where
  "ring_done N s a \<longleftrightarrow> square N a \<and> (\<forall>i j. inside N i j \<longrightarrow> ring_of N i j < s \<longrightarrow> at a i j = spiral_at N i j)"

lemma ring_big:
  assumes "ring_done N s a" "0 \<le> s" "2 * s + 2 \<le> N" "c = 4 * s * (N - s) + 1"
  shows "\<exists>b. ring s (N - s) a c = Some (b, 4 * (s + 1) * (N - (s + 1)) + 1) \<and> ring_done N (s + 1) b"
proof -
  let ?k = "N - s"
  have a: "square N a" using assms(1) by (simp add: ring_done_def)
  obtain b1 where b1: "go_right s ?k s a c = Some (b1, c + (?k - s))"
    "sets N (\<lambda>x y. x = s \<and> s \<le> y \<and> y < ?k) (\<lambda>x y. c + (y - s)) a b1"
    using go_right_sets [of N a s s ?k c] a assms by auto
  obtain b2 where b2: "go_down ?k (s + 1) b1 (c + (?k - s)) = Some (b2, c + (?k - s) + (?k - (s + 1)))"
    "sets N (\<lambda>x y. y = ?k - 1 \<and> s + 1 \<le> x \<and> x < ?k) (\<lambda>x y. c + (?k - s) + (x - (s + 1))) b1 b2"
    using go_down_sets [of N b1 ?k "s + 1" "c + (?k - s)"] b1(2) assms by (auto simp: sets_def)
  let ?c2 = "c + (?k - s) + (?k - (s + 1))"
  obtain b3 where b3: "go_left s ?k (?k - 2) b2 ?c2 = Some (b3, ?c2 + (?k - 2 - s + 1))"
    "sets N (\<lambda>x y. x = ?k - 1 \<and> s \<le> y \<and> y \<le> ?k - 2) (\<lambda>x y. ?c2 + (?k - 2 - y)) b2 b3"
    using go_left_sets [of N b2 s ?k "?k - 2" ?c2] b2(2) assms by (auto simp: sets_def)
  let ?c3 = "?c2 + (?k - 2 - s + 1)"
  obtain b4 where b4: "go_up s (?k - 2) b3 ?c3 = Some (b4, ?c3 + (?k - 2 - s))"
    "sets N (\<lambda>x y. y = s \<and> s + 1 \<le> x \<and> x \<le> ?k - 2) (\<lambda>x y. ?c3 + (?k - 2 - x)) b3 b4"
    using go_up_sets [of N b3 s "?k - 2" ?c3] b3(2) assms by (auto simp: sets_def)
  have e: "?c3 + (?k - 2 - s) = 4 * (s + 1) * (N - (s + 1)) + 1" using assms(4) by (simp add: algebra_simps)
  have v: "at b4 x y = (if y = s \<and> s + 1 \<le> x \<and> x \<le> ?k - 2 then ?c3 + (?k - 2 - x)
      else if x = ?k - 1 \<and> s \<le> y \<and> y \<le> ?k - 2 then ?c2 + (?k - 2 - y)
      else if y = ?k - 1 \<and> s + 1 \<le> x \<and> x < ?k then c + (?k - s) + (x - (s + 1))
      else if x = s \<and> s \<le> y \<and> y < ?k then c + (y - s) else at a x y)" if "inside N x y" for x y
    unfolding setsD [OF b4(2) that] setsD [OF b3(2) that] setsD [OF b2(2) that] setsD [OF b1(2) that] ..
  have "at b4 x y = spiral_at N x y" if i: "inside N x y" and r: "ring_of N x y < s + 1" for x y
  proof (cases "ring_of N x y < s")
    case True
    then have "at b4 x y = at a x y" unfolding v [OF i] using i by (auto simp: ring_of_def inside_def)
    then show ?thesis using assms(1) i True by (simp add: ring_done_def)
  next
    case False
    then have g: "ring_of N x y = s" using r by simp
    then have "s \<le> x" "x \<le> ?k - 1" "s \<le> y" "y \<le> ?k - 1" "x = s \<or> y = s \<or> x = ?k - 1 \<or> y = ?k - 1"
      by (auto simp: ring_of_def min_def split: if_splits)
    then show ?thesis unfolding v [OF i] spiral_at_def g Let_def using assms(2-4) by auto
  qed
  moreover have "square N b4" using b4(2) by (simp add: sets_def)
  ultimately show ?thesis using b1(1) b2(1) b3(1) b4(1) e by (simp add: ring_def ring_done_def)
qed

lemma ring_last:
  assumes "ring_done N s a" "0 \<le> s" "2 * s + 1 = N" "c = 4 * s * (N - s) + 1"
  shows "\<exists>b. ring s (N - s) a c = Some (b, c + 1) \<and> ring_done N (s + 1) b"
proof -
  have k: "N - s = s + 1" using assms(3) by simp
  have a: "square N a" using assms(1) by (simp add: ring_done_def)
  obtain b where b: "aset2 a s s c = Some b" "square N b"
    "\<forall>x y. inside N x y \<longrightarrow> at b x y = (if x = s \<and> y = s then c else at a x y)"
    using aset2_returns [OF a, of s s c] assms by (auto simp: inside_def)
  have "ring s (N - s) a c = Some (b, c + 1)" unfolding k using b(1)
    by (simp add: ring_def go_right.simps [of s "s + 1" s] go_right.simps [of s "s + 1" "s + 1"] go_down.simps [of "s + 1"]
        go_left.simps [of s "s + 1" "s - 1"] go_up.simps [of s "s - 1"])
  moreover have "at b x y = spiral_at N x y" if i: "inside N x y" and r: "ring_of N x y < s + 1" for x y
  proof (cases "x = s \<and> y = s")
    case True
    then show ?thesis using b(3) i assms by (auto simp: spiral_at_def ring_of_def Let_def)
  next
    case False
    then have "ring_of N x y < s" using i assms(3) by (auto simp: ring_of_def inside_def)
    then show ?thesis using False b(3) i assms(1) by (auto simp: ring_done_def)
  qed
  ultimately show ?thesis using b(2) by (auto simp: ring_done_def)
qed


text \<open>The loop from ring \<open>s\<close> on, with enough fuel for the rings left.\<close>

lemma spiral_loop_ends:
  "ring_done N s a \<Longrightarrow> 0 \<le> s \<Longrightarrow> 2 * s \<le> N \<Longrightarrow> nat (N - 2 * s) < fuel \<Longrightarrow>
   \<exists>b. spiral_loop fuel N s (N - s) a (4 * s * (N - s) + 1) = Some (True, b) \<and>
     square N b \<and> (\<forall>i j. inside N i j \<longrightarrow> at b i j = spiral_at N i j)"
proof (induction fuel arbitrary: s a)
  case (Suc fuel)
  let ?c = "4 * s * (N - s) + 1"
  have done_all: "\<forall>i j. inside N i j \<longrightarrow> at b i j = spiral_at N i j" if "ring_done N t b" "N < 2 * t + 1" for t b
    using that by (auto simp: ring_done_def ring_of_def inside_def min_def)
  have q: "?c \<le> N * N \<longleftrightarrow> 2 * s < N"
  proof -
    have "N * N - 4 * s * (N - s) = (N - 2 * s) * (N - 2 * s)" by (simp add: algebra_simps)
    moreover have "1 \<le> (N - 2 * s) * (N - 2 * s) \<longleftrightarrow> 2 * s < N"
      using Suc.prems(3) by (cases "N = 2 * s") (auto simp: int_one_le_iff_zero_less intro: mult_pos_pos)
    ultimately show ?thesis by linarith
  qed
  consider "N = 2 * s" | "N = 2 * s + 1" | "2 * s + 2 \<le> N" using Suc.prems(3) by linarith
  then show ?case
  proof cases
    case 1
    then have "\<not> ?c \<le> N * N" unfolding q by simp
    then show ?thesis using Suc.prems(1) 1 done_all [OF Suc.prems(1)] by (simp add: ring_done_def)
  next
    case 2
    obtain b where b: "ring s (N - s) a ?c = Some (b, ?c + 1)" "ring_done N (s + 1) b"
      using ring_last [OF Suc.prems(1,2) _ refl] 2 by auto
    have c: "?c \<le> N * N" "\<not> ?c + 1 \<le> N * N" unfolding q using 2 by (simp_all add: algebra_simps)
    obtain f where f: "fuel = Suc f" using Suc.prems(4) 2 by (cases fuel) auto
    show ?thesis using b c done_all [OF b(2)] 2 by (simp add: f ring_done_def)
  next
    case 3
    obtain b where b: "ring s (N - s) a ?c = Some (b, 4 * (s + 1) * (N - (s + 1)) + 1)" "ring_done N (s + 1) b"
      using ring_big [OF Suc.prems(1,2) 3 refl] by blast
    have "?c \<le> N * N" unfolding q using 3 by simp
    moreover have e: "N - (s + 1) = N - s - 1" by simp
    moreover have "nat (N - 2 * (s + 1)) < fuel" using Suc.prems(4) 3 by simp
    ultimately show ?thesis using Suc.IH [OF b(2)] b(1) Suc.prems(2) 3 unfolding e by simp
  qed
qed simp

text \<open>
  C12. The spiral ends for every size and is right: with fuel for \<open>N + 1\<close> rounds the loop returns a
  matrix in which every cell holds the number of its place on the spiral that winds inwards from the
  upper left corner, no access leaves the matrix, and the program terminates.
\<close>

theorem spiral_correct:
  assumes "N < fuel"
  shows "\<exists>a. spiral fuel N = Some (True, a) \<and> square (int N) a \<and>
    (\<forall>i j. inside (int N) i j \<longrightarrow> at a i j = spiral_at (int N) i j)"
proof -
  have "ring_done (int N) 0 (replicate N (replicate N 0))"
    by (auto simp: ring_done_def square_def ring_of_def inside_def)
  from spiral_loop_ends [OF this, of fuel] assms show ?thesis by (simp add: spiral_def)
qed

theorem spiral_correct_witness:
  "\<exists>a. spiral 20 19 = Some (True, a) \<and> square (int 19) a \<and> (\<forall>i j. inside (int 19) i j \<longrightarrow> at a i j = spiral_at (int 19) i j)"
  by (rule spiral_correct) simp


section \<open>The triangle\<close>

lemma fill_sets:
  "square N a \<Longrightarrow> 0 \<le> i \<Longrightarrow> i < N \<Longrightarrow> 0 \<le> j \<Longrightarrow> j \<le> hi \<Longrightarrow> hi \<le> N \<Longrightarrow>
   \<exists>b. fill v hi i j a = Some b \<and> sets N (\<lambda>x y. x = i \<and> j \<le> y \<and> y < hi) (\<lambda>_ _. v) a b"
proof (induction "nat (hi - j)" arbitrary: j a)
  case 0
  then have "j = hi" by simp
  then show ?case using 0 by (subst fill.simps) (auto intro!: sets_none)
next
  case (Suc m)
  then have j: "j < hi" by simp
  have m: "m = nat (hi - (j + 1))" using Suc.hyps(2) by simp
  obtain b where b: "aset2 a i j v = Some b" "square N b"
    "\<forall>x y. inside N x y \<longrightarrow> at b x y = (if x = i \<and> y = j then v else at a x y)"
    using aset2_returns [OF Suc.prems(1), of i j v] Suc.prems j by (auto simp: inside_def)
  obtain c where c: "fill v hi i (j + 1) b = Some c" "sets N (\<lambda>x y. x = i \<and> j + 1 \<le> y \<and> y < hi) (\<lambda>_ _. v) b c"
    using Suc.hyps(1) [OF m, of b] Suc.prems j b(2) by auto
  have "sets N (\<lambda>x y. x = i \<and> j \<le> y \<and> y < hi) (\<lambda>_ _. v) a c"
    using c(2) b(3) j unfolding sets_def by auto
  then show ?case using j b(1) c(1) by (subst fill.simps) auto
qed

lemma triangle_from:
  "square N a \<Longrightarrow> 0 \<le> i \<Longrightarrow> i \<le> N \<Longrightarrow>
   \<exists>b. triangle N i a = Some b \<and> sets N (\<lambda>x y. i \<le> x) (\<lambda>x y. if y < N - x then 1 else 0) a b"
proof (induction "nat (N - i)" arbitrary: i a)
  case 0
  then have "i = N" by simp
  then show ?case using 0 by (subst triangle.simps) (auto simp: sets_def inside_def)
next
  case (Suc m)
  then have i: "i < N" by simp
  have m: "m = nat (N - (i + 1))" using Suc.hyps(2) by simp
  obtain b where b: "fill 1 (N - i) i 0 a = Some b" "sets N (\<lambda>x y. x = i \<and> 0 \<le> y \<and> y < N - i) (\<lambda>_ _. 1) a b"
    using fill_sets [of N a i 0 "N - i" 1] Suc.prems i by auto
  obtain c where c: "fill 0 N i (N - i) b = Some c" "sets N (\<lambda>x y. x = i \<and> N - i \<le> y \<and> y < N) (\<lambda>_ _. 0) b c"
    using fill_sets [of N b i "N - i" N 0] Suc.prems i b(2) by (auto simp: sets_def)
  obtain d where d: "triangle N (i + 1) c = Some d" "sets N (\<lambda>x y. i + 1 \<le> x) (\<lambda>x y. if y < N - x then 1 else 0) c d"
    using Suc.hyps(1) [OF m, of c] Suc.prems i c(2) by (auto simp: sets_def)
  have "at d x y = (if i \<le> x then (if y < N - x then 1 else 0) else at a x y)" if "inside N x y" for x y
    unfolding setsD [OF d(2) that] setsD [OF c(2) that] setsD [OF b(2) that] using that by (auto simp: inside_def)
  then have "sets N (\<lambda>x y. i \<le> x) (\<lambda>x y. if y < N - x then 1 else 0) a d" using d(2) by (simp add: sets_def)
  then show ?case using i b(1) c(1) d(1) by (subst triangle.simps) auto
qed

lemma triangle_correct:
  assumes "square N a"
  shows "\<exists>b. triangle N 0 a = Some b \<and> (\<forall>i j. inside N i j \<longrightarrow> at b i j = (if i + j < N then 1 else 0))"
proof -
  have "0 \<le> N" using assms by (simp add: square_def)
  then obtain b where "triangle N 0 a = Some b" "sets N (\<lambda>x y. 0 \<le> x) (\<lambda>x y. if y < N - x then 1 else 0) a b"
    using triangle_from [OF assms, of 0] by auto
  then show ?thesis by (auto simp: sets_def inside_def)
qed

section \<open>Printing\<close>

text \<open>A loop that stays inside prints the row, and the matrix.\<close>

lemma print_row_inside:
  "square N a \<Longrightarrow> 0 \<le> i \<Longrightarrow> i < N \<Longrightarrow> 0 \<le> j \<Longrightarrow> j \<le> N \<Longrightarrow>
   print_row f N i j a = Some (concat (map (\<lambda>y. f (at a i y)) [j..N - 1]) @ [NL])"
proof (induction "nat (N - j)" arbitrary: j)
  case 0
  then show ?case by (subst print_row.simps) simp
next
  case (Suc m)
  then have j: "j < N" by simp
  have "print_row f N i (j + 1) a = Some (concat (map (\<lambda>y. f (at a i y)) [j + 1..N - 1]) @ [NL])"
    using Suc j by (intro Suc.hyps(1)) auto
  moreover have "aref2 a i j = Some (at a i j)" using aref2_at [OF Suc.prems(1)] Suc.prems j by (simp add: inside_def)
  moreover have "[j..N - 1] = j # [j + 1..N - 1]" using j by (simp add: upto_rec1)
  ultimately show ?case using j by (subst print_row.simps) simp
qed

lemma print_rows_inside:
  "square N a \<Longrightarrow> 0 \<le> i \<Longrightarrow> i \<le> N \<Longrightarrow>
   print_rows f N i a = Some (concat (map (\<lambda>x. concat (map (\<lambda>y. f (at a x y)) [0..N - 1]) @ [NL]) [i..N - 1]))"
proof (induction "nat (N - i)" arbitrary: i)
  case 0
  then show ?case by (subst print_rows.simps) simp
next
  case (Suc m)
  then have i: "i < N" by simp
  have "print_rows f N (i + 1) a =
      Some (concat (map (\<lambda>x. concat (map (\<lambda>y. f (at a x y)) [0..N - 1]) @ [NL]) [i + 1..N - 1]))"
    using Suc i by (intro Suc.hyps(1)) auto
  moreover have "print_row f N i 0 a = Some (concat (map (\<lambda>y. f (at a i y)) [0..N - 1]) @ [NL])"
    using Suc.prems i by (intro print_row_inside) auto
  moreover have "[i..N - 1] = i # [i + 1..N - 1]" using i by (simp add: upto_rec1)
  ultimately show ?case using i by (subst print_rows.simps) simp
qed

text \<open>
  The program \<open>task4.c\<close> ends and prints the spiral: nineteen rows of the numbers of the cells, each
  with at least three places and a blank.
\<close>

theorem task4_prints_spiral:
  assumes "19 < fuel"
  shows "task4_main fuel = Some (Some (concat (map (\<lambda>x. concat (map (\<lambda>y. show3 (spiral_at 19 x y)) [0..18]) @ [NL]) [0..18])))"
proof -
  obtain a where a: "spiral fuel 19 = Some (True, a)" "square 19 a" "\<forall>i j. inside 19 i j \<longrightarrow> at a i j = spiral_at 19 i j"
  proof -
    have "ring_done 19 0 (replicate 19 (replicate 19 0))"
      by (auto simp: ring_done_def square_def ring_of_def inside_def)
    from spiral_loop_ends [OF this, of fuel] assms show ?thesis using that by (auto simp: spiral_def)
  qed
  have "print_rows show3 19 0 a = Some (concat (map (\<lambda>x. concat (map (\<lambda>y. show3 (at a x y)) [0..19 - 1]) @ [NL]) [0..19 - 1]))"
    by (rule print_rows_inside [OF a(2)]) simp_all
  also have "map (\<lambda>x. concat (map (\<lambda>y. show3 (at a x y)) [0..19 - 1]) @ [NL]) [0..19 - 1] =
      map (\<lambda>x. concat (map (\<lambda>y. show3 (spiral_at 19 x y)) [0..18]) @ [NL]) [0..18]"
    using a(3) by (intro map_cong arg_cong2 [where f = append] arg_cong [where f = concat]) (auto simp: inside_def)
  finally show ?thesis using a(1) by (simp add: task4_main_def)
qed

theorem task4_prints_spiral_witness:
  "task4_main 20 = Some (Some (concat (map (\<lambda>x. concat (map (\<lambda>y. show3 (spiral_at 19 x y)) [0..18]) @ [NL]) [0..18])))
   \<and> map (spiral_at 19 1) [0, 1, 17, 18] = [72, 73, 89, 20]"
  using task4_prints_spiral [of 20] by (simp add: spiral_at_def ring_of_def Let_def)

end
