(* ===== verification/Bits.thy ===== *)
theory Bits
  imports Bytes
begin

text \<open>
  The exercises \<open>bit_operations/first_task.c\<close>, which replaces a byte of an \<open>int\<close> with masks, and
  \<open>pointers/task.c\<close>, which does it through a pointer to its bytes.  An \<open>int\<close> is a 32-bit word read as
  a signed number, a \<open>char\<close> a signed byte.
\<close>

section \<open>Masks\<close>

definition hex_digit :: "nat \<Rightarrow> char" where
  "hex_digit d = (if d < 10 then char_of (48 + d) else char_of (55 + d))"

fun show_hex :: "nat \<Rightarrow> string" where
  "show_hex n = (if n < 16 then [hex_digit n] else show_hex (n div 16) @ [hex_digit (n mod 16)])"

declare show_hex.simps [simp del]

text \<open>\<open>(x >> counter) & 0xFF\<close>: the shift of a negative number copies the sign.\<close>

definition byte_at :: "32 word \<Rightarrow> nat \<Rightarrow> 32 word" where
  "byte_at x c = signed_drop_bit c x AND 0xFF"

function hex_loop :: "32 word \<Rightarrow> int \<Rightarrow> string" where
  "hex_loop x counter =
     (if counter \<ge> 0 then show_hex (unat (byte_at x (nat counter))) @ hex_loop x (counter - 8) else [])"
  by pat_completeness auto
termination by (relation "measure (\<lambda>(x, counter). nat (counter + 8))") auto

declare hex_loop.simps [simp del]

definition set_byte :: "32 word \<Rightarrow> 32 word" where
  "set_byte x = (x AND 0xFFFF00FF) OR 0x0000EE00"

definition first_task_main :: string where
  "first_task_main =
     (let x = 0xDDCCBBAA in
      ''Source num: '' @ hex_loop x 24 @ [NL] @ ''Changed num: '' @ hex_loop (set_byte x) 24 @ [NL])"

section \<open>Bytes through a pointer\<close>

function bytes_loop :: "int \<Rightarrow> byte list \<Rightarrow> string option" where
  "bytes_loop i p =
     (if i < 4 then do { b \<leftarrow> aref p i; t \<leftarrow> bytes_loop (i + 1) p; Some (show_int (sint b) @ '' '' @ t) } else Some [])"
  by pat_completeness auto
termination by (relation "measure (\<lambda>(i, p). nat (4 - i))") auto

declare bytes_loop.simps [simp del]

text \<open>The \<open>int\<close> that four bytes in memory are.\<close>

definition of_le32 :: "byte list \<Rightarrow> 32 word" where
  "of_le32 p = ucast (p ! 0) + 256 * ucast (p ! 1) + 65536 * ucast (p ! 2) + 16777216 * ucast (p ! 3)"

definition pointer_main :: "string option" where
  "pointer_main =
     do { let x = le32 270533154;
          s \<leftarrow> bytes_loop 0 x;
          y \<leftarrow> aset x 2 127;
          t \<leftarrow> bytes_loop 0 y;
          Some (''x = '' @ show_int (sint (of_le32 x)) @ [NL] @ ''Bits of source num x: '' @ s @ [NL] @
            ''Changed x = '' @ show_int (sint (of_le32 y)) @ [NL] @ ''Bits of changed num x: '' @ t @ [NL]) }"

section \<open>Properties\<close>

text \<open>The masks replace byte 1 and nothing else, whatever the number.\<close>

lemma byte_at_drop:
  assumes "c \<le> 24"
  shows "byte_at x c = take_bit 8 (drop_bit c x)"
proof (rule bit_word_eqI)
  fix n assume "n < LENGTH(32)"
  have m: "(0xFF :: 32 word) = mask 8" by (simp add: mask_eq_exp_minus_1)
  show "bit (byte_at x c) n \<longleftrightarrow> bit (take_bit 8 (drop_bit c x)) n"
    using assms unfolding byte_at_def m
    by (cases "n < 8") (auto simp: bit_simps min_def)
qed

lemma first_task_prints:
  "first_task_main = ''Source num: DDCCBBAA'' @ [NL] @ ''Changed num: DDCCEEAA'' @ [NL]"
  by (simp add: first_task_main_def hex_loop.simps byte_at_drop set_byte_def show_hex.simps hex_digit_def Let_def char_of_def bit_0)

lemma pointer_prints:
  "pointer_main = Some (''x = 270533154'' @ [NL] @ ''Bits of source num x: 34 2 32 16 '' @ [NL] @
     ''Changed x = 276759074'' @ [NL] @ ''Bits of changed num x: 34 2 127 16 '' @ [NL])"
proof -
  have n: "show_nat 270533154 = ''270533154''" "show_nat 276759074 = ''276759074''" "show_nat 34 = ''34''" "show_nat 2 = ''2''"
    "show_nat 32 = ''32''" "show_nat 16 = ''16''" "show_nat 127 = ''127''"
    by (simp_all add: show_nat.simps char_of_def bit_0)
  have x: "le32 270533154 = [34, 2, 32, 16]" by (simp add: le32_def)
  have b: "bytes_loop 0 [34, 2, 32, 16] = Some ''34 2 32 16 ''" "bytes_loop 0 [34, 2, 127, 16] = Some ''34 2 127 16 ''"
    by (simp_all add: bytes_loop.simps aref_def nth_Cons' show_int_def n)
  have v: "sint (of_le32 [34, 2, 32, 16]) = 270533154" "sint (of_le32 [34, 2, 127, 16]) = 276759074"
    by (simp_all add: of_le32_def nth_Cons')
  show ?thesis by (simp add: pointer_main_def x aset_def b v n show_int_def numeral_2_eq_2)
qed

end
