(* ===== verification/Chat.thy ===== *)
theory Chat
  imports Transition Console
begin

text \<open>
  What the two chats of the repository share (\<open>queue/chat\<close> and \<open>shared_memory/chat\<close>): the client asks for
  a name and turns every line typed into a message, the server keeps the messages in the rows of an
  array, and the client shows the rows after clearing the screen; and what both promise, the wall: messages
  are put up one after the other, and a terminal shows a beginning of what is up.
\<close>

section \<open>Typing\<close>

definition ROWS :: nat where "ROWS = 100"

text \<open>
  The name is read, announced in \<open>text\<close>, and its line feed becomes a colon; the result is the array
  \<open>name\<close>, the announcement and the rest of the input.
\<close>

definition ask_name :: "char list \<Rightarrow> char list \<Rightarrow> string \<Rightarrow> (char list \<times> char list \<times> string) option" where
  "ask_name name0 text0 inp =
     do { (_, name, rest) \<leftarrow> fgets name0 ROWS inp;
          t0 \<leftarrow> strcpy text0 (lit ''New user - '');
          t1 \<leftarrow> strcat t0 name;
          n \<leftarrow> strlen name;
          name1 \<leftarrow> aset name (int n - 1) (CHR '':'');
          name2 \<leftarrow> strcat name1 (lit '' '');
          Some (name2, t1, rest) }"

text \<open>One line typed: at the end of the input \<open>fgets\<close> leaves the blank in \<open>buf\<close>.\<close>

definition say_line :: "char list \<Rightarrow> char list \<Rightarrow> char list \<Rightarrow> string \<Rightarrow> (char list \<times> char list \<times> string) option" where
  "say_line name buf0 text0 inp =
     do { b0 \<leftarrow> strcpy buf0 (lit '' '');
          (_, buf, rest) \<leftarrow> fgets b0 ROWS inp;
          t0 \<leftarrow> strcpy text0 name;
          t1 \<leftarrow> strcat t0 buf;
          Some (buf, t1, rest) }"

text \<open>An array of \<open>n\<close> bytes that rows_hold a string.\<close>

definition carries :: "nat \<Rightarrow> string \<Rightarrow> char list \<Rightarrow> bool" where
  "carries n t b \<longleftrightarrow> length b = n \<and> NUL \<in> set b \<and> cstr b = t"

definition typed_ok :: "string \<Rightarrow> bool" where
  "typed_ok l \<longleftrightarrow> NL \<notin> set l \<and> NUL \<notin> set l"

lemma carries_lit [simp]: "NUL \<in> set (lit s)" "NUL \<notin> set s \<Longrightarrow> cstr (lit s) = s"
  by (simp_all add: lit_def cstr_lit)

lemma no_nul: "cstr (lit ''New user - '') = ''New user - ''" "cstr (lit '' '') = '' ''"
  by (rule carries_lit(2), simp add: NUL_def)+

lemma strcpy_carries:
  assumes "NUL \<in> set src" "cstr src = t" "length t < n" "length dst = n"
  obtains d where "strcpy dst src = Some d" "carries n t d"
  using strcpy_returns [of src dst] assms by (auto simp: carries_def elim!: returnsE)

lemma strcat_carries:
  assumes "carries n t dst" "NUL \<in> set src" "cstr src = u" "length t + length u < n"
  obtains d where "strcat dst src = Some d" "carries n (t @ u) d"
  using strcat_returns [of src dst] assms by (auto simp: carries_def elim!: returnsE)

lemma carriesD: "carries n t b \<Longrightarrow> NUL \<in> set b" "carries n t b \<Longrightarrow> cstr b = t" "carries n t b \<Longrightarrow> length b = n"
  by (simp_all add: carries_def)

lemma carries_last:
  assumes "carries n (l @ [c]) b" "d \<noteq> NUL"
  shows "carries n (l @ [d]) (b[length l := d])"
proof -
  obtain r where r: "b = (l @ [c]) @ NUL # r" using cstr_decomp [of b] assms(1) by (auto simp: carries_def)
  have "NUL \<notin> set (l @ [c])" by (metis NUL_notin_cstr assms(1) carriesD(2))
  then have nn: "NUL \<notin> set (l @ [d])" using assms(2) by auto
  have "b[length l := d] = (l @ [d]) @ NUL # r" unfolding r by (simp add: list_update_append)
  moreover have "length b = length l + length r + 2" by (subst r) simp
  ultimately show ?thesis using assms(1) cstr_lit [OF nn, of r] by (simp add: carries_def)
qed

lemma ask_name_ok:
  assumes "typed_ok nm" "length nm \<le> 87" "length name0 = ROWS" "length text0 = ROWS"
  obtains name t where "ask_name name0 text0 (nm @ NL # rest) = Some (name, t, rest)"
    "carries ROWS (nm @ '': '') name" "carries ROWS (''New user - '' @ nm @ [NL]) t"
proof -
  obtain a where a: "fgets name0 ROWS (nm @ NL # rest) = Some (True, a, rest)" "carries ROWS (nm @ [NL]) a"
    using fgets_returns [of nm ROWS name0 rest] assms by (auto simp: typed_ok_def carries_def ROWS_def elim!: returnsE)
  obtain t0 where t0: "strcpy text0 (lit ''New user - '') = Some t0" "carries ROWS ''New user - '' t0"
    by (rule strcpy_carries [of "lit ''New user - ''" "''New user - ''" ROWS text0])
      (use assms(4) in \<open>simp_all add: ROWS_def no_nul\<close>)
  obtain t1 where t1: "strcat t0 a = Some t1" "carries ROWS (''New user - '' @ nm @ [NL]) t1"
    by (rule strcat_carries [OF t0(2) carriesD(1,2) [OF a(2)]])
      (use assms(2) in \<open>simp_all add: ROWS_def\<close>)
  have n: "strlen a = Some (Suc (length nm))" using a(2) by (simp add: carries_def cmem)
  let ?b = "a[length nm := CHR '':'']"
  have len: "length a = ROWS" using a(2) by (simp add: carries_def)
  have b: "aset a (int (Suc (length nm)) - 1) (CHR '':'') = Some ?b"
    using assms(2) len by (simp add: aset_Some ROWS_def)
  have cb: "carries ROWS (nm @ '':'') ?b" by (rule carries_last [OF a(2)]) (simp add: NUL_def)
  obtain c where c: "strcat ?b (lit '' '') = Some c" "carries ROWS ((nm @ '':'') @ '' '') c"
    by (rule strcat_carries [OF cb, of "lit '' ''" "'' ''"]) (use assms(2) in \<open>simp_all add: ROWS_def no_nul\<close>)
  have "ask_name name0 text0 (nm @ NL # rest) = Some (c, t1, rest)"
    unfolding ask_name_def by (simp add: a(1) t0(1) t1(1) n b [simplified] c(1))
  then show thesis using that c(2) t1(2) by simp
qed

lemma say_line_ok:
  assumes "typed_ok l" "length l \<le> 98" "length nm + length l < ROWS - 1" "carries ROWS nm name" "length buf0 = ROWS" "length text0 = ROWS"
  obtains b t where "say_line name buf0 text0 (l @ NL # rest) = Some (b, t, rest)"
    "length b = ROWS" "carries ROWS (nm @ l @ [NL]) t"
proof -
  obtain b0 where b0: "strcpy buf0 (lit '' '') = Some b0" "carries ROWS '' '' b0"
    by (rule strcpy_carries [of "lit '' ''" "'' ''" ROWS buf0]) (use assms(5) in \<open>simp_all add: ROWS_def no_nul\<close>)
  obtain a where a: "fgets b0 ROWS (l @ NL # rest) = Some (True, a, rest)" "carries ROWS (l @ [NL]) a"
    using fgets_returns [of l ROWS b0 rest] assms(1,2) carriesD(3) [OF b0(2)] by (auto simp: typed_ok_def carries_def ROWS_def elim!: returnsE)
  obtain t0 where t0: "strcpy text0 name = Some t0" "carries ROWS nm t0"
    by (rule strcpy_carries [OF carriesD(1,2) [OF assms(4)] _ assms(6)]) (use assms(3) in simp_all)
  obtain t1 where t1: "strcat t0 a = Some t1" "carries ROWS (nm @ l @ [NL]) t1"
    by (rule strcat_carries [OF t0(2) carriesD(1,2) [OF a(2)]]) (use assms(3) in simp_all)
  have "say_line name buf0 text0 (l @ NL # rest) = Some (a, t1, rest)"
    unfolding say_line_def by (simp add: b0(1) a(1) t0(1) t1(1))
  then show thesis using that a(2) t1(2) by (simp add: carries_def)
qed

text \<open>After the end of the input every round sends the name and a blank.\<close>

lemma say_line_eof:
  assumes "length nm < ROWS - 1" "carries ROWS nm name" "length buf0 = ROWS" "length text0 = ROWS"
  obtains b t where "say_line name buf0 text0 [] = Some (b, t, [])" "length b = ROWS" "carries ROWS (nm @ '' '') t"
proof -
  obtain b0 where b0: "strcpy buf0 (lit '' '') = Some b0" "carries ROWS '' '' b0"
    by (rule strcpy_carries [of "lit '' ''" "'' ''" ROWS buf0]) (use assms(3) in \<open>simp_all add: ROWS_def no_nul\<close>)
  obtain t0 where t0: "strcpy text0 name = Some t0" "carries ROWS nm t0"
    by (rule strcpy_carries [OF carriesD(1,2) [OF assms(2)] _ assms(4)]) (use assms(1) in simp_all)
  obtain t1 where t1: "strcat t0 b0 = Some t1" "carries ROWS (nm @ '' '') t1"
    by (rule strcat_carries [OF t0(2) carriesD(1,2) [OF b0(2)]]) (use assms(1) in simp_all)
  have "say_line name buf0 text0 [] = Some (b0, t1, [])"
    unfolding say_line_def by (simp add: b0(1) fgets_eof t0(1) t1(1))
  then show thesis using that b0(2) t1(2) by (simp add: carries_def)
qed

section \<open>The rows\<close>

function show_rows :: "int \<Rightarrow> int \<Rightarrow> char list list \<Rightarrow> string option" where
  "show_rows n i rows =
     (if i < n then do { row \<leftarrow> aref rows i; s \<leftarrow> rd_str row; t \<leftarrow> show_rows n (i + 1) rows; Some (s @ t) } else Some [])"
  by pat_completeness auto
termination by (relation "measure (\<lambda>(n, i, rows). nat (n - i))") auto

declare show_rows.simps [simp del]

text \<open>The first rows hold the messages \<open>ts\<close>.\<close>

definition rows_hold :: "char list list \<Rightarrow> string list \<Rightarrow> bool" where
  "rows_hold rows ts \<longleftrightarrow> length ts \<le> length rows \<and> (\<forall>i < length ts. NUL \<in> set (rows ! i) \<and> cstr (rows ! i) = ts ! i)"

lemma holds_Nil [simp]: "rows_hold rows []"
  by (simp add: rows_hold_def)

lemma holds_take: "rows_hold rows ts \<Longrightarrow> rows_hold rows (take n ts)"
  by (auto simp: rows_hold_def)

lemma holds_store:
  assumes "rows_hold rows ts" "length ts < length rows" "NUL \<in> set row" "cstr row = t"
  shows "rows_hold (rows[length ts := row]) (ts @ [t])"
  using assms unfolding rows_hold_def by (auto simp: nth_append nth_list_update less_Suc_eq)

lemma show_rows_from:
  assumes "rows_hold rows ts"
  shows "i \<le> n \<Longrightarrow> n \<le> length ts \<Longrightarrow> show_rows (int n) (int i) rows = Some (concat (drop i (take n ts)))"
proof (induction "n - i" arbitrary: i)
  case 0
  then show ?case by (simp add: show_rows.simps)
next
  case (Suc m)
  then have i: "i < n" "i < length ts" by simp_all
  have r: "aref rows (int i) = Some (rows ! i)" "rd_str (rows ! i) = Some (ts ! i)"
    using assms i by (simp_all add: rows_hold_def cmem)
  have "show_rows (int n) (int (Suc i)) rows = Some (concat (drop (Suc i) (take n ts)))"
    using Suc by (intro Suc.hyps(1)) simp_all
  then have "show_rows (int n) (int i) rows = Some (ts ! i @ concat (drop (Suc i) (take n ts)))"
    using i r by (subst show_rows.simps) (simp add: add.commute)
  also have "ts ! i @ concat (drop (Suc i) (take n ts)) = concat (drop i (take n ts))"
    using i by (subst Cons_nth_drop_Suc [symmetric]) simp_all
  finally show ?case .
qed

lemma show_rows_holds:
  assumes "rows_hold rows ts" "n \<le> length ts"
  shows "show_rows (int n) 0 rows = Some (concat (take n ts))"
  using show_rows_from [OF assms(1), of 0 n] assms(2) by simp

section \<open>What a chat promises\<close>

text \<open>
  The specification of both chats: a wall on which messages are posted one behind the other, and clients
  that look at the wall from time to time.  What a client sees is what was posted until some
  moment; it stays in front of the client until it looks again.
\<close>

record wall =
  posted :: "string list"
  views :: "string list"

inductive wall_step :: "wall \<Rightarrow> wall \<Rightarrow> bool" where
  post: "wall_step w (w\<lparr>posted := posted w @ [t]\<rparr>)"
| look: "k < length (views w) \<Longrightarrow> n \<le> length (posted w) \<Longrightarrow> wall_step w (w\<lparr>views := (views w)[k := concat (take n (posted w))]\<rparr>)"

inductive_cases wall_stepE: "wall_step w v"

definition wall_init :: "nat \<Rightarrow> wall \<Rightarrow> bool" where
  "wall_init n w \<longleftrightarrow> w = \<lparr>posted = [], views = replicate n []\<rparr>"

definition wall_inv :: "nat \<Rightarrow> wall \<Rightarrow> bool" where
  "wall_inv n w \<longleftrightarrow> length (views w) = n \<and> (\<forall>u \<in> set (views w). \<exists>i \<le> length (posted w). u = concat (take i (posted w)))"

interpretation wall_sys: inductive_invariant "wall_init n" wall_step "wall_inv n" for n
proof
  fix w v assume i: "wall_inv n w" "wall_step w v"
  from i(2) show "wall_inv n v"
  proof (rule wall_stepE)
    fix t assume v: "v = w\<lparr>posted := posted w @ [t]\<rparr>"
    have "\<exists>i \<le> length (posted v). u = concat (take i (posted v))" if u: "u \<in> set (views w)" for u
    proof -
      obtain i where "i \<le> length (posted w)" "u = concat (take i (posted w))" using i(1) u unfolding wall_inv_def by blast
      then show ?thesis by (intro exI [of _ i]) (simp add: v)
    qed
    then show ?thesis using i(1) by (simp add: wall_inv_def v)
  next
    fix k j assume "j \<le> length (posted w)" "v = w\<lparr>views := (views w)[k := concat (take j (posted w))]\<rparr>"
    then show ?thesis using i(1) set_update_subset_insert [of "views w" k] by (fastforce simp: wall_inv_def)
  qed
qed (simp add: wall_init_def wall_inv_def)

abbreviation wall_reachable :: "nat \<Rightarrow> wall \<Rightarrow> bool" where
  "wall_reachable n \<equiv> reach (wall_init n) wall_step"

lemma wall_view:
  assumes "wall_reachable n w" "k < length (views w)"
  shows "\<exists>i \<le> length (posted w). views w ! k = concat (take i (posted w))"
  using wall_sys.always [OF assms(1)] assms(2) by (simp add: wall_inv_def)

text \<open>A short message, for the runs below.\<close>

definition hi :: "char list" where
  "hi = ''hi'' @ replicate 98 NUL"

end
