(* ===== verification/QueueChat.thy ===== *)
theory QueueChat
  imports Chat
begin

text \<open>
  The chat over two message queues, \<open>queue/chat\<close>: the writers of the clients send their messages through
  one queue, the server appends each to the array \<open>grp.marray\<close> and sends the whole structure through
  the other, and the readers of the clients show it.  A step is one message received or sent.  The
  chat refines the wall of \<open>Chat\<close>, and every conversation that fits into the array is delivered.
\<close>

definition COLS :: nat where "COLS = 50"

section \<open>The writer of a client\<close>

text \<open>
  The messages of the first \<open>n\<close> rounds of the loop, which has no end; \<open>mtext\<close> is the array of the
  structure that is sent.
\<close>

fun writs_loop :: "nat \<Rightarrow> char list \<Rightarrow> char list \<Rightarrow> char list \<Rightarrow> string \<Rightarrow> char list list option" where
  "writs_loop 0 name buf mtext inp = Some []"
| "writs_loop (Suc n) name buf mtext inp =
     do { (buf', m, rest) \<leftarrow> say_line name buf mtext inp;
          m' \<leftarrow> strcpy m (lit [NL]);
          ms \<leftarrow> writs_loop n name buf' m' rest;
          Some (m # m' # ms) }"

definition writs :: "nat \<Rightarrow> char list \<Rightarrow> char list \<Rightarrow> char list \<Rightarrow> string \<Rightarrow> char list list option" where
  "writs n name0 buf0 mtext0 inp =
     do { (name, m, rest) \<leftarrow> ask_name name0 mtext0 inp;
          m' \<leftarrow> strcpy m (lit [NL]);
          ms \<leftarrow> writs_loop n name buf0 m' rest;
          Some (m # m' # ms) }"

section \<open>The server\<close>

record group =
  marray :: "char list list"
  count_of :: int

text \<open>What the server prints for a message, and the structure it sends afterwards.\<close>

definition server_recv :: "char list \<Rightarrow> group \<Rightarrow> (string \<times> group) option" where
  "server_recv m g =
     do { t \<leftarrow> rd_str m;
          row \<leftarrow> aref (marray g) (count_of g);
          row' \<leftarrow> strcpy row m;
          rows \<leftarrow> aset (marray g) (count_of g) row';
          Some (t, g\<lparr>marray := rows, count_of := count_of g + 1\<rparr>) }"

text \<open>The start: \<open>None\<close> when a queue could not be made, and the server returns 1 after its message.\<close>

definition server_start :: "bool \<Rightarrow> bool \<Rightarrow> char list list \<Rightarrow> group option" where
  "server_start msg_ok grp_ok junk = (if \<not> msg_ok \<or> \<not> grp_ok then None else Some \<lparr>marray = junk, count_of = 0\<rparr>)"

section \<open>The reader of a client\<close>

text \<open>What stands on the terminal after a round of \<open>prints\<close>.\<close>

definition prints_round :: "group \<Rightarrow> string option" where
  "prints_round g = show_rows (count_of g) 0 (marray g)"

section \<open>All processes\<close>

text \<open>
  \<open>to_send\<close>: what the writer of every client still sends; \<open>printed\<close>: the messages the server has printed;
  \<open>screens\<close>: the terminals of the clients; \<open>broken\<close>: the behaviour is not defined any more.
\<close>

record chat =
  to_send :: "char list list list"
  msg_q :: "char list list"
  grp :: group
  grp_q :: "group list"
  printed :: "string list"
  screens :: "string list"
  broken :: bool

definition send_step :: "nat \<Rightarrow> chat \<Rightarrow> chat option" where
  "send_step k s =
     (case to_send s ! k of
        [] \<Rightarrow> None
      | m # ms \<Rightarrow> Some (s\<lparr>to_send := (to_send s)[k := ms], msg_q := msg_q s @ [m]\<rparr>))"

definition serve_step :: "chat \<Rightarrow> chat option" where
  "serve_step s =
     (case msg_q s of
        [] \<Rightarrow> None
      | m # q \<Rightarrow>
          (case server_recv m (grp s) of
             None \<Rightarrow> Some (s\<lparr>broken := True\<rparr>)
           | Some (t, g) \<Rightarrow> Some (s\<lparr>msg_q := q, grp := g, grp_q := grp_q s @ [g], printed := printed s @ [t]\<rparr>)))"

definition show_step :: "nat \<Rightarrow> chat \<Rightarrow> chat option" where
  "show_step k s =
     (case grp_q s of
        [] \<Rightarrow> None
      | g # q \<Rightarrow>
          (case prints_round g of
             None \<Rightarrow> Some (s\<lparr>broken := True\<rparr>)
           | Some t \<Rightarrow> Some (s\<lparr>grp_q := q, screens := (screens s)[k := t]\<rparr>)))"

text \<open>The kernel gives a message of the second queue to any one of the clients.\<close>

inductive chat_step :: "chat \<Rightarrow> chat \<Rightarrow> bool" where
  by_writer: "\<not> broken s \<Longrightarrow> k < length (to_send s) \<Longrightarrow> send_step k s = Some t \<Longrightarrow> chat_step s t"
| by_server: "\<not> broken s \<Longrightarrow> serve_step s = Some t \<Longrightarrow> chat_step s t"
| by_reader: "\<not> broken s \<Longrightarrow> k < length (screens s) \<Longrightarrow> show_step k s = Some t \<Longrightarrow> chat_step s t"

inductive_cases chat_stepE: "chat_step s t"

definition chat_start :: "group \<Rightarrow> char list list list \<Rightarrow> chat" where
  "chat_start g mss = \<lparr>to_send = mss, msg_q = [], grp = g, grp_q = [], printed = [],
     screens = replicate (length mss) [], broken = False\<rparr>"

section \<open>What the writers send\<close>

definition say_msgs :: "string \<Rightarrow> string \<Rightarrow> string list" where
  "say_msgs nm l = [nm @ '': '' @ l, [NL]]"

lemma NL_lit: "cstr (lit [NL]) = [NL]"
  by (rule carries_lit(2)) simp

lemma strcpy_NL:
  assumes "length m = ROWS"
  obtains d where "strcpy m (lit [NL]) = Some d" "carries ROWS [NL] d"
  by (rule strcpy_carries [OF carries_lit(1) NL_lit _ assms]) (simp_all add: ROWS_def)

lemma list_all2_append2: "list_all2 P [x, y] [a, b] \<Longrightarrow> list_all2 P xs as \<Longrightarrow> list_all2 P (x # y # xs) (a # b # as)"
  by simp

lemma writs_loop_eof:
  assumes "length nm < ROWS - 3" "carries ROWS (nm @ '': '') name" "length buf = ROWS" "length mtext = ROWS"
  shows "\<exists>ms. writs_loop k name buf mtext [] = Some ms \<and> list_all2 (carries ROWS) (concat (replicate k (say_msgs nm '' ''))) ms"
  using assms(3,4)
proof (induction k arbitrary: buf mtext)
  case (Suc k)
  obtain b t where say_msgs: "say_line name buf mtext [] = Some (b, t, [])" "length b = ROWS" "carries ROWS ((nm @ '': '') @ '' '') t"
    by (rule say_line_eof [OF _ assms(2) Suc.prems]) (use assms(1) in simp)
  obtain m' where m': "strcpy t (lit [NL]) = Some m'" "carries ROWS [NL] m'"
    by (rule strcpy_NL [OF carriesD(3) [OF say_msgs(3)]])
  obtain ms where ms: "writs_loop k name b m' [] = Some ms" "list_all2 (carries ROWS) (concat (replicate k (say_msgs nm '' ''))) ms"
    using Suc.IH [OF say_msgs(2) carriesD(3) [OF m'(2)]] by blast
  have "writs_loop (Suc k) name buf mtext [] = Some (t # m' # ms)" by (simp add: say_msgs(1) m'(1) ms(1))
  moreover have "list_all2 (carries ROWS) (concat (replicate (Suc k) (say_msgs nm '' ''))) (t # m' # ms)"
    using say_msgs(3) m'(2) ms(2) by (simp add: say_msgs_def)
  ultimately show ?case by blast
qed simp

lemma writs_loop_lines:
  assumes "carries ROWS (nm @ '': '') name" "length buf = ROWS" "length mtext = ROWS" "length nm < ROWS - 3"
    "list_all (\<lambda>l. typed_ok l \<and> length nm + length l \<le> 96) ls"
  shows "\<exists>ms. writs_loop (length ls + k) name buf mtext (type_in ls) = Some ms \<and>
    list_all2 (carries ROWS) (concat (map (\<lambda>l. say_msgs nm (l @ [NL])) ls) @ concat (replicate k (say_msgs nm '' ''))) ms"
  using assms(2,3,5)
proof (induction ls arbitrary: buf mtext)
  case Nil
  then show ?case using writs_loop_eof [OF assms(4,1), of buf mtext k] by (simp add: type_in_def)
next
  case (Cons l ls)
  have l: "typed_ok l" "length nm + length l \<le> 96" using Cons.prems(3) by simp_all
  then have b: "length l \<le> 98" "length (nm @ '': '') + length l < ROWS - 1" by (simp_all add: ROWS_def)
  obtain b t where say_msgs: "say_line name buf mtext (l @ NL # type_in ls) = Some (b, t, type_in ls)" "length b = ROWS"
      "carries ROWS ((nm @ '': '') @ l @ [NL]) t"
    by (rule say_line_ok [OF l(1) b assms(1) Cons.prems(1,2)])
  obtain m' where m': "strcpy t (lit [NL]) = Some m'" "carries ROWS [NL] m'"
    by (rule strcpy_NL [OF carriesD(3) [OF say_msgs(3)]])
  have "list_all (\<lambda>l. typed_ok l \<and> length nm + length l \<le> 96) ls" using Cons.prems(3) by simp
  from Cons.IH [OF say_msgs(2) carriesD(3) [OF m'(2)] this] obtain ms where
    ms: "writs_loop (length ls + k) name b m' (type_in ls) = Some ms"
      "list_all2 (carries ROWS) (concat (map (\<lambda>l. say_msgs nm (l @ [NL])) ls) @ concat (replicate k (say_msgs nm '' ''))) ms" by blast
  have "writs_loop (length (l # ls) + k) name buf mtext (type_in (l # ls)) = Some (t # m' # ms)"
    by (simp add: type_in_Cons say_msgs(1) m'(1) ms(1))
  moreover have "list_all2 (carries ROWS) (concat (map (\<lambda>l. say_msgs nm (l @ [NL])) (l # ls)) @ concat (replicate k (say_msgs nm '' ''))) (t # m' # ms)"
    using say_msgs(3) m'(2) ms(2) by (simp add: say_msgs_def)
  ultimately show ?case by blast
qed

text \<open>
  C26. The writer announces the user and then sends every line typed behind the name and a colon, each
  message followed by one that rows_hold a line feed; after the end of the input it sends the name and a
  blank in every round, for ever.  It stays in bounds when the name has at most 87 characters and
  name and line together at most 96.
\<close>

theorem writs_sends:
  assumes "typed_ok nm" "length nm \<le> 87" "list_all (\<lambda>l. typed_ok l \<and> length nm + length l \<le> 96) ls"
    "length name0 = ROWS" "length buf0 = ROWS" "length mtext0 = ROWS"
  shows "\<exists>ms. writs (length ls + k) name0 buf0 mtext0 (type_in (nm # ls)) = Some ms \<and>
    list_all2 (carries ROWS) ([''New user - '' @ nm @ [NL], [NL]] @ concat (map (\<lambda>l. say_msgs nm (l @ [NL])) ls) @
      concat (replicate k (say_msgs nm '' ''))) ms"
proof -
  obtain name t where n: "ask_name name0 mtext0 (nm @ NL # type_in ls) = Some (name, t, type_in ls)"
      "carries ROWS (nm @ '': '') name" "carries ROWS (''New user - '' @ nm @ [NL]) t"
    by (rule ask_name_ok [OF assms(1,2,4,6)])
  obtain m' where m': "strcpy t (lit [NL]) = Some m'" "carries ROWS [NL] m'"
    by (rule strcpy_NL [OF carriesD(3) [OF n(3)]])
  have "length nm < ROWS - 3" using assms(2) by (simp add: ROWS_def)
  from writs_loop_lines [OF n(2) assms(5) carriesD(3) [OF m'(2)] this assms(3), of k] obtain ms where
    ms: "writs_loop (length ls + k) name buf0 m' (type_in ls) = Some ms"
      "list_all2 (carries ROWS) (concat (map (\<lambda>l. say_msgs nm (l @ [NL])) ls) @ concat (replicate k (say_msgs nm '' ''))) ms" by blast
  have "writs (length ls + k) name0 buf0 mtext0 (type_in (nm # ls)) = Some (t # m' # ms)"
    unfolding writs_def by (simp add: type_in_Cons n(1) m'(1) ms(1))
  moreover have "list_all2 (carries ROWS) ([''New user - '' @ nm @ [NL], [NL]] @ concat (map (\<lambda>l. say_msgs nm (l @ [NL])) ls) @
      concat (replicate k (say_msgs nm '' ''))) (t # m' # ms)" using n(3) m'(2) ms(2) by simp
  ultimately show ?thesis by blast
qed

theorem writs_sends_witness:
  "\<exists>ms. writs 1 (replicate 100 NUL) (replicate 100 NUL) (replicate 100 NUL) (''Bob'' @ [NL] @ ''hi'' @ [NL]) = Some ms \<and>
    map cstr ms = [''New user - Bob'' @ [NL], [NL], ''Bob: hi'' @ [NL], [NL]]"
proof -
  let ?z = "replicate 100 NUL"
  have l: "list_all (\<lambda>l. typed_ok l \<and> length ''Bob'' + length l \<le> 96) [''hi'']" by (simp add: typed_ok_def NL_def NUL_def)
  have n: "typed_ok ''Bob''" by (simp add: typed_ok_def NL_def NUL_def)
  obtain ms where ms: "writs 1 ?z ?z ?z (type_in [''Bob'', ''hi'']) = Some ms"
    "list_all2 (carries ROWS) [''New user - Bob'' @ [NL], [NL], ''Bob: hi'' @ [NL], [NL]] ms"
    using writs_sends [OF n _ l, of ?z ?z ?z 0] by (auto simp: ROWS_def say_msgs_def)
  have "list_all2 (carries ROWS) ts xs \<Longrightarrow> map cstr xs = ts" for ts xs
    by (induction rule: list_all2_induct) (simp_all add: carries_def)
  from this [OF ms(2)] ms(1) show ?thesis by (simp add: type_in_def)
qed

section \<open>The conversation\<close>

definition board :: "group \<Rightarrow> string list \<Rightarrow> bool" where
  "board g ts \<longleftrightarrow> count_of g = int (length ts) \<and> rows_hold (marray g) ts"

lemma server_recv_ok:
  assumes "NUL \<in> set m"
  shows "server_recv m g = Some (t, g') \<Longrightarrow> board g ts \<Longrightarrow> t = cstr m \<and> board g' (ts @ [cstr m])"
proof -
  assume r: "server_recv m g = Some (t, g')" and b: "board g ts"
  let ?n = "length ts"
  have c: "count_of g = int ?n" using b by (simp add: board_def)
  obtain row row' rows where x: "aref (marray g) (int ?n) = Some row" "strcpy row m = Some row'"
      "aset (marray g) (int ?n) row' = Some rows" "t = cstr m" "g' = g\<lparr>marray := rows, count_of := int ?n + 1\<rparr>"
    using r assms c unfolding server_recv_def by (auto simp: cmem bind_eq_Some_conv')
  have n: "?n < length (marray g)" "rows = (marray g)[?n := row']" using x(3) by (auto simp: aset_def split: if_splits)
  have len: "length (cstr m) < length row" using x(2) strcpy_None [OF assms, of row] by (metis not_le option.distinct(1))
  have row': "NUL \<in> set row'" "cstr row' = cstr m"
    using strcpy_returns [OF assms len] x(2) by (auto simp: returns_def)
  have "rows_hold rows (ts @ [cstr m])" unfolding n(2)
    by (rule holds_store [OF _ n(1) row']) (use b in \<open>simp add: board_def\<close>)
  then show "t = cstr m \<and> board g' (ts @ [cstr m])" using x(4,5) by (simp add: board_def)
qed

lemma recv_defined_iff:
  assumes "NUL \<in> set m" "length (marray g) = ROWS" "\<forall>row \<in> set (marray g). length row = COLS" "board g ts"
  shows "server_recv m g \<noteq> None \<longleftrightarrow> length ts < ROWS \<and> length (cstr m) < COLS"
proof -
  have c: "count_of g = int (length ts)" using assms(4) by (simp add: board_def)
  show ?thesis
  proof (cases "length ts < ROWS")
    case True
    then have row: "aref (marray g) (int (length ts)) = Some (marray g ! length ts)" "length (marray g ! length ts) = COLS"
      "aset (marray g) (int (length ts)) v = Some ((marray g)[length ts := v])" for v
      using assms(2,3) by (simp_all add: cmem)
    show ?thesis
    proof (cases "length (cstr m) < COLS")
      case l: True
      obtain d where "strcpy (marray g ! length ts) m = Some d" using strcpy_carries [OF assms(1) refl l row(2)] .
      then show ?thesis using True l by (simp add: server_recv_def c row assms(1) cmem)
    next
      case False
      then have "strcpy (marray g ! length ts) m = None" using row(2) by (intro strcpy_None [OF assms(1)]) simp
      then show ?thesis using False by (simp add: server_recv_def c row assms(1) cmem)
    qed
  next
    case False
    then show ?thesis using assms(2) by (simp add: server_recv_def c aref_def assms(1) cmem)
  qed
qed

text \<open>
  The bounds of the server: with the messages \<open>ts\<close> in its array it can take another one exactly when there
  are fewer than \<open>ROWS\<close> and the text has fewer than \<open>COLS\<close> characters; otherwise it writes outside the array.
\<close>

theorem server_recv_defined:
  assumes "NUL \<in> set m" "length (marray g) = ROWS" "\<forall>row \<in> set (marray g). length row = COLS" "board g ts"
  shows "server_recv m g \<noteq> None \<longleftrightarrow> length ts < ROWS \<and> length (cstr m) < COLS"
  by (rule recv_defined_iff [OF assms])

theorem server_recv_defined_witness:
  "server_recv (lit (replicate 50 (CHR ''x''))) \<lparr>marray = replicate 100 (replicate 50 NUL), count_of = 0\<rparr> = None"
proof -
  have "NUL \<notin> set (replicate 50 (CHR ''x''))" by (simp add: NUL_def)
  then have "NUL \<in> set (lit (replicate 50 (CHR ''x'')))" "length (cstr (lit (replicate 50 (CHR ''x'')))) = 50" by simp_all
  from server_recv_defined [OF this(1), of "\<lparr>marray = replicate 100 (replicate 50 NUL), count_of = 0\<rparr>" "[]"] this(2)
  show ?thesis by (cases "server_recv (lit (replicate 50 (CHR ''x''))) \<lparr>marray = replicate 100 (replicate 50 NUL), count_of = 0\<rparr>") (simp_all add: ROWS_def COLS_def board_def)
qed

text \<open>
  \<open>on_way\<close>: the messages that the server has not printed yet.  \<open>sent_ok\<close>: what the writers have sent so far
  reaches the server in an interleaving of their orders; the last of it still waits in the queue.
\<close>

definition on_way :: "chat \<Rightarrow> char list list" where
  "on_way s = msg_q s @ concat (to_send s)"

definition sent_ok :: "string list list \<Rightarrow> char list list list \<Rightarrow> string list \<Rightarrow> bool" where
  "sent_ok tss mss ts \<longleftrightarrow> (\<exists>sent. length sent = length tss \<and> length mss = length tss \<and>
     (\<forall>k < length tss. sent ! k @ map cstr (mss ! k) = tss ! k) \<and> merge_of sent ts)"

definition chat_ok :: "string list list \<Rightarrow> chat \<Rightarrow> bool" where
  "chat_ok tss s \<longleftrightarrow> (\<forall>m \<in> set (on_way s). NUL \<in> set m) \<and> board (grp s) (printed s) \<and>
     (\<forall>g \<in> set (grp_q s). \<exists>n \<le> length (printed s). board g (take n (printed s))) \<and>
     sent_ok tss (to_send s) (printed s @ map cstr (msg_q s))"

lemma sent_ok_start: "sent_ok (map (map cstr) mss) mss []"
  unfolding sent_ok_def by (rule exI [of _ "replicate (length mss) []"]) (auto intro: merge_none)

lemma sent_ok_more:
  assumes "sent_ok tss mss ts" "k < length mss" "mss ! k = m # ms"
  shows "sent_ok tss (mss[k := ms]) (ts @ [cstr m])"
proof -
  obtain sent where x: "length sent = length tss" "length mss = length tss"
    "\<forall>k < length tss. sent ! k @ map cstr (mss ! k) = tss ! k" "merge_of sent ts" using assms(1) by (auto simp: sent_ok_def)
  have "merge_of (sent[k := sent ! k @ [cstr m]]) (ts @ [cstr m])" using x assms(2) by (intro merge_more) simp_all
  moreover have "\<forall>j < length tss. sent[k := sent ! k @ [cstr m]] ! j @ map cstr (mss[k := ms] ! j) = tss ! j"
    using x assms(2,3) by (auto simp: nth_list_update)
  moreover have "length (sent[k := sent ! k @ [cstr m]]) = length tss" "length (mss[k := ms]) = length tss" using x by simp_all
  ultimately show ?thesis unfolding sent_ok_def by blast
qed

text \<open>When the writers have nothing left, all their messages have arrived.\<close>

lemma sent_ok_done:
  assumes "sent_ok tss mss ts" "\<forall>ms \<in> set mss. ms = []"
  shows "merge_of tss ts"
proof -
  obtain sent where x: "length sent = length tss" "length mss = length tss"
    "\<forall>k < length tss. sent ! k @ map cstr (mss ! k) = tss ! k" "merge_of sent ts" using assms(1) by (auto simp: sent_ok_def)
  have "sent ! k = tss ! k" if k: "k < length tss" for k
  proof -
    have "mss ! k = []" using assms(2) k x(2) by simp
    then show ?thesis using x(3) k by (metis append_Nil2 list.simps(8))
  qed
  then have "sent = tss" using x(1) by (intro nth_equalityI) simp_all
  then show ?thesis using x(4) by simp
qed

lemma chat_ok_broken [simp]: "chat_ok tss (s\<lparr>broken := b\<rparr>) = chat_ok tss s"
  by (simp add: chat_ok_def on_way_def)

lemma writer_set:
  assumes "k < length mss" "mss ! k = m # ms"
  shows "insert m (set (concat (mss[k := ms]))) = set (concat mss)"
proof -
  have "mset (concat (mss[k := ms])) + mset (m # ms) = mset (concat mss) + mset ms"
    using mset_concat_update [OF assms(1), of "\<lambda>x. x" ms] assms(2) by simp
  then have "add_mset m (mset (concat (mss[k := ms]))) = mset (concat mss)" by simp
  then show ?thesis by (metis set_mset_add_mset_insert set_mset_mset)
qed

text \<open>Where the wall of the specification is: the messages printed, and the terminals.\<close>

definition wall_of :: "chat \<Rightarrow> wall" where
  "wall_of s = \<lparr>posted = printed s, views = screens s\<rparr>"

lemma send_ok:
  assumes "chat_ok tss s" "k < length (to_send s)" "send_step k s = Some t"
  shows "chat_ok tss t \<and> wall_of t = wall_of s"
proof -
  obtain m ms where m: "to_send s ! k = m # ms" and t: "t = s\<lparr>to_send := (to_send s)[k := ms], msg_q := msg_q s @ [m]\<rparr>"
    using assms(3) by (auto simp: send_step_def split: list.splits)
  have "set (on_way t) = set (on_way s)" using writer_set [OF assms(2) m] by (auto simp: on_way_def t)
  moreover have "sent_ok tss (to_send t) (printed t @ map cstr (msg_q t))"
    using sent_ok_more [of tss "to_send s" "printed s @ map cstr (msg_q s)" k m ms] assms(1,2) m by (simp add: chat_ok_def t)
  ultimately show ?thesis using assms(1) by (simp add: chat_ok_def t wall_of_def)
qed

lemma serve_ok:
  assumes "chat_ok tss s" "serve_step s = Some t"
  shows "chat_ok tss t \<and> (wall_of t = wall_of s \<or> wall_step (wall_of s) (wall_of t))"
proof (cases "msg_q s")
  case (Cons m q)
  have m: "NUL \<in> set m" using assms(1) Cons by (simp add: chat_ok_def on_way_def)
  show ?thesis
  proof (cases "server_recv m (grp s)")
    case None
    then have "t = s\<lparr>broken := True\<rparr>" using assms(2) Cons by (simp add: serve_step_def)
    then show ?thesis using assms(1) by (simp add: wall_of_def)
  next
    case (Some r)
    obtain x g where r: "server_recv m (grp s) = Some (x, g)" using Some by (cases r) auto
    have b: "board (grp s) (printed s)" using assms(1) by (simp add: chat_ok_def)
    from server_recv_ok [OF m r b] have g: "x = cstr m" "board g (printed s @ [cstr m])" by simp_all
    have t: "t = s\<lparr>msg_q := q, grp := g, grp_q := grp_q s @ [g], printed := printed s @ [cstr m]\<rparr>"
      using assms(2) Cons r g(1) by (simp add: serve_step_def)
    have old: "\<exists>n \<le> length (printed t). board g' (take n (printed t))" if "g' \<in> set (grp_q s)" for g'
    proof -
      obtain n where "n \<le> length (printed s)" "board g' (take n (printed s))" using assms(1) \<open>g' \<in> set (grp_q s)\<close> by (auto simp: chat_ok_def)
      then show ?thesis by (intro exI [of _ n]) (simp add: t)
    qed
    have new: "\<exists>n \<le> length (printed t). board g (take n (printed t))"
      by (rule exI [of _ "length (printed t)"]) (simp add: t g(2))
    have "sent_ok tss (to_send t) (printed t @ map cstr (msg_q t))" "\<forall>m \<in> set (on_way t). NUL \<in> set m"
      using assms(1) Cons by (auto simp: chat_ok_def on_way_def t)
    then have "chat_ok tss t" using old new g(2) by (auto simp: chat_ok_def t)
    moreover have "wall_of t = wall_of s\<lparr>posted := posted (wall_of s) @ [cstr m]\<rparr>" by (simp add: wall_of_def t)
    ultimately show ?thesis using wall_step.post by metis
  qed
qed (use assms(2) in \<open>simp add: serve_step_def\<close>)

text \<open>A structure in the second queue is shown as a beginning of what was printed.\<close>

lemma round_shows: "chat_ok tss s \<Longrightarrow> g \<in> set (grp_q s) \<Longrightarrow> \<exists>n \<le> length (printed s). prints_round g = Some (concat (take n (printed s)))"
proof -
  assume "chat_ok tss s" "g \<in> set (grp_q s)"
  then obtain n where n: "n \<le> length (printed s)" "board g (take n (printed s))" by (auto simp: chat_ok_def)
  then have "prints_round g = Some (concat (take n (printed s)))"
    using show_rows_holds [of "marray g" "take n (printed s)" n] by (simp add: prints_round_def board_def)
  then show ?thesis using n(1) by blast
qed

lemma show_ok:
  assumes "chat_ok tss s" "k < length (screens s)" "show_step k s = Some t"
  shows "chat_ok tss t \<and> wall_step (wall_of s) (wall_of t)"
proof (cases "grp_q s")
  case (Cons g q)
  then obtain n where n: "n \<le> length (printed s)" "prints_round g = Some (concat (take n (printed s)))"
    using round_shows [OF assms(1), of g] by auto
  have t: "t = s\<lparr>grp_q := q, screens := (screens s)[k := concat (take n (printed s))]\<rparr>"
    using assms(3) Cons n(2) by (simp add: show_step_def)
  have "chat_ok tss t" using assms(1) Cons by (simp add: chat_ok_def t on_way_def)
  moreover have "wall_step (wall_of s) (wall_of s\<lparr>views := (views (wall_of s))[k := concat (take n (posted (wall_of s)))]\<rparr>)"
    using assms(2) n(1) by (intro wall_step.look) (simp_all add: wall_of_def)
  ultimately show ?thesis by (simp add: wall_of_def t)
qed (use assms(3) in \<open>simp add: show_step_def\<close>)

text \<open>The array of the server has \<open>ROWS\<close> rows of \<open>COLS\<close> bytes, with anything in them.\<close>

definition group_shape :: "group \<Rightarrow> bool" where
  "group_shape g \<longleftrightarrow> length (marray g) = ROWS \<and> (\<forall>row \<in> set (marray g). length row = COLS)"

definition chat_init :: "char list list list \<Rightarrow> chat \<Rightarrow> bool" where
  "chat_init mss s \<longleftrightarrow> (\<forall>m \<in> set (concat mss). NUL \<in> set m) \<and>
     (\<exists>junk g. server_start True True junk = Some g \<and> group_shape g \<and> s = chat_start g mss)"

abbreviation texts_of :: "char list list list \<Rightarrow> string list list" where
  "texts_of mss \<equiv> map (map cstr) mss"

lemma chat_step_ok:
  assumes "chat_ok tss s" "chat_step s t"
  shows "chat_ok tss t \<and> (wall_of t = wall_of s \<or> wall_step (wall_of s) (wall_of t))"
  using assms(2) by (rule chat_stepE) (use assms(1) send_ok serve_ok show_ok in blast)+

interpretation chat_sys: refinement "chat_init mss" chat_step "chat_ok (texts_of mss)" wall_of "wall_init (length mss)" wall_step for mss
proof
  fix s assume s: "chat_init mss s"
  then show "chat_ok (texts_of mss) s"
    using sent_ok_start [of mss] by (auto simp: chat_init_def chat_start_def chat_ok_def server_start_def board_def on_way_def)
  show "wall_init (length mss) (wall_of s)" using s by (auto simp: chat_init_def chat_start_def wall_of_def wall_init_def)
qed (use chat_step_ok in blast)+

text \<open>
  C8. The chat refines the wall, whatever the order of the steps: the messages printed by the server and
  those in its queue are an interleaving of what the writers have sent so far, each in its order, and
  every terminal shows a beginning of what was printed.
\<close>

theorem queue_chat_screens:
  assumes "reach (chat_init mss) chat_step s" "k < length (screens s)"
  shows "wall_reachable (length mss) (wall_of s) \<and> sent_ok (texts_of mss) (to_send s) (printed s @ map cstr (msg_q s)) \<and>
    (\<exists>n \<le> length (printed s). screens s ! k = concat (take n (printed s)))"
proof -
  have w: "wall_reachable (length mss) (wall_of s)" by (rule chat_sys.simulated [OF assms(1)])
  have "sent_ok (texts_of mss) (to_send s) (printed s @ map cstr (msg_q s))" using chat_sys.always [OF assms(1)] by (simp add: chat_ok_def)
  then show ?thesis using w wall_view [OF w, of k] assms(2) by (simp add: wall_of_def)
qed

section \<open>The end of a conversation\<close>

text \<open>What every step makes smaller: each message is sent, printed and shown once.\<close>

definition chat_work :: "chat \<Rightarrow> nat" where
  "chat_work s = 3 * length (concat (to_send s)) + 2 * length (msg_q s) + length (grp_q s) + (if broken s then 0 else 1)"

lemma length_concat_update:
  assumes "k < length mss" "mss ! k = m # ms"
  shows "length (concat mss) = Suc (length (concat (mss[k := ms])))"
proof -
  have "mset (concat (mss[k := ms]) @ m # ms) = mset (concat mss @ ms)"
    using mset_concat_update [OF assms(1), of "\<lambda>x. x" ms] assms(2) by simp
  then have "length (concat (mss[k := ms]) @ m # ms) = length (concat mss @ ms)" by (rule mset_eq_length)
  then show ?thesis by simp
qed

lemma chat_work_less: "chat_step s t \<Longrightarrow> chat_work t < chat_work s"
proof (erule chat_stepE)
  fix k assume "\<not> broken s" "k < length (to_send s)" "send_step k s = Some t"
  then show ?thesis using length_concat_update [of k "to_send s"] by (auto simp: send_step_def chat_work_def split: list.splits)
next
  assume "\<not> broken s" "serve_step s = Some t"
  then show ?thesis by (auto simp: serve_step_def chat_work_def split: list.splits option.splits)
next
  fix k assume "\<not> broken s" "k < length (screens s)" "show_step k s = Some t"
  then show ?thesis by (auto simp: show_step_def chat_work_def split: list.splits option.splits)
qed

text \<open>A conversation that fits into the array stays defined.\<close>

definition fits :: "chat \<Rightarrow> bool" where
  "fits s \<longleftrightarrow> \<not> broken s \<and> group_shape (grp s) \<and> (\<forall>m \<in> set (on_way s). length (cstr m) < COLS) \<and>
     length (printed s) + length (on_way s) \<le> ROWS"

lemma strcpy_length: "strcpy d s = Some e \<Longrightarrow> length e = length d"
  by (auto simp: strcpy_def wr_at_def bind_eq_Some_conv' split: if_splits)

lemma server_recv_shape: "server_recv m g = Some (t, g') \<Longrightarrow> group_shape g \<Longrightarrow> group_shape g'"
proof -
  assume r: "server_recv m g = Some (t, g')" and g: "group_shape g"
  obtain row row' rows where x: "aref (marray g) (count_of g) = Some row" "strcpy row m = Some row'"
      "aset (marray g) (count_of g) row' = Some rows" "marray g' = rows"
    using r unfolding server_recv_def by (auto simp: bind_eq_Some_conv')
  have c: "0 \<le> count_of g" "count_of g < int (length (marray g))" "row = marray g ! nat (count_of g)"
    "rows = (marray g)[nat (count_of g) := row']" using x(1,3) by (auto simp: aref_def aset_def split: if_splits)
  have "length row = COLS" using g c by (simp add: group_shape_def nat_less_iff)
  then have "length row' = COLS" using strcpy_length [OF x(2)] by simp
  then show ?thesis using g c(4) x(4) set_update_subset_insert [of "marray g" "nat (count_of g)" row']
    by (auto simp: group_shape_def)
qed

lemma fits_step:
  assumes "chat_ok tss s" "fits s" "chat_step s t"
  shows "fits t"
  using assms(3)
proof (rule chat_stepE)
  fix k assume k: "k < length (to_send s)" "send_step k s = Some t"
  obtain m ms where m: "to_send s ! k = m # ms" and t: "t = s\<lparr>to_send := (to_send s)[k := ms], msg_q := msg_q s @ [m]\<rparr>"
    using k(2) by (auto simp: send_step_def split: list.splits)
  have "set (on_way t) = set (on_way s)" "length (on_way t) = length (on_way s)"
    using writer_set [OF k(1) m] length_concat_update [OF k(1) m] by (auto simp: on_way_def t)
  then show ?thesis using assms(2) by (simp add: fits_def t)
next
  assume "serve_step s = Some t"
  then obtain m q where q: "msg_q s = m # q" and r: "(case server_recv m (grp s) of None \<Rightarrow> Some (s\<lparr>broken := True\<rparr>)
           | Some (t, g) \<Rightarrow> Some (s\<lparr>msg_q := q, grp := g, grp_q := grp_q s @ [g], printed := printed s @ [t]\<rparr>)) = Some t"
    by (auto simp: serve_step_def split: list.splits)
  have "NUL \<in> set m" "board (grp s) (printed s)" "length (printed s) < ROWS" "length (cstr m) < COLS"
    using assms(1,2) q by (simp_all add: chat_ok_def fits_def on_way_def)
  then have "server_recv m (grp s) \<noteq> None"
    using assms(2) by (subst recv_defined_iff) (simp_all add: fits_def group_shape_def)
  then obtain x g where g: "server_recv m (grp s) = Some (x, g)" by auto
  then have t: "t = s\<lparr>msg_q := q, grp := g, grp_q := grp_q s @ [g], printed := printed s @ [x]\<rparr>" using r by simp
  show ?thesis using assms(2) q server_recv_shape [OF g] by (simp add: fits_def on_way_def t)
next
  fix k assume k: "k < length (screens s)" "show_step k s = Some t"
  obtain g q where q: "grp_q s = g # q" using k(2) by (auto simp: show_step_def split: list.splits)
  then obtain u where "prints_round g = Some u" using round_shows [OF assms(1), of g] by auto
  then have "t = s\<lparr>grp_q := q, screens := (screens s)[k := u]\<rparr>" using k(2) q by (simp add: show_step_def)
  then show ?thesis using assms(2) by (simp add: fits_def on_way_def)
qed

lemma chat_rest:
  assumes "fits s" "\<nexists>t. chat_step s t"
  shows "msg_q s = [] \<and> (\<forall>ms \<in> set (to_send s). ms = [])"
proof -
  have "to_send s ! k = []" if k: "k < length (to_send s)" for k
  proof -
    have "send_step k s = None" using assms k by (metis fits_def by_writer not_None_eq)
    then show ?thesis by (auto simp: send_step_def split: list.splits)
  qed
  moreover have "serve_step s = None" using assms by (metis fits_def by_server not_None_eq)
  then have "msg_q s = []" by (auto simp: serve_step_def split: list.splits option.splits)
  ultimately show ?thesis by (auto simp: in_set_conv_nth)
qed

text \<open>
  C9. Every conversation of finitely many messages ends: no run goes on for ever.  When it fits into the array (at
  most 100 messages of at most 49 characters) every run ends well: the server stays defined, and once
  nothing moves it has printed all messages, in an interleaving of the orders of their writers.
\<close>

theorem queue_chat_delivers:
  assumes "reach (chat_init mss) chat_step s"
  shows "\<not> endless chat_step s \<and> (\<exists>t. chat_step\<^sup>*\<^sup>* s t \<and> (\<nexists>u. chat_step t u)) \<and>
    (length (concat mss) \<le> ROWS \<and> (\<forall>m \<in> set (concat mss). length (cstr m) < COLS) \<longrightarrow>
      (\<forall>t. chat_step\<^sup>*\<^sup>* s t \<and> (\<nexists>u. chat_step t u) \<longrightarrow> \<not> broken t \<and> merge_of (texts_of mss) (printed t)))"
proof (intro conjI allI impI)
  have ok: "chat_ok (texts_of mss) s" by (rule chat_sys.always [OF assms])
  show "\<not> endless chat_step s" by (rule chat_sys.ends [OF chat_work_less ok])
  show "\<exists>t. chat_step\<^sup>*\<^sup>* s t \<and> (\<nexists>u. chat_step t u)" by (rule chat_sys.rests [OF chat_work_less ok])
next
  assume small: "length (concat mss) \<le> ROWS \<and> (\<forall>m \<in> set (concat mss). length (cstr m) < COLS)"
  have inv: "chat_ok (texts_of mss) t \<and> fits t" if "reach (chat_init mss) chat_step t" for t
    using that
  proof (induction rule: reach.induct)
    case (reach_init s)
    then have "fits s" using small
      by (auto simp: chat_init_def chat_start_def fits_def on_way_def server_start_def)
    then show ?case using chat_sys.inv_init [OF reach_init] by simp
  next
    case (reach_step s t)
    then show ?case using fits_step chat_sys.inv_step by blast
  qed
  fix t assume t: "chat_step\<^sup>*\<^sup>* s t \<and> (\<nexists>u. chat_step t u)"
  then have "reach (chat_init mss) chat_step t" using reach_steps assms by metis
  then have i: "chat_ok (texts_of mss) t" "fits t" using inv by simp_all
  have r: "msg_q t = []" "\<forall>ms \<in> set (to_send t). ms = []" using chat_rest [OF i(2)] t by simp_all
  show "\<not> broken t" using i(2) by (simp add: fits_def)
  show "merge_of (texts_of mss) (printed t)"
    using sent_ok_done [OF _ r(2)] i(1) r(1) by (simp add: chat_ok_def)
qed

text \<open>A conversation of two clients: the first sends a message, which the server hands back to it.\<close>

definition two_start :: chat where
  "two_start = chat_start \<lparr>marray = replicate 100 (replicate 50 NUL), count_of = 0\<rparr> [[hi], []]"

lemma two_init: "chat_init [[hi], []] two_start"
  unfolding chat_init_def
proof (intro conjI exI)
  show "\<forall>m \<in> set (concat [[hi], []]). NUL \<in> set m" by (simp add: hi_def)
  show "server_start True True (replicate 100 (replicate 50 NUL)) = Some \<lparr>marray = replicate 100 (replicate 50 NUL), count_of = 0\<rparr>"
    by (simp add: server_start_def)
  show "group_shape \<lparr>marray = replicate 100 (replicate 50 NUL), count_of = 0\<rparr>" by (simp add: group_shape_def ROWS_def COLS_def)
qed (rule two_start_def)

lemma two_reach: "reach (chat_init [[hi], []]) chat_step two_start"
  by (rule reach_init) (rule two_init)

theorem queue_chat_screens_witness:
  "wall_reachable 2 (wall_of two_start) \<and> (\<exists>n. screens two_start ! 1 = concat (take n (printed two_start)))"
  using queue_chat_screens [OF two_reach, of 1] by (auto simp: two_start_def chat_start_def numeral_2_eq_2)

theorem queue_chat_delivers_witness:
  "\<not> endless chat_step two_start \<and> (\<exists>t. chat_step\<^sup>*\<^sup>* two_start t \<and> \<not> broken t \<and> merge_of [[''hi''], []] (printed t))"
proof -
  have h: "cstr hi = ''hi''" by (simp add: hi_def cstr_def NUL_def)
  show ?thesis using queue_chat_delivers [OF two_reach] by (auto simp: h ROWS_def COLS_def)
qed

text \<open>
  A client can miss a message for ever: the structure that the server sends after the only message is
  received by the client that wrote it, the other terminal stays empty, and no step is possible.
\<close>

theorem queue_chat_misses:
  "\<exists>s. reach (chat_init [[hi], []]) chat_step s \<and> \<not> broken s \<and> on_way s = [] \<and> printed s = [''hi''] \<and>
    screens s = [''hi'', []] \<and> (\<nexists>t. chat_step s t)"
proof -
  let ?z = "replicate 50 NUL"
  let ?row = "''hi'' @ replicate 48 NUL"
  let ?g = "\<lparr>marray = ?row # replicate 99 ?z, count_of = 1\<rparr>"
  define s1 where "s1 = two_start\<lparr>to_send := [[], []], msg_q := [hi]\<rparr>"
  define s2 where "s2 = s1\<lparr>msg_q := [], grp := ?g, grp_q := [?g], printed := [''hi'']\<rparr>"
  define s3 where "s3 = s2\<lparr>grp_q := [], screens := [''hi'', []]\<rparr>"
  have 1: "send_step 0 two_start = Some s1" by (simp add: send_step_def two_start_def chat_start_def s1_def)
  have h: "rd_str hi = Some ''hi''" "cstr hi = ''hi''" "rd_str ?row = Some ''hi''"
    by (simp_all add: hi_def rd_str_def cstr_def NUL_def)
  have "strcpy ?z hi = Some ?row" by (simp add: strcpy_def h wr_at_def numeral_eq_Suc)
  then have "server_recv hi (grp s1) = Some (''hi'', ?g)"
    by (simp add: s1_def two_start_def chat_start_def server_recv_def h aref_def aset_def numeral_eq_Suc)
  then have 2: "serve_step s1 = Some s2"
    by (simp add: serve_step_def s1_def s2_def two_start_def chat_start_def)
  have "prints_round ?g = Some ''hi''"
    by (simp add: prints_round_def show_rows.simps aref_def h [simplified])
  then have 3: "show_step 0 s2 = Some s3"
    by (simp add: show_step_def s3_def s2_def s1_def two_start_def chat_start_def numeral_2_eq_2)
  have "chat_step two_start s1" by (rule by_writer [OF _ _ 1]) (simp_all add: two_start_def chat_start_def)
  moreover have "chat_step s1 s2" by (rule by_server [OF _ 2]) (simp add: s1_def two_start_def chat_start_def)
  moreover have "chat_step s2 s3" by (rule by_reader [OF _ _ 3]) (simp_all add: s2_def s1_def two_start_def chat_start_def)
  ultimately have "reach (chat_init [[hi], []]) chat_step s3"
    using reach_init [where init = "chat_init [[hi], []]", OF two_init] by (blast intro: reach_step)
  moreover have "\<not> chat_step s3 t" for t
    by (auto elim!: chat_stepE simp: send_step_def serve_step_def show_step_def s3_def s2_def s1_def two_start_def chat_start_def less_Suc_eq
      split: list.splits)
  ultimately show ?thesis
    by (intro exI [of _ s3]) (simp add: s3_def s2_def s1_def two_start_def chat_start_def on_way_def)
qed

end
