(* ===== verification/ShmChat.thy ===== *)
theory ShmChat
  imports Chat
begin

text \<open>
  The chat in shared memory, \<open>shared_memory/chat\<close>: what a writer puts, message by message, into the one segment
  \<open>text\<close>.  \<open>ShmBytes\<close> has the processes that run together.
\<close>

section \<open>The writer of a client\<close>

text \<open>The messages of the first \<open>n\<close> rounds; \<open>tp i\<close> is what the array \<open>tp\<close> of a round holds at first.\<close>

fun shm_loop :: "nat \<Rightarrow> (nat \<Rightarrow> char list) \<Rightarrow> char list \<Rightarrow> char list \<Rightarrow> string \<Rightarrow> char list list option" where
  "shm_loop 0 tp name buf inp = Some []"
| "shm_loop (Suc n) tp name buf inp =
     do { (buf', m, rest) \<leftarrow> say_line name buf (tp n) inp;
          ms \<leftarrow> shm_loop n tp name buf' rest;
          Some (m # ms) }"

definition shm_writs :: "nat \<Rightarrow> (nat \<Rightarrow> char list) \<Rightarrow> char list \<Rightarrow> char list \<Rightarrow> char list \<Rightarrow> string \<Rightarrow> char list list option" where
  "shm_writs n tp name0 tmp0 buf0 inp =
     do { (name, m, rest) \<leftarrow> ask_name name0 tmp0 inp;
          ms \<leftarrow> shm_loop n tp name buf0 rest;
          Some (m # ms) }"

text \<open>The mark of a text that has been read.\<close>

definition WOR :: string where "WOR = ''12plkopl21''"

lemma WOR_lit: "NUL \<in> set (lit WOR)" "cstr (lit WOR) = WOR"
  by (simp_all, rule carries_lit(2)) (simp add: WOR_def NUL_def)

text \<open>The texts of the messages that all writers together have to write.\<close>

definition texts :: "char list list list \<Rightarrow> string set" where
  "texts mss = cstr ` set (concat mss)"

lemma hi_text: "NUL \<in> set hi" "cstr hi = ''hi''" "length (cstr hi) = 2"
  by (simp_all add: hi_def cstr_def NUL_def)

end
