(* ===== verification/ShmBytes.thy ===== *)
theory ShmBytes
  imports ShmChat
begin

text \<open>
  The processes of \<open>shared_memory/chat\<close>, any number of clients and the server.  A writer puts its message into the segment
  \<open>text\<close>, the server polls it, copies it to the next row of the segment \<open>arr\<close>, raises the counter and marks \<open>text\<close> as read; the readers
  poll the counter and show the rows.  Nothing keeps the writers and the server apart, so
  that a \<open>strcpy\<close>, a \<open>strcmp\<close> or a \<open>printf\<close> of one of them can stop after any byte: a step is an access to one byte.
  The messages get mixed, but never longer than a row, and the rows and the terminals refine the wall of \<open>Chat\<close>.
\<close>

section \<open>The processes\<close>

text \<open>
  The server polls (the argument: the byte that \<open>strcmp\<close> compares), prints (what it has read), copies to a row,
  raises the counter, and marks the text as read (the next byte).
\<close>

datatype byte_pc = BPoll nat | BPrint string | BStore nat | BCount | BReset nat

text \<open>
  A reader before it reads the counter, while it polls it with its variable \<open>k\<close>, and while it shows the rows before \<open>k\<close>, the next
  one being \<open>i\<close>.
\<close>

datatype reader = RStart | RWait int | RShow int int

text \<open>
  \<open>seg\<close>, \<open>rows\<close>, \<open>cell\<close> are the three segments, \<open>cnt\<close> is the variable \<open>co\<close> of the server; \<open>copied j\<close>: how many bytes of its message the writer \<open>j\<close> has
  copied; \<open>said\<close>: what the server has printed; \<open>kept\<close>: the texts that it has put into the rows; \<open>screens\<close>: the terminals of the clients; \<open>undef\<close>: the
  behaviour is not defined any more.
\<close>

record bshm =
  seg :: "char list"
  rows :: "char list list"
  cell :: int
  byte_pc :: byte_pc
  cnt :: int
  left :: "char list list list"
  copied :: "nat list"
  readers :: "reader list"
  said :: "string list"
  kept :: "string list"
  screens :: "string list"
  undef :: bool

definition byte_server :: "bshm \<Rightarrow> bshm option" where
  "byte_server s =
     (case byte_pc s of
        BPoll i \<Rightarrow>
          do { c \<leftarrow> aref (seg s) (int i); w \<leftarrow> aref (lit WOR) (int i);
               Some (s\<lparr>byte_pc := (if c \<noteq> w then BPrint [] else if c = NUL then BPoll 0 else BPoll (i + 1))\<rparr>) }
      | BPrint t \<Rightarrow>
          do { c \<leftarrow> aref (seg s) (int (length t));
               Some (if c = NUL then s\<lparr>said := said s @ [t], byte_pc := BStore 0\<rparr> else s\<lparr>byte_pc := BPrint (t @ [c])\<rparr>) }
      | BStore i \<Rightarrow>
          do { c \<leftarrow> aref (seg s) (int i); row \<leftarrow> aref (rows s) (cnt s);
               row' \<leftarrow> aset row (int i) c; a \<leftarrow> aset (rows s) (cnt s) row';
               Some (if c = NUL then s\<lparr>rows := a, kept := kept s @ [cstr row'], byte_pc := BCount\<rparr>
                 else s\<lparr>rows := a, byte_pc := BStore (i + 1)\<rparr>) }
      | BCount \<Rightarrow> Some (s\<lparr>cnt := cnt s + 1, cell := cnt s + 1, byte_pc := BReset 0\<rparr>)
      | BReset i \<Rightarrow>
          do { c \<leftarrow> aref (lit WOR) (int i); t \<leftarrow> aset (seg s) (int i) c;
               Some (s\<lparr>seg := t, byte_pc := (if c = NUL then BPoll 0 else BReset (i + 1))\<rparr>) })"

definition byte_writer :: "nat \<Rightarrow> bshm \<Rightarrow> bshm option" where
  "byte_writer j s =
     (case left s ! j of
        [] \<Rightarrow> Some s
      | m # ms \<Rightarrow>
          do { c \<leftarrow> aref m (int (copied s ! j)); t \<leftarrow> aset (seg s) (int (copied s ! j)) c;
               Some (if c = NUL then s\<lparr>seg := t, left := (left s)[j := ms], copied := (copied s)[j := 0]\<rparr>
                 else s\<lparr>seg := t, copied := (copied s)[j := copied s ! j + 1]\<rparr>) })"

text \<open>
  A reader clears its terminal and prints the rows one by one.  A row is read in one step, since nobody writes a row again once it
  is counted.
\<close>

definition byte_reader :: "nat \<Rightarrow> bshm \<Rightarrow> bshm option" where
  "byte_reader j s =
     (case readers s ! j of
        RStart \<Rightarrow> Some (s\<lparr>readers := (readers s)[j := RWait (cell s)]\<rparr>)
      | RWait k \<Rightarrow>
          Some (if cell s = k then s else s\<lparr>readers := (readers s)[j := RShow (k + 1) 0], screens := (screens s)[j := []]\<rparr>)
      | RShow k i \<Rightarrow>
          (if i < k
           then do { row \<leftarrow> aref (rows s) i; t \<leftarrow> rd_str row;
                     Some (s\<lparr>readers := (readers s)[j := RShow k (i + 1)], screens := (screens s)[j := screens s ! j @ t]\<rparr>) }
           else Some (s\<lparr>readers := (readers s)[j := RWait k]\<rparr>)))"

definition or_undef :: "bshm \<Rightarrow> bshm option \<Rightarrow> bshm" where
  "or_undef s r = (case r of None \<Rightarrow> s\<lparr>undef := True\<rparr> | Some t \<Rightarrow> t)"

inductive byte_step :: "bshm \<Rightarrow> bshm \<Rightarrow> bool" where
  server_byte: "\<not> undef s \<Longrightarrow> byte_step s (or_undef s (byte_server s))"
| writer_byte: "\<not> undef s \<Longrightarrow> j < length (left s) \<Longrightarrow> byte_step s (or_undef s (byte_writer j s))"
| reader_row: "\<not> undef s \<Longrightarrow> j < length (readers s) \<Longrightarrow> byte_step s (or_undef s (byte_reader j s))"

inductive_cases byte_stepE: "byte_step s t"

text \<open>
  The server has marked the text as read and set the counter to 0; behind the mark the segment holds what an earlier conversation has left, \<open>z\<close>.  The
  clients start afterwards.
\<close>

definition byte_start :: "char list list \<Rightarrow> char list \<Rightarrow> char list list list \<Rightarrow> bshm" where
  "byte_start rows0 z mss = \<lparr>seg = lit WOR @ z, rows = rows0, cell = 0, byte_pc = BPoll 0, cnt = 0, left = mss,
     copied = replicate (length mss) 0, readers = replicate (length mss) RStart, said = [], kept = [],
     screens = replicate (length mss) [], undef = False\<rparr>"

section \<open>What the messages may become\<close>

text \<open>Every byte stands where it stands in some message or in the mark.\<close>

definition byte_of :: "string set \<Rightarrow> nat \<Rightarrow> char \<Rightarrow> bool" where
  "byte_of M i c \<longleftrightarrow> (\<exists>m \<in> insert WOR M. i < length m \<and> c = m ! i)"

definition mixed :: "string set \<Rightarrow> string \<Rightarrow> bool" where
  "mixed M t \<longleftrightarrow> (\<forall>i < length t. byte_of M i (t ! i))"

definition short :: "string set \<Rightarrow> bool" where
  "short M \<longleftrightarrow> (\<forall>m \<in> M. length m < 100)"

definition seg_ok :: "string set \<Rightarrow> char list \<Rightarrow> bool" where
  "seg_ok M t \<longleftrightarrow> length t = 9000 \<and> (\<forall>i < 9000. t ! i = NUL \<or> byte_of M i (t ! i))"

definition rows_sized :: "char list list \<Rightarrow> bool" where
  "rows_sized a \<longleftrightarrow> length a = 90 \<and> (\<forall>r \<in> set a. length r = 100)"

definition pc_ok :: "string set \<Rightarrow> byte_pc \<Rightarrow> char list list \<Rightarrow> int \<Rightarrow> bool" where
  "pc_ok M pc a n \<longleftrightarrow> (case pc of
     BPoll i \<Rightarrow> i \<le> 10
   | BPrint t \<Rightarrow> mixed M t
   | BStore i \<Rightarrow> (0 < i \<longrightarrow> n < 90 \<and> (\<forall>k < i. a ! nat n ! k \<noteq> NUL \<and> byte_of M k (a ! nat n ! k)))
   | BCount \<Rightarrow> True
   | BReset i \<Rightarrow> i \<le> 10)"

definition writers_ok :: "string set \<Rightarrow> char list list list \<Rightarrow> nat list \<Rightarrow> bool" where
  "writers_ok M mss ns \<longleftrightarrow> length ns = length mss \<and> (\<forall>m \<in> set (concat mss). NUL \<in> set m \<and> cstr m \<in> M) \<and>
     (\<forall>j < length mss. case mss ! j of [] \<Rightarrow> ns ! j = 0 | m # _ \<Rightarrow> ns ! j \<le> length (cstr m))"

definition bytes_ok :: "string set \<Rightarrow> bshm \<Rightarrow> bool" where
  "bytes_ok M s \<longleftrightarrow> seg_ok M (seg s) \<and> rows_sized (rows s) \<and> pc_ok M (byte_pc s) (rows s) (cnt s) \<and>
     writers_ok M (left s) (copied s) \<and> (\<forall>t \<in> set (said s) \<union> set (kept s). mixed M t) \<and>
     int (length (kept s)) = cnt s + (if byte_pc s = BCount then 1 else 0) \<and> 0 \<le> cnt s \<and>
     length (kept s) \<le> 90 \<and> (undef s \<longrightarrow> length (kept s) = 90)"

lemma WOR_length: "length WOR = 10" "length (lit WOR) = 11"
  by (simp_all add: WOR_def lit_def)

lemma byte_of_less: "short M \<Longrightarrow> byte_of M i c \<Longrightarrow> i < 99"
  by (fastforce simp: byte_of_def short_def WOR_length)

lemma mixed_short: "short M \<Longrightarrow> mixed M t \<Longrightarrow> length t < 100"
  using byte_of_less [of M "length t - 1"] by (cases t rule: rev_cases) (force simp: mixed_def)+

lemma mixed_snoc: "mixed M t \<Longrightarrow> byte_of M (length t) c \<Longrightarrow> mixed M (t @ [c])"
  by (auto simp: mixed_def nth_append less_Suc_eq)

lemma mark_byte:
  assumes "i \<le> 10"
  shows "aref (lit WOR) (int i) = Some (lit WOR ! i)" "lit WOR ! i = NUL \<or> byte_of M i (lit WOR ! i)" "lit WOR ! i \<noteq> NUL \<Longrightarrow> i < 10"
proof -
  show "aref (lit WOR) (int i) = Some (lit WOR ! i)" using assms by (simp add: cmem WOR_length)
  show "lit WOR ! i = NUL \<or> byte_of M i (lit WOR ! i)"
    using assms by (cases "i = 10") (auto simp: byte_of_def lit_def nth_append WOR_length)
  show "lit WOR ! i \<noteq> NUL \<Longrightarrow> i < 10" using assms by (cases "i = 10") (simp_all add: lit_def nth_append WOR_length)
qed

lemma message_byte:
  assumes "NUL \<in> set m" "cstr m \<in> M" "i \<le> length (cstr m)"
  shows "aref m (int i) = Some (m ! i)" "m ! i = NUL \<or> byte_of M i (m ! i)" "m ! i \<noteq> NUL \<Longrightarrow> i < length (cstr m)"
proof -
  have l: "length (cstr m) < length m" by (rule length_cstr [OF assms(1)])
  have e: "m ! length (cstr m) = NUL" using nth_length_takeWhile [of "\<lambda>c. c \<noteq> NUL" m] l by (simp add: cstr_def)
  have lt: "m ! i = cstr m ! i" if "i < length (cstr m)" using that by (simp add: cstr_def takeWhile_nth)
  show "aref m (int i) = Some (m ! i)" using assms(3) l by (simp add: cmem)
  show less: "m ! i \<noteq> NUL \<Longrightarrow> i < length (cstr m)" using assms(3) e by (cases "i = length (cstr m)") auto
  show "m ! i = NUL \<or> byte_of M i (m ! i)" using less lt assms(2) by (auto simp: byte_of_def)
qed

lemma seg_byte: "seg_ok M t \<Longrightarrow> i < 9000 \<Longrightarrow> aref t (int i) = Some (t ! i) \<and> (t ! i = NUL \<or> byte_of M i (t ! i))"
  by (auto simp: seg_ok_def cmem)

lemma seg_update: "seg_ok M t \<Longrightarrow> i < 9000 \<Longrightarrow> c = NUL \<or> byte_of M i c \<Longrightarrow> aset t (int i) c = Some (t[i := c]) \<and> seg_ok M (t[i := c])"
  by (auto simp: seg_ok_def cmem nth_list_update)

section \<open>The invariant\<close>

lemma stored_text:
  assumes "\<forall>k < i. row ! k \<noteq> NUL \<and> byte_of M k (row ! k)" "row ! i = NUL" "i < length row"
  shows "mixed M (cstr row)"
proof -
  have "length (cstr row) \<le> i"
  proof (rule ccontr)
    assume "\<not> length (cstr row) \<le> i"
    then have i: "i < length (cstr row)" by simp
    have "cstr row ! i = NUL" using assms(2) i by (simp add: cstr_def takeWhile_nth)
    then have "NUL \<in> set (cstr row)" using nth_mem [OF i] by simp
    then show False by (auto simp: cstr_def dest: set_takeWhileD)
  qed
  then show ?thesis using assms(1) by (simp add: mixed_def cstr_def takeWhile_nth)
qed

lemma byte_server_ok:
  assumes "bytes_ok M s" "short M" "\<not> undef s"
  shows "bytes_ok M (or_undef s (byte_server s))"
proof -
  have g: "seg_ok M (seg s)" and r: "rows_sized (rows s)" and p: "pc_ok M (byte_pc s) (rows s) (cnt s)"
    and k: "int (length (kept s)) = cnt s + (if byte_pc s = BCount then 1 else 0)" "0 \<le> cnt s"
    using assms(1) by (simp_all add: bytes_ok_def)
  show ?thesis
  proof (cases "byte_pc s")
    case (BPoll i)
    then have i: "i \<le> 10" using p by (simp add: pc_ok_def)
    have "i < 9000" using i by simp
    then show ?thesis using assms(1) BPoll seg_byte [OF g, of i] mark_byte [OF i] i
      by (auto simp: byte_server_def or_undef_def bytes_ok_def pc_ok_def mixed_def)
  next
    case (BPrint t)
    then have m: "mixed M t" using p by (simp add: pc_ok_def)
    have "length t < 9000" using mixed_short [OF assms(2) m] by simp
    then show ?thesis using assms(1,3) BPrint seg_byte [OF g, of "length t"] m mixed_snoc [OF m]
      by (auto simp: byte_server_def or_undef_def bytes_ok_def pc_ok_def)
  next
    case (BStore i)
    have st: "\<forall>k < i. rows s ! nat (cnt s) ! k \<noteq> NUL \<and> byte_of M k (rows s ! nat (cnt s) ! k)" and n: "0 < i \<longrightarrow> cnt s < 90"
      using p BStore by (auto simp: pc_ok_def)
    have i: "i < 100" using st byte_of_less [OF assms(2), of "i - 1"] by (cases i) auto
    have "i < 9000" using i by simp
    note b = seg_byte [OF g this]
    show ?thesis
    proof (cases "cnt s < 90")
      case False
      then have "byte_server s = None" using BStore b r k(2) by (simp add: byte_server_def rows_sized_def aref_def)
      then show ?thesis using assms(1) BStore False k(1) by (simp add: or_undef_def bytes_ok_def)
    next
      case True
      let ?row = "rows s ! nat (cnt s)" and ?c = "seg s ! i"
      let ?row' = "?row[i := ?c]" and ?a = "(rows s)[nat (cnt s) := ?row[i := ?c]]"
      have l: "length ?row = 100" "nat (cnt s) < length (rows s)" using r True k(2) by (auto simp: rows_sized_def)
      have a: "byte_server s = Some (if ?c = NUL then s\<lparr>rows := ?a, kept := kept s @ [cstr ?row'], byte_pc := BCount\<rparr>
          else s\<lparr>rows := ?a, byte_pc := BStore (i + 1)\<rparr>)"
        using BStore b l i k(2) by (simp add: byte_server_def cmem)
      have r': "rows_sized ?a" using r l set_update_subset_insert [of "rows s" "nat (cnt s)" ?row'] by (auto simp: rows_sized_def)
      show ?thesis
      proof (cases "?c = NUL")
        case True
        have "mixed M (cstr ?row')" by (rule stored_text [of i]) (use st l i True in auto)
        then show ?thesis using assms(1) a r' True \<open>cnt s < 90\<close> BStore by (auto simp: or_undef_def bytes_ok_def pc_ok_def)
      next
        case False
        have "\<forall>k < i + 1. ?row' ! k \<noteq> NUL \<and> byte_of M k (?row' ! k)" using st b False l i by (auto simp: nth_list_update less_Suc_eq)
        then have "pc_ok M (BStore (i + 1)) ?a (cnt s)" using True l by (simp add: pc_ok_def)
        then show ?thesis using assms(1,3) a r' False BStore by (simp add: or_undef_def bytes_ok_def)
      qed
    qed
  next
    case BCount
    then show ?thesis using assms(1,3) by (simp add: byte_server_def or_undef_def bytes_ok_def pc_ok_def)
  next
    case (BReset i)
    then have i: "i \<le> 10" using p by (simp add: pc_ok_def)
    have "i < 9000" using i by simp
    then show ?thesis using assms(1,3) BReset seg_update [OF g _ mark_byte(2) [OF i]] mark_byte [OF i] i
      by (auto simp: byte_server_def or_undef_def bytes_ok_def pc_ok_def)
  qed
qed

lemma byte_writer_ok:
  assumes "bytes_ok M s" "short M" "\<not> undef s" "j < length (left s)"
  shows "bytes_ok M (or_undef s (byte_writer j s))"
proof (cases "left s ! j")
  case Nil
  then show ?thesis using assms(1) by (simp add: byte_writer_def or_undef_def)
next
  case (Cons m ms)
  have g: "seg_ok M (seg s)" and w: "writers_ok M (left s) (copied s)" using assms(1) by (simp_all add: bytes_ok_def)
  let ?i = "copied s ! j"
  have "left s ! j \<in> set (left s)" using assms(4) by simp
  then have m: "NUL \<in> set m" "cstr m \<in> M" and ms: "\<forall>m \<in> set ms. NUL \<in> set m \<and> cstr m \<in> M"
    using w Cons unfolding writers_ok_def by fastforce+
  have i: "?i \<le> length (cstr m)" using w Cons assms(4) unfolding writers_ok_def by fastforce
  have "?i < 9000" using i m(2) assms(2) by (auto simp: short_def)
  note b = message_byte [OF m i] and u = seg_update [OF g this message_byte(2) [OF m i]]
  have l: "length (copied s) = length (left s)" using w by (simp add: writers_ok_def)
  have sub: "set (concat ((left s)[j := ms])) \<subseteq> set (concat (left s)) \<union> set ms"
    using set_update_subset_insert [of "left s" j ms] by auto
  show ?thesis
  proof (cases "m ! ?i = NUL")
    case True
    have "writers_ok M ((left s)[j := ms]) ((copied s)[j := 0])"
      unfolding writers_ok_def
    proof (intro conjI)
      show "\<forall>m \<in> set (concat ((left s)[j := ms])). NUL \<in> set m \<and> cstr m \<in> M" using sub ms w unfolding writers_ok_def by blast
    qed (use w l assms(4) in \<open>auto simp: writers_ok_def nth_list_update split: list.splits\<close>)
    then show ?thesis using assms(1,3) Cons b(1) u True by (simp add: byte_writer_def or_undef_def bytes_ok_def)
  next
    case False
    then have "writers_ok M (left s) ((copied s)[j := ?i + 1])" using w b(3) Cons l assms(4)
      by (auto simp: writers_ok_def nth_list_update split: list.splits)
    then show ?thesis using assms(1,3) Cons b(1) u False by (simp add: byte_writer_def or_undef_def bytes_ok_def)
  qed
qed

text \<open>
  What the rows hold, and how far the readers are: a row that is counted holds the text that was put into it.
\<close>

definition reader_ok :: "int \<Rightarrow> string list \<Rightarrow> string \<Rightarrow> reader \<Rightarrow> bool" where
  "reader_ok c ts u r \<longleftrightarrow> (case r of RStart \<Rightarrow> True | RWait k \<Rightarrow> 0 \<le> k \<and> k \<le> c
     | RShow k i \<Rightarrow> 0 \<le> i \<and> i \<le> k \<and> k \<le> c \<and> u = concat (take (nat i) ts))"

definition shows_ok :: "bshm \<Rightarrow> bool" where
  "shows_ok s \<longleftrightarrow> rows_hold (rows s) (kept s) \<and> cell s = cnt s \<and> length (screens s) = length (readers s) \<and>
     (\<forall>j < length (readers s). reader_ok (cnt s) (kept s) (screens s ! j) (readers s ! j))"

lemma reader_ok_mono: "reader_ok c ts u r \<Longrightarrow> c \<le> int (length ts) \<Longrightarrow> c \<le> d \<Longrightarrow> reader_ok d (ts @ us) u r"
  by (cases r) (auto simp: reader_ok_def nat_le_iff)

lemma server_shows:
  assumes "bytes_ok M s" "shows_ok s"
  shows "shows_ok (or_undef s (byte_server s))"
proof (cases "byte_server s")
  case None
  then show ?thesis using assms(2) by (auto simp: or_undef_def shows_ok_def)
next
  case (Some t)
  have k: "int (length (kept s)) = cnt s + (if byte_pc s = BCount then 1 else 0)" "0 \<le> cnt s" using assms(1) by (simp_all add: bytes_ok_def)
  have h: "rows_hold (rows s) (kept s)" "cell s = cnt s" and l: "length (screens s) = length (readers s)"
    and r: "\<forall>j < length (readers s). reader_ok (cnt s) (kept s) (screens s ! j) (readers s ! j)" using assms(2) by (simp_all add: shows_ok_def)
  have "shows_ok t"
  proof (cases "byte_pc s")
    case (BStore i)
    then have n: "cnt s = int (length (kept s))" using k by simp
    obtain c row row' a where x: "aref (rows s) (cnt s) = Some row" "aset row (int i) c = Some row'" "aset (rows s) (cnt s) row' = Some a"
      and t: "t = (if c = NUL then s\<lparr>rows := a, kept := kept s @ [cstr row'], byte_pc := BCount\<rparr> else s\<lparr>rows := a, byte_pc := BStore (i + 1)\<rparr>)"
      using Some BStore by (auto simp: byte_server_def bind_eq_Some_conv')
    have a: "a = (rows s)[length (kept s) := row']" "length (kept s) < length (rows s)" using x(3) n by (auto simp: aset_def split: if_splits)
    show ?thesis
    proof (cases "c = NUL")
      case True
      have "NUL \<in> set row'" using x(2) True by (auto simp: aset_def set_update_memI split: if_splits)
      then have "rows_hold a (kept s @ [cstr row'])" unfolding a(1) by (intro holds_store [OF h(1) a(2)]) simp_all
      then show ?thesis using h(2) l r n True reader_ok_mono [of "cnt s" "kept s"] by (auto simp: t shows_ok_def)
    next
      case False
      have "rows_hold a (kept s)" using h(1) by (simp add: a(1) rows_hold_def)
      then show ?thesis using h(2) l r False by (simp add: t shows_ok_def)
    qed
  next
    case BCount
    then have "t = s\<lparr>cnt := cnt s + 1, cell := cnt s + 1, byte_pc := BReset 0\<rparr>" using Some by (simp add: byte_server_def)
    then show ?thesis using h l r k BCount reader_ok_mono [of "cnt s" "kept s" _ _ "cnt s + 1" "[]"] by (simp add: shows_ok_def)
  qed (use Some h l r in \<open>auto simp: byte_server_def shows_ok_def bind_eq_Some_conv' split: if_splits\<close>)
  then show ?thesis using Some by (simp add: or_undef_def)
qed

lemma writer_shows: "shows_ok s \<Longrightarrow> shows_ok (or_undef s (byte_writer j s))"
  by (auto simp: or_undef_def byte_writer_def shows_ok_def bind_eq_Some_conv' split: list.splits option.splits)

text \<open>A reader never leaves the rows, and its terminal moves from one beginning of the texts to another.\<close>

lemma reader_moves:
  assumes "bytes_ok M s" "shows_ok s" "j < length (readers s)"
  obtains r u where "byte_reader j s = Some (s\<lparr>readers := (readers s)[j := r], screens := (screens s)[j := u]\<rparr>)"
    "reader_ok (cnt s) (kept s) u r" "u = screens s ! j \<or> (\<exists>n \<le> length (kept s). u = concat (take n (kept s)))"
proof -
  have h: "rows_hold (rows s) (kept s)" "cell s = cnt s" "length (screens s) = length (readers s)" "reader_ok (cnt s) (kept s) (screens s ! j) (readers s ! j)"
    using assms(2,3) by (simp_all add: shows_ok_def)
  have c: "0 \<le> cnt s" "cnt s \<le> int (length (kept s))" using assms(1) h(2) by (simp_all add: bytes_ok_def split: if_splits)
  have same: "s\<lparr>readers := (readers s)[j := r], screens := (screens s)[j := screens s ! j]\<rparr> = s\<lparr>readers := (readers s)[j := r]\<rparr>" for r by simp
  show ?thesis
  proof (cases "readers s ! j")
    case RStart
    then show ?thesis using that [of "screens s ! j" "RWait (cell s)"] c(1) h(2) by (simp add: byte_reader_def reader_ok_def)
  next
    case (RWait k)
    show ?thesis
    proof (cases "cell s = k")
      case True
      then show ?thesis using that [of "screens s ! j" "RWait k"] RWait h(4) list_update_id [of "readers s" j] by (simp add: byte_reader_def)
    next
      case False
      have "\<exists>n \<le> length (kept s). [] = concat (take n (kept s))" by (intro exI [of _ 0]) simp
      with False show ?thesis using that [of "[]" "RShow (k + 1) 0"] RWait h(2,4) by (simp add: byte_reader_def reader_ok_def)
    qed
  next
    case (RShow k i)
    then have i: "0 \<le> i" "i \<le> k" "k \<le> cnt s" "screens s ! j = concat (take (nat i) (kept s))" using h(4) by (simp_all add: reader_ok_def)
    show ?thesis
    proof (cases "i < k")
      case False
      then show ?thesis using that [of "screens s ! j" "RWait k"] RShow i(1-3) by (simp add: byte_reader_def reader_ok_def)
    next
      case True
      then have n: "nat i < length (kept s)" "nat (i + 1) = Suc (nat i)" using i c by simp_all
      have row: "aref (rows s) i = Some (rows s ! nat i)" "rd_str (rows s ! nat i) = Some (kept s ! nat i)"
        using h(1) n(1) i(1) by (auto simp: rows_hold_def aref_def rd_str_def)
      have u: "screens s ! j @ kept s ! nat i = concat (take (Suc (nat i)) (kept s))" using n(1) by (simp add: i(4) take_Suc_conv_app_nth)
      show ?thesis
      proof (rule that)
        show "byte_reader j s = Some (s\<lparr>readers := (readers s)[j := RShow k (i + 1)], screens := (screens s)[j := screens s ! j @ kept s ! nat i]\<rparr>)"
          using RShow True row by (simp add: byte_reader_def)
        show "reader_ok (cnt s) (kept s) (screens s ! j @ kept s ! nat i) (RShow k (i + 1))"
          using i(1-3) True by (simp add: reader_ok_def n(2) u)
        show "screens s ! j @ kept s ! nat i = screens s ! j \<or> (\<exists>m \<le> length (kept s). screens s ! j @ kept s ! nat i = concat (take m (kept s)))"
          unfolding u using n(1) by (intro disjI2 exI [of _ "Suc (nat i)"]) simp
      qed
    qed
  qed
qed

lemma reader_keeps:
  assumes "bytes_ok M s" "shows_ok s" "j < length (readers s)"
  shows "bytes_ok M (or_undef s (byte_reader j s))" "shows_ok (or_undef s (byte_reader j s))"
proof -
  obtain r u where x: "byte_reader j s = Some (s\<lparr>readers := (readers s)[j := r], screens := (screens s)[j := u]\<rparr>)"
    "reader_ok (cnt s) (kept s) u r" using reader_moves [OF assms] by metis
  show "bytes_ok M (or_undef s (byte_reader j s))" using assms(1) by (simp add: x(1) or_undef_def bytes_ok_def)
  show "shows_ok (or_undef s (byte_reader j s))" using assms(2,3) x(2) by (auto simp: x(1) or_undef_def shows_ok_def nth_list_update)
qed

text \<open>
  The start: whatever rows, and a segment in which every byte behind the mark is zero or stands there in one of the old messages
  \<open>Q\<close>, as an earlier conversation leaves it (\<open>Q\<close> is empty for a segment that the kernel has just made).
\<close>

definition byte_init :: "string set \<Rightarrow> char list list list \<Rightarrow> bshm \<Rightarrow> bool" where
  "byte_init Q mss s \<longleftrightarrow> short Q \<and> (\<forall>m \<in> set (concat mss). NUL \<in> set m \<and> length (cstr m) < 100) \<and>
     (\<exists>a z. rows_sized a \<and> seg_ok Q (lit WOR @ z) \<and> s = byte_start a z mss)"

lemma byte_of_mono: "byte_of M i c \<Longrightarrow> M \<subseteq> N \<Longrightarrow> byte_of N i c"
  by (auto simp: byte_of_def)

definition chat_ok :: "string set \<Rightarrow> bshm \<Rightarrow> bool" where
  "chat_ok M s \<longleftrightarrow> short M \<and> bytes_ok M s \<and> shows_ok s"

lemma byte_init_ok: "byte_init Q mss s \<Longrightarrow> chat_ok (Q \<union> texts mss) s"
proof -
  assume s: "byte_init Q mss s"
  then obtain a z where a: "rows_sized a" "seg_ok Q (lit WOR @ z)" "s = byte_start a z mss" by (auto simp: byte_init_def)
  have "seg_ok (Q \<union> texts mss) (lit WOR @ z)" using a(2) byte_of_mono [of Q] by (auto simp: seg_ok_def)
  moreover have "writers_ok (Q \<union> texts mss) mss (replicate (length mss) 0)"
    using s by (auto simp: writers_ok_def byte_init_def texts_def split: list.splits)
  moreover have "short (Q \<union> texts mss)" using s by (auto simp: short_def texts_def byte_init_def)
  ultimately show ?thesis using a by (simp add: chat_ok_def shows_ok_def reader_ok_def bytes_ok_def byte_start_def pc_ok_def)
qed

lemma byte_step_ok:
  assumes "chat_ok M s" "byte_step s t"
  shows "chat_ok M t"
  using assms(2)
proof (rule byte_stepE)
  assume "t = or_undef s (byte_server s)" "\<not> undef s"
  then show ?thesis using assms(1) byte_server_ok [of M s] server_shows [of M s] by (simp add: chat_ok_def)
next
  fix j assume "t = or_undef s (byte_writer j s)" "\<not> undef s" "j < length (left s)"
  then show ?thesis using assms(1) byte_writer_ok [of M s j] writer_shows [of s j] by (simp add: chat_ok_def)
next
  fix j assume "t = or_undef s (byte_reader j s)" "\<not> undef s" "j < length (readers s)"
  then show ?thesis using assms(1) reader_keeps [of M s j] by (simp add: chat_ok_def)
qed

section \<open>The accesses as steps of the wall\<close>

definition rows_wall :: "bshm \<Rightarrow> wall" where
  "rows_wall s = \<lparr>posted = kept s, views = screens s\<rparr>"

lemma server_wall: "rows_wall (or_undef s (byte_server s)) = rows_wall s \<or> wall_step (rows_wall s) (rows_wall (or_undef s (byte_server s)))"
proof (cases "byte_server s")
  case (Some t)
  have "rows_wall t = rows_wall s \<or> (\<exists>x. rows_wall t = (rows_wall s)\<lparr>posted := posted (rows_wall s) @ [x]\<rparr>)"
    using Some by (cases "byte_pc s") (auto simp: byte_server_def rows_wall_def bind_eq_Some_conv' split: if_splits)
  then show ?thesis using Some wall_step.post by (auto simp: or_undef_def)
qed (simp add: or_undef_def rows_wall_def)

lemma writer_wall: "rows_wall (or_undef s (byte_writer j s)) = rows_wall s"
  by (auto simp: or_undef_def byte_writer_def rows_wall_def bind_eq_Some_conv' split: list.splits option.splits)

lemma reader_wall:
  assumes "bytes_ok M s" "shows_ok s" "j < length (readers s)"
  shows "rows_wall (or_undef s (byte_reader j s)) = rows_wall s \<or> wall_step (rows_wall s) (rows_wall (or_undef s (byte_reader j s)))"
proof -
  obtain r u where x: "byte_reader j s = Some (s\<lparr>readers := (readers s)[j := r], screens := (screens s)[j := u]\<rparr>)"
    "u = screens s ! j \<or> (\<exists>n \<le> length (kept s). u = concat (take n (kept s)))" using reader_moves [OF assms] by metis
  from x(2) show ?thesis
  proof
    assume "u = screens s ! j"
    then show ?thesis by (simp add: x(1) or_undef_def rows_wall_def)
  next
    assume "\<exists>n \<le> length (kept s). u = concat (take n (kept s))"
    then obtain n where n: "n \<le> length (kept s)" "u = concat (take n (kept s))" by blast
    have "j < length (screens s)" using assms(2,3) by (simp add: shows_ok_def)
    then show ?thesis using wall_step.look [of j "rows_wall s" n] n by (simp add: x(1) or_undef_def rows_wall_def)
  qed
qed

interpretation byte_sys: refinement "byte_init Q mss" byte_step "chat_ok (Q \<union> texts mss)" rows_wall "wall_init (length mss)" wall_step for Q mss
proof
  fix s t assume s: "chat_ok (Q \<union> texts mss) s" "byte_step s t"
  then show "chat_ok (Q \<union> texts mss) t" by (rule byte_step_ok)
  from s(2) show "rows_wall t = rows_wall s \<or> wall_step (rows_wall s) (rows_wall t)"
    by (rule byte_stepE) (use s(1) server_wall writer_wall reader_wall [of "Q \<union> texts mss"] in \<open>simp_all add: chat_ok_def\<close>)
next
  fix s assume s: "byte_init Q mss s"
  then show "chat_ok (Q \<union> texts mss) s" by (rule byte_init_ok)
  show "wall_init (length mss) (rows_wall s)" using s by (auto simp: byte_init_def byte_start_def rows_wall_def wall_init_def)
qed

section \<open>Properties\<close>

text \<open>A run: who moves, the server, a writer or a reader.\<close>

datatype mover = Srv | Wr nat | Rd nat

fun move :: "mover \<Rightarrow> bshm \<Rightarrow> bshm option" where
  "move Srv s = byte_server s"
| "move (Wr j) s = (if j < length (left s) then byte_writer j s else None)"
| "move (Rd j) s = (if j < length (readers s) then byte_reader j s else None)"

fun byte_run :: "mover list \<Rightarrow> bshm \<Rightarrow> bshm option" where
  "byte_run [] s = Some s"
| "byte_run (x # xs) s = do { t \<leftarrow> move x s; byte_run xs t }"

lemma move_undef: "move x s = Some t \<Longrightarrow> undef t = undef s"
  by (cases x) (auto simp: byte_server_def byte_writer_def byte_reader_def bind_eq_Some_conv'
    split: byte_pc.splits list.splits reader.splits if_splits)

lemma byte_run_reach:
  "byte_run xs s = Some t \<Longrightarrow> \<not> undef s \<Longrightarrow> reach (byte_init Q mss) byte_step s \<Longrightarrow> reach (byte_init Q mss) byte_step t"
proof (induction xs arbitrary: s)
  case (Cons x xs)
  obtain u where u: "move x s = Some u" "byte_run xs u = Some t" using Cons.prems(1) by (auto simp: bind_eq_Some_conv')
  have "byte_step s u"
    using u(1) server_byte [OF Cons.prems(2)] writer_byte [OF Cons.prems(2), of "case x of Wr j \<Rightarrow> j | _ \<Rightarrow> 0"]
      reader_row [OF Cons.prems(2), of "case x of Rd j \<Rightarrow> j | _ \<Rightarrow> 0"]
    by (cases x) (auto simp: or_undef_def split: if_splits)
  then show ?case using Cons.IH [OF u(2)] move_undef [OF u(1)] Cons.prems(2,3) by (auto intro: reach_step)
qed simp

text \<open>A writer that nobody interrupts does what \<open>strcpy\<close> does in one step.\<close>

lemma writer_copies:
  assumes "left s ! j = m # ms" "j < length (left s)" "j < length (copied s)" "NUL \<in> set m" "copied s ! j \<le> length (cstr m)" "length (cstr m) < length (seg s)"
  shows "byte_run (replicate (Suc (length (cstr m)) - copied s ! j) (Wr j)) s =
    Some (s\<lparr>seg := take (copied s ! j) (seg s) @ drop (copied s ! j) (lit (cstr m)) @ drop (Suc (length (cstr m))) (seg s),
      left := (left s)[j := ms], copied := (copied s)[j := 0]\<rparr>)"
  using assms
proof (induction "length (cstr m) - copied s ! j" arbitrary: s)
  case 0
  then have c: "copied s ! j = length (cstr m)" by simp
  have m: "aref m (int (length (cstr m))) = Some NUL"
    using length_cstr [OF 0(5)] nth_length_takeWhile [of "\<lambda>c. c \<noteq> NUL" m] by (simp add: cmem cstr_def)
  have "aset (seg s) (int (length (cstr m))) NUL = Some ((seg s)[length (cstr m) := NUL])" using 0(7) by (simp add: cmem)
  then show ?case using 0 c m by (simp add: byte_writer_def upd_conv_take_nth_drop lit_def)
next
  case (Suc n)
  let ?i = "copied s ! j"
  let ?s = "s\<lparr>seg := (seg s)[?i := m ! ?i], copied := (copied s)[j := ?i + 1]\<rparr>"
  have i: "?i < length (cstr m)" using Suc(2) by simp
  have mi: "m ! ?i = cstr m ! ?i" "m ! ?i \<noteq> NUL" "aref m (int ?i) = Some (m ! ?i)"
    using i length_cstr [OF Suc.prems(4)] nth_mem [OF i] by (auto simp: cstr_def takeWhile_nth cmem dest: set_takeWhileD)
  have a: "aset (seg s) (int ?i) (m ! ?i) = Some ((seg s)[?i := m ! ?i])" using i Suc.prems(6) by (simp add: cmem)
  have w: "byte_writer j s = Some ?s" using mi a Suc.prems(1) by (simp add: byte_writer_def)
  have "byte_run (replicate (Suc (length (cstr m)) - copied ?s ! j) (Wr j)) ?s =
    Some (?s\<lparr>seg := take (copied ?s ! j) (seg ?s) @ drop (copied ?s ! j) (lit (cstr m)) @ drop (Suc (length (cstr m))) (seg ?s),
      left := (left ?s)[j := ms], copied := (copied ?s)[j := 0]\<rparr>)"
    by (rule Suc.hyps(1)) (use Suc.hyps(2) Suc.prems i in auto)
  moreover have "replicate (Suc (length (cstr m)) - ?i) (Wr j) = Wr j # replicate (Suc (length (cstr m)) - (?i + 1)) (Wr j)"
    using i by (metis Suc_diff_Suc Suc_eq_plus1 less_Suc_eq replicate_Suc)
  moreover have "take (Suc ?i) ((seg s)[?i := m ! ?i]) @ drop (Suc ?i) (lit (cstr m)) = take ?i (seg s) @ drop ?i (lit (cstr m))"
    using i mi(1) Suc.prems(6) Cons_nth_drop_Suc [of ?i "lit (cstr m)"] by (simp add: take_Suc_conv_app_nth lit_def nth_append)
  moreover have "drop (Suc (length (cstr m))) ((seg s)[?i := m ! ?i]) = drop (Suc (length (cstr m))) (seg s)" using i by simp
  ultimately show ?case using w Suc.prems(2,3) by simp
qed

theorem writer_uninterrupted:
  assumes "left s ! j = m # ms" "j < length (left s)" "length (copied s) = length (left s)" "NUL \<in> set m" "copied s ! j = 0" "length (cstr m) < length (seg s)"
  shows "\<exists>t. strcpy (seg s) m = Some t \<and>
    byte_run (replicate (Suc (length (cstr m))) (Wr j)) s = Some (s\<lparr>seg := t, left := (left s)[j := ms], copied := (copied s)[j := 0]\<rparr>)"
  using writer_copies [OF assms(1,2)] assms by (simp add: strcpy_def cmem lit_def)

text \<open>A run does not depend on the memory behind the bytes that it uses.\<close>

definition behind :: "char list \<Rightarrow> char list \<Rightarrow> char list list \<Rightarrow> bshm \<Rightarrow> bshm" where
  "behind z y a s = s\<lparr>seg := seg s @ z, rows := map (\<lambda>r. r @ y) (rows s) @ a\<rparr>"

lemma aref_behind: "aref a i = Some x \<Longrightarrow> aref (a @ z) i = Some x"
  by (auto simp: aref_def nth_append split: if_splits)

lemma aset_behind: "aset a i v = Some b \<Longrightarrow> aset (a @ z) i v = Some (b @ z)"
  by (auto simp: aset_def list_update_append split: if_splits)

lemma aref_map_behind: "aref a i = Some x \<Longrightarrow> aref (map f a @ z) i = Some (f x)"
  by (rule aref_behind) (auto simp: aref_def split: if_splits)

lemma aset_map_behind: "aset a i v = Some b \<Longrightarrow> aset (map f a @ z) i (f v) = Some (map f b @ z)"
  by (rule aset_behind) (auto simp: aset_def map_update split: if_splits)

lemma cstr_behind: "NUL \<in> set r \<Longrightarrow> cstr (r @ y) = cstr r"
  by (simp add: cstr_def takeWhile_append1)

lemma aset_member: "aset a i v = Some b \<Longrightarrow> v \<in> set b"
  by (auto simp: aset_def set_update_memI split: if_splits)

lemma byte_server_behind:
  assumes "byte_server s = Some t"
  shows "byte_server (behind z y a s) = Some (behind z y a t)"
proof (cases "byte_pc s")
  case (BPoll i)
  then obtain c w where x: "aref (seg s) (int i) = Some c" "aref (lit WOR) (int i) = Some w"
    and t: "t = s\<lparr>byte_pc := (if c \<noteq> w then BPrint [] else if c = NUL then BPoll 0 else BPoll (i + 1))\<rparr>"
    using assms by (auto simp: byte_server_def bind_eq_Some_conv')
  then show ?thesis using BPoll aref_behind [OF x(1), of z] by (simp add: byte_server_def behind_def)
next
  case (BPrint u)
  then obtain c where x: "aref (seg s) (int (length u)) = Some c"
    and t: "t = (if c = NUL then s\<lparr>said := said s @ [u], byte_pc := BStore 0\<rparr> else s\<lparr>byte_pc := BPrint (u @ [c])\<rparr>)"
    using assms by (auto simp: byte_server_def bind_eq_Some_conv')
  then show ?thesis using BPrint aref_behind [OF x, of z] by (simp add: byte_server_def behind_def)
next
  case (BReset i)
  then obtain c b where x: "aref (lit WOR) (int i) = Some c" "aset (seg s) (int i) c = Some b"
    and t: "t = s\<lparr>seg := b, byte_pc := (if c = NUL then BPoll 0 else BReset (i + 1))\<rparr>"
    using assms by (auto simp: byte_server_def bind_eq_Some_conv')
  then show ?thesis using BReset aset_behind [OF x(2), of z] by (simp add: byte_server_def behind_def)
next
  case (BStore i)
  obtain c row row' b where x: "aref (seg s) (int i) = Some c" "aref (rows s) (cnt s) = Some row" "aset row (int i) c = Some row'"
    "aset (rows s) (cnt s) row' = Some b"
    and t: "t = (if c = NUL then s\<lparr>rows := b, kept := kept s @ [cstr row'], byte_pc := BCount\<rparr> else s\<lparr>rows := b, byte_pc := BStore (i + 1)\<rparr>)"
    using assms BStore by (auto simp: byte_server_def bind_eq_Some_conv')
  have "cstr (row' @ y) = cstr row'" if "c = NUL" using aset_member [OF x(3)] that by (simp add: cstr_behind)
  then show ?thesis
    using BStore aref_behind [OF x(1), of z] aref_map_behind [OF x(2), of "\<lambda>r. r @ y" a] aset_behind [OF x(3), of y]
      aset_map_behind [OF x(4), of "\<lambda>r. r @ y" a] by (simp add: byte_server_def behind_def t)
qed (use assms in \<open>auto simp: byte_server_def behind_def\<close>)

lemma byte_writer_behind:
  assumes "byte_writer j s = Some t"
  shows "byte_writer j (behind z y a s) = Some (behind z y a t)"
proof (cases "left s ! j")
  case Nil
  then show ?thesis using assms by (simp add: byte_writer_def behind_def)
next
  case (Cons m ms)
  then obtain c b where x: "aref m (int (copied s ! j)) = Some c" "aset (seg s) (int (copied s ! j)) c = Some b"
    and t: "t = (if c = NUL then s\<lparr>seg := b, left := (left s)[j := ms], copied := (copied s)[j := 0]\<rparr>
      else s\<lparr>seg := b, copied := (copied s)[j := copied s ! j + 1]\<rparr>)"
    using assms by (auto simp: byte_writer_def bind_eq_Some_conv')
  then show ?thesis using Cons aset_behind [OF x(2), of z] by (simp add: byte_writer_def behind_def)
qed

lemma byte_reader_behind:
  assumes "byte_reader j s = Some t"
  shows "byte_reader j (behind z y a s) = Some (behind z y a t)"
proof (cases "\<exists>k i. readers s ! j = RShow k i \<and> i < k")
  case True
  then obtain k i where r: "readers s ! j = RShow k i" "i < k" by blast
  obtain row t' where x: "aref (rows s) i = Some row" "rd_str row = Some t'"
    and t: "t = s\<lparr>readers := (readers s)[j := RShow k (i + 1)], screens := (screens s)[j := screens s ! j @ t']\<rparr>"
    using assms r by (auto simp: byte_reader_def bind_eq_Some_conv')
  have "NUL \<in> set row" "t' = cstr row" using x(2) by (auto simp: rd_str_def split: if_splits)
  then have "rd_str (row @ y) = Some t'" by (simp add: rd_str_def cstr_behind)
  then show ?thesis using r aref_map_behind [OF x(1), of "\<lambda>r. r @ y" a] by (simp add: byte_reader_def behind_def t)
qed (use assms in \<open>auto simp: byte_reader_def behind_def split: reader.splits if_splits\<close>)

lemma byte_run_behind: "byte_run xs s = Some t \<Longrightarrow> byte_run xs (behind z y a s) = Some (behind z y a t)"
proof (induction xs arbitrary: s)
  case (Cons x xs)
  obtain u where u: "move x s = Some u" "byte_run xs u = Some t" using Cons.prems by (auto simp: bind_eq_Some_conv')
  have "left (behind z y a s) = left s" "readers (behind z y a s) = readers s" by (simp_all add: behind_def)
  then have "move x (behind z y a s) = Some (behind z y a u)"
    using u(1) byte_server_behind [of s u z y a] byte_writer_behind [of _ s u z y a] byte_reader_behind [of _ s u z y a]
    by (cases x) (auto split: if_splits)
  then show ?case using Cons.IH [OF u(2)] by simp
qed simp

text \<open>
  The run: one writer puts its first byte into the segment; the server sees that the mark has changed, prints and
  stores; the writer copies the rest, and the server marks the text as read.  Then the reader shows the row.
\<close>

definition tear :: "mover list" where
  "tear = [Rd 0, Wr 0] @ replicate 23 Srv @ [Wr 0, Wr 0] @ replicate 23 Srv @ [Rd 0, Rd 0]"

definition tear_start :: bshm where
  "tear_start = \<lparr>seg = lit WOR, rows = [replicate 11 NUL], cell = 0, byte_pc = BPoll 0, cnt = 0, left = [[hi]],
     copied = [0], readers = [RStart], said = [], kept = [], screens = [[]], undef = False\<rparr>"

definition torn :: "bshm \<Rightarrow> bool" where
  "torn s \<longleftrightarrow> said s = [''h2plkopl21''] \<and> kept s = [''h2plkopl21''] \<and> left s = [[]] \<and> byte_pc s = BPoll 0 \<and> cstr (seg s) = WOR \<and>
     \<not> undef s \<and> NUL \<in> set (seg s) \<and> screens s = [''h2plkopl21'']"

lemma tear_run: "case byte_run tear tear_start of None \<Rightarrow> False | Some s \<Rightarrow> torn s"
  by code_simp

lemma torn_reached: "\<exists>s. reach (byte_init {} [[hi]]) byte_step s \<and> torn s"
proof -
  let ?z = "replicate 8989 NUL" and ?y = "replicate 89 NUL" and ?a = "replicate 89 (replicate 100 NUL)"
  obtain s where s: "byte_run tear tear_start = Some s" "torn s" using tear_run by (auto split: option.splits)
  have "replicate 11 NUL @ ?y = replicate 100 NUL" by (simp flip: replicate_add)
  moreover have "replicate 100 NUL # ?a = replicate 90 (replicate 100 NUL)" by (simp flip: replicate_Suc)
  ultimately have b: "behind ?z ?y ?a tear_start = byte_start (replicate 90 (replicate 100 NUL)) ?z [[hi]]"
    by (simp add: behind_def byte_start_def tear_start_def)
  have "(lit WOR @ ?z) ! i = NUL \<or> byte_of {} i ((lit WOR @ ?z) ! i)" if "i < 9000" for i
    using mark_byte(2) [of i "{}"] that by (cases "i \<le> 10") (auto simp: nth_append WOR_length)
  then have "seg_ok {} (lit WOR @ ?z)" by (simp add: seg_ok_def WOR_length)
  then have "byte_init {} [[hi]] (byte_start (replicate 90 (replicate 100 NUL)) ?z [[hi]])"
    unfolding byte_init_def
    by (intro conjI exI [of _ "replicate 90 (replicate 100 NUL)"] exI [of _ ?z] refl) (simp_all add: hi_text rows_sized_def short_def)
  then have "reach (byte_init {} [[hi]]) byte_step (behind ?z ?y ?a s)"
    by (intro byte_run_reach [OF byte_run_behind [OF s(1), of ?z ?y ?a, unfolded b]] reach_init) (simp_all add: byte_start_def)
  moreover have "torn (behind ?z ?y ?a s)" using s(2) by (simp add: behind_def torn_def cstr_behind)
  ultimately show ?thesis by blast
qed

text \<open>
  C39. Messages get torn: one writer has put its first byte into the segment when the server, which sees that the
  mark has changed, prints and stores that byte with the rest of the mark; what the writer copies afterwards is
  lost behind the new mark.
\<close>

theorem shm_chat_tears:
  "\<exists>s. reach (byte_init {} [[hi]]) byte_step s \<and> said s = [''h2plkopl21''] \<and> kept s = [''h2plkopl21''] \<and>
     left s = [[]] \<and> byte_pc s = BPoll 0 \<and> cstr (seg s) = WOR \<and> ''h2plkopl21'' \<notin> texts [[hi]]"
  using torn_reached hi_text(2) by (auto simp: torn_def texts_def)

text \<open>
  C14. However the accesses to the bytes interleave, what the server prints and stores is never longer than a row, and
  every byte of it stands there in some message, one of this conversation or an old one whose rest is in the segment, or in the mark; the server leaves its arrays only
  with the message after the ninetieth.
\<close>

theorem bytes_stay_in_rows:
  assumes "reach (byte_init Q mss) byte_step s" "t \<in> set (said s) \<union> set (kept s)"
  shows "length t < 100 \<and> (\<forall>i < length t. byte_of (Q \<union> texts mss) i (t ! i)) \<and> (undef s \<longrightarrow> length (kept s) = 90)"
proof -
  have "bytes_ok (Q \<union> texts mss) s" "short (Q \<union> texts mss)" using byte_sys.always [OF assms(1)] by (simp_all add: chat_ok_def)
  then show ?thesis using assms(2) mixed_short unfolding bytes_ok_def mixed_def by blast
qed

theorem bytes_stay_in_rows_witness:
  "\<exists>s. reach (byte_init {} [[hi]]) byte_step s \<and> said s = [''h2plkopl21''] \<and> (\<forall>i < 10. byte_of (texts [[hi]]) i (''h2plkopl21'' ! i))"
proof -
  obtain s where s: "reach (byte_init {} [[hi]]) byte_step s" "torn s" using torn_reached by blast
  have "''h2plkopl21'' \<in> set (said s) \<union> set (kept s)" using s(2) by (simp add: torn_def)
  from bytes_stay_in_rows [OF s(1) this] have "\<forall>i < 10. byte_of (texts [[hi]]) i (''h2plkopl21'' ! i)" by simp
  then show ?thesis using s by (auto simp: torn_def)
qed

text \<open>
  C22. The chat in shared memory refines the wall, however the accesses to the bytes interleave: the rows hold, in their order, the
  texts that the server has put there, which no later access changes, and every terminal shows the texts of the first so many rows, complete and in this order.  (The
  texts themselves may be mixtures of messages.)
\<close>

theorem shm_chat_screens:
  assumes "reach (byte_init Q mss) byte_step s" "j < length (screens s)"
  shows "wall_reachable (length mss) (rows_wall s) \<and> rows_hold (rows s) (kept s) \<and>
    (\<exists>n \<le> length (kept s). screens s ! j = concat (take n (kept s))) \<and>
    (\<forall>t. byte_step s t \<longrightarrow> (\<exists>us. kept t = kept s @ us))"
proof -
  have w: "wall_reachable (length mss) (rows_wall s)" by (rule byte_sys.simulated [OF assms(1)])
  have ok: "chat_ok (Q \<union> texts mss) s" by (rule byte_sys.always [OF assms(1)])
  have "\<exists>us. kept t = kept s @ us" if t: "byte_step s t" for t
  proof -
    have "rows_wall t = rows_wall s \<or> wall_step (rows_wall s) (rows_wall t)" by (rule byte_sys.abs_step [OF ok t])
    then show ?thesis by (auto simp: rows_wall_def elim!: wall_stepE)
  qed
  then show ?thesis using w wall_view [OF w, of j] assms(2) ok by (simp add: rows_wall_def chat_ok_def shows_ok_def)
qed

theorem shm_chat_screens_witness:
  "\<exists>s. reach (byte_init {} [[hi]]) byte_step s \<and> wall_reachable 1 (rows_wall s) \<and> rows_hold (rows s) [''h2plkopl21''] \<and> screens s = [''h2plkopl21'']"
proof -
  obtain s where s: "reach (byte_init {} [[hi]]) byte_step s" "torn s" using torn_reached by blast
  have "0 < length (screens s)" using s(2) by (simp add: torn_def)
  from shm_chat_screens [OF s(1) this] show ?thesis using s by (auto simp: torn_def)
qed

end
