(* ===== verification/Editor.thy ===== *)
theory Editor
  imports Console Keys "HOL-Library.Word"
begin

text \<open>
  The text editor \<open>work_with_file/text_editor.c\<close>.  The text is edited on the screen of curses and saved
  from there.  The functions of curses are a parameter, the record \<open>curses\<close> over the type of its
  screen; what the editor relies on is the predicate \<open>curses_laws\<close>.  The handler of the window size runs
  while the program waits for a key.
\<close>

section \<open>The screen\<close>

text \<open>
  \<open>move\<close> returns whether it succeeded; \<open>inch\<close> is the character under the cursor; \<open>getline\<close> is the line
  that \<open>scanw\<close> scans and the keys left, \<open>echoed\<close> what reading it does to the screen; \<open>windows\<close> is what a
  sequence of calls on windows of their own does to it.
\<close>

datatype win_call = Newwin int int int int | Box char char | Derwin int int int int | Wprintw string | Blink bool | Wrefresh | Delwin

record 's curses =
  LINES :: int
  COLS :: int
  move :: "int \<Rightarrow> int \<Rightarrow> 's \<Rightarrow> bool \<times> 's"
  insch :: "int \<Rightarrow> 's \<Rightarrow> 's"
  delch :: "'s \<Rightarrow> 's"
  inch :: "'s \<Rightarrow> int"
  printw :: "string \<Rightarrow> 's \<Rightarrow> 's"
  clear :: "'s \<Rightarrow> 's"
  getline :: "int list \<Rightarrow> string \<times> int list"
  echoed :: "string \<Rightarrow> 's \<Rightarrow> 's"
  windows :: "win_call list \<Rightarrow> 's \<Rightarrow> 's"

text \<open>
  The locals of \<open>main\<close>, the screen and the files; \<open>flashes\<close> counts the calls of \<open>flash\<close>; \<open>echoes\<close> and \<open>shows_cursor\<close>
  are what \<open>echo\<close>, \<open>noecho\<close> and \<open>curs_set\<close> have set.
  \<open>open_rw\<close> and \<open>open_w\<close>: whether \<open>fopen\<close> may open a file to read and write, or make it.
\<close>

record 's editor =
  scr :: 's
  row :: int
  cols :: int
  files :: "string \<Rightarrow> string option"
  flashes :: nat
  echoes :: bool
  shows_cursor :: bool

record perms =
  open_rw :: "string \<Rightarrow> bool"
  open_w :: "string \<Rightarrow> bool"

definition NAME_SIZE_ed :: nat where "NAME_SIZE_ed = 20"
definition MAX_STRING_SIZE :: nat where "MAX_STRING_SIZE = 72"


definition goto_xy :: "'s curses \<Rightarrow> int \<Rightarrow> int \<Rightarrow> 's \<Rightarrow> 's" where
  "goto_xy cs y x s = snd (move cs y x s)"

section \<open>Saving\<close>

text \<open>\<open>mvinch\<close> returns the error -1 where it cannot move; the mask \<open>A_CHARTEXT\<close> keeps the lowest byte.\<close>

definition mvinch :: "'s curses \<Rightarrow> int \<Rightarrow> int \<Rightarrow> 's \<Rightarrow> int \<times> 's" where
  "mvinch cs y x s = (let (ok, s') = move cs y x s in (if ok then inch cs s' else -1, s'))"

function save_cells :: "'s curses \<Rightarrow> int \<Rightarrow> int \<Rightarrow> 's \<Rightarrow> string \<times> 's" where
  "save_cells cs l i s =
     (if i < 75
      then let (c, s') = mvinch cs l i s; (t, s'') = save_cells cs l (i + 1) s' in (char_of (nat (c mod 256)) # t, s'')
      else ([NL], s))"
  by pat_completeness auto
termination by (relation "measure (\<lambda>(cs, l, i, s). nat (75 - i))") auto

function save_lines :: "'s curses \<Rightarrow> int \<Rightarrow> 's \<Rightarrow> string \<times> 's" where
  "save_lines cs l s =
     (if l < 23 then let (t, s') = save_cells cs l 0 s; (ts, s'') = save_lines cs (l + 1) s' in (t @ ts, s'') else ([], s))"
  by pat_completeness auto
termination by (relation "measure (\<lambda>(cs, l, s). nat (23 - l))") auto

declare save_cells.simps [simp del] save_lines.simps [simp del]

text \<open>The key \<open>@\<close>: a file that cannot be made again is written through a null pointer.\<close>

definition save_file :: "'s curses \<Rightarrow> perms \<Rightarrow> string \<Rightarrow> 's editor \<Rightarrow> 's editor option" where
  "save_file cs pm name st =
     (let fs = (files st)(name := None) in
      if open_w pm name
      then let (t, s') = save_lines cs 0 (scr st) in Some (st\<lparr>scr := s', files := fs(name := Some t)\<rparr>)
      else None)"

section \<open>Keys\<close>

definition flash_ed :: "'s editor \<Rightarrow> 's editor" where
  "flash_ed st = st\<lparr>flashes := flashes st + 1\<rparr>"

text \<open>One key; the flag tells whether the file is closed.\<close>

definition edit_key :: "'s curses \<Rightarrow> perms \<Rightarrow> string \<Rightarrow> int \<Rightarrow> 's editor \<Rightarrow> (bool \<times> 's editor) option" where
  "edit_key cs pm name t st =
     (if t = KEY_TILDE then Some (True, st)
      else if t = KEY_LEFT then Some (False, if 0 < cols st then st\<lparr>cols := cols st - 1\<rparr> else flash_ed st)
      else if t = KEY_RIGHT then Some (False, if cols st < COLS cs - 1 then st\<lparr>cols := cols st + 1\<rparr> else flash_ed st)
      else if t = KEY_UP then Some (False, if 0 < row st then st\<lparr>row := row st - 1\<rparr> else flash_ed st)
      else if t = KEY_DOWN then Some (False, if row st < LINES cs - 1 then st\<lparr>row := row st + 1\<rparr> else flash_ed st)
      else if t = KEY_BACKSPACE
      then Some (False, st\<lparr>cols := cols st - 1, scr := delch cs (goto_xy cs (row st) (cols st - 1) (scr st))\<rparr>)
      else if t = KEY_AT then map_option (Pair True) (save_file cs pm name st)
      else if t = KEY_NL
      then Some (False, st\<lparr>row := row st + 1, cols := 0, scr := insch cs t (goto_xy cs (row st + 1) 0 (scr st))\<rparr>)
      else Some (False, st\<lparr>cols := cols st + 1, scr := insch cs t (goto_xy cs (row st) (cols st) (scr st))\<rparr>))"

text \<open>The loop: the result tells whether the file was closed, or the program still waits for a key.\<close>

fun edit_loop :: "'s curses \<Rightarrow> perms \<Rightarrow> string \<Rightarrow> int list \<Rightarrow> 's editor \<Rightarrow> (bool \<times> int list \<times> 's editor) option" where
  "edit_loop cs pm name [] st = Some (False, [], st\<lparr>scr := goto_xy cs (row st) (cols st) (scr st)\<rparr>)"
| "edit_loop cs pm name (t # ts) st =
     do { (left, st') \<leftarrow> edit_key cs pm name t (st\<lparr>scr := goto_xy cs (row st) (cols st) (scr st)\<rparr>);
          if left then Some (True, ts, st'\<lparr>scr := clear cs (scr st')\<rparr>) else edit_loop cs pm name ts st' }"

section \<open>The size of the window\<close>

text \<open>
  The handler of \<open>SIGWINCH\<close>: the size is read from the terminal, and curses follows it.  \<open>resizeterm\<close> is a
  parameter: from the lines, the columns and the screen it gives the functions of curses on the resized window,
  and the screen.  While the loop waits for a key the window may change: each element of the list has the
  keys before a change, and the new size.  A key that curses makes of the change is one of the keys after it.
\<close>

type_synonym 's resizeterm = "int \<Rightarrow> int \<Rightarrow> 's \<Rightarrow> 's curses \<times> 's"

definition sig_winch :: "'s resizeterm \<Rightarrow> 16 word \<times> 16 word \<Rightarrow> 's editor \<Rightarrow> 's curses \<times> 's editor" where
  "sig_winch resizeterm sz st =
     (let (cs, s) = resizeterm (uint (fst sz)) (uint (snd sz)) (scr st) in (cs, st\<lparr>scr := s\<rparr>))"

fun edit_resized ::
  "'s resizeterm \<Rightarrow> 's curses \<Rightarrow> perms \<Rightarrow> string \<Rightarrow> (int list \<times> 16 word \<times> 16 word) list \<Rightarrow> int list \<Rightarrow> 's editor \<Rightarrow>
     ('s curses \<times> bool \<times> int list \<times> 's editor) option" where
  "edit_resized rt cs pm name [] ks st = map_option (Pair cs) (edit_loop cs pm name ks st)"
| "edit_resized rt cs pm name ((ts, sz) # rs) ks st =
     do { (left, ts', st') \<leftarrow> edit_loop cs pm name ts st;
          if left then Some (cs, True, ts' @ concat (map fst rs) @ ks, st')
          else let (cs', st'') = sig_winch rt sz st' in edit_resized rt cs' pm name rs ks st'' }"

section \<open>Opening a file\<close>

function show_file :: "'s curses \<Rightarrow> char list \<Rightarrow> string \<Rightarrow> 's \<Rightarrow> 's option" where
  "show_file cs arr content s =
     (case fgets arr MAX_STRING_SIZE content of
        Some (True, arr', rest) \<Rightarrow> do { t \<leftarrow> rd_str arr'; show_file cs arr' rest (printw cs t s) }
      | Some (False, _, _) \<Rightarrow> Some s
      | None \<Rightarrow> None)"
  by pat_completeness auto
termination by (relation "measure (\<lambda>(cs, arr, content, s). length content)") (auto dest: fgets_shorter)

declare show_file.simps [simp del]

datatype menu = Again | Exit | Wait

text \<open>
  The command 1: ask for the path, open the file, show it and edit it.  \<open>string0\<close> and \<open>arr0\<close> are the
  indeterminate contents of the two arrays.
\<close>

definition ask_path :: "'s curses \<Rightarrow> 's \<Rightarrow> 's" where
  "ask_path cs s =
     goto_xy cs 7 36 (printw cs ('': '' @ [NL]) (printw cs ''Enter path to file'' (goto_xy cs 7 16
       (printw cs (''I can view the file and edit it. To close the file without saving enter '' @ [CHR 0x27, CHR 0x7E, CHR 0x27] @
          ''. To close the file and save the changes type '' @ [CHR 0x27] @ ''@'' @ [CHR 0x27] @ ''.'' @ [NL])
         (goto_xy cs 1 4 (clear cs s))))))"

definition no_file :: "'s curses \<Rightarrow> 's \<Rightarrow> 's" where
  "no_file cs s =
     printw cs ''Press any key to continue...'' (goto_xy cs 10 16 (printw cs (''No such of file'' @ [NL]) (goto_xy cs 9 16 s)))"

definition edit_file ::
  "'s curses \<Rightarrow> perms \<Rightarrow> char list \<Rightarrow> char list \<Rightarrow> int list \<Rightarrow> 's editor \<Rightarrow> (menu \<times> int list \<times> 's editor) option" where
  "edit_file cs pm string0 arr0 keys st =
     (let s1 = ask_path cs (scr st); (line, ks) = getline cs keys; s2 = echoed cs line s1; st = st\<lparr>echoes := True\<rparr> in
      do { (_, str, _) \<leftarrow> scanf_s string0 line;
           name \<leftarrow> rd_str str;
           (case (if open_rw pm name then files st name else None) of
              None \<Rightarrow>
                (let s3 = no_file cs s2 in
                 case ks of [] \<Rightarrow> Some (Wait, [], st\<lparr>scr := s3\<rparr>) | k # ks' \<Rightarrow> Some (Again, ks', st\<lparr>scr := clear cs s3\<rparr>))
            | Some content \<Rightarrow>
                do { s3 \<leftarrow> show_file cs arr0 content (clear cs s2);
                     (left, ks', st') \<leftarrow> edit_loop cs pm name ks (st\<lparr>scr := s3, row := 0, cols := 0, echoes := False, shows_cursor := True\<rparr>);
                     Some (if left then Again else Wait, ks', st') }) })"

definition not_a_command :: "'s curses \<Rightarrow> 's \<Rightarrow> 's" where
  "not_a_command cs s = printw cs (''- - - - - - - - - - - -'' @ [NL])
     (goto_xy cs 1 5 (printw cs (''You wrote not a command'' @ [NL]) (goto_xy cs 0 5 s)))"

text \<open>The window of the menu.\<close>

definition menu_window :: "win_call list" where
  "menu_window = [Newwin 7 67 2 4, Box (CHR ''|'') (CHR ''-''), Derwin 5 65 1 1,
     Wprintw (''  Hello, User, this is a simple text editor! I have 2 commands:'' @ [NL] @ '' '' @ [NL] @ [CHR 0x09, CHR 0x09] @ ''1)edit file '' @
       [CHR 0x09] @ '' 2)exit'' @ [NL]),
     Wprintw [NL], Wprintw ''Enter num of comand: '', Blink True, Wprintw (''...'' @ [NL]), Blink False, Wrefresh, Delwin, Delwin]"

text \<open>One round of the menu: the key is stored in a \<open>char\<close>, so that its lowest byte decides.\<close>

definition menu_round ::
  "'s curses \<Rightarrow> perms \<Rightarrow> char list \<Rightarrow> char list \<Rightarrow> int list \<Rightarrow> 's editor \<Rightarrow> (menu \<times> int list \<times> 's editor) option" where
  "menu_round cs pm string0 arr0 keys st0 =
     (let st = st0\<lparr>shows_cursor := False, echoes := False, scr := windows cs menu_window (scr st0)\<rparr> in
      case keys of
        [] \<Rightarrow> Some (Wait, [], st)
      | k # ks \<Rightarrow>
          if k mod 256 = 50 then Some (Exit, ks, st)
          else if k mod 256 = 49 then edit_file cs pm string0 arr0 ks st
          else Some (Again, ks, st\<lparr>scr := not_a_command cs (scr st)\<rparr>))"

text \<open>The program for at most \<open>fuel\<close> rounds of the menu.\<close>

fun editor_main ::
  "nat \<Rightarrow> 's curses \<Rightarrow> perms \<Rightarrow> char list \<Rightarrow> char list \<Rightarrow> int list \<Rightarrow> 's editor \<Rightarrow> (menu \<times> int list \<times> 's editor) option" where
  "editor_main 0 cs pm string0 arr0 keys st = Some (Again, keys, st)"
| "editor_main (Suc fuel) cs pm string0 arr0 keys st =
     do { (m, ks, st') \<leftarrow> menu_round cs pm string0 arr0 keys st;
          if m = Again then editor_main fuel cs pm string0 arr0 ks st' else Some (m, ks, st') }"

section \<open>What curses does\<close>

definition printable :: "int \<Rightarrow> bool" where
  "printable c \<longleftrightarrow> 32 \<le> c \<and> c < 127"

text \<open>
  The documented behaviour the editor relies on, for a view of the screen as cells and a cursor: \<open>move\<close>
  succeeds inside the window and changes nothing outside; \<open>insch\<close> of a printable character shifts the rest of
  the line to the right, \<open>delch\<close> to the left with a blank at the end, both leave the cursor;
  \<open>inch\<close> reads the cell; \<open>scanw\<close> scans a typed line of printable characters.
\<close>

definition curses_laws :: "'s curses \<Rightarrow> ('s \<Rightarrow> int \<Rightarrow> int \<Rightarrow> int) \<Rightarrow> ('s \<Rightarrow> int \<times> int) \<Rightarrow> bool" where
  "curses_laws cs cells cur \<longleftrightarrow>
     (\<forall>y x s. 0 \<le> y \<and> y < LINES cs \<and> 0 \<le> x \<and> x < COLS cs \<longrightarrow>
        fst (move cs y x s) \<and> cells (goto_xy cs y x s) = cells s \<and> cur (goto_xy cs y x s) = (y, x)) \<and>
     (\<forall>y x s. \<not> (0 \<le> y \<and> y < LINES cs \<and> 0 \<le> x \<and> x < COLS cs) \<longrightarrow> move cs y x s = (False, s)) \<and>
     (\<forall>c s. printable c \<longrightarrow> cur (insch cs c s) = cur s \<and> cells (insch cs c s) =
        (\<lambda>y x. if y = fst (cur s) \<and> x \<ge> snd (cur s) then if x = snd (cur s) then c else cells s y (x - 1) else cells s y x)) \<and>
     (\<forall>s. cur (delch cs s) = cur s \<and> cells (delch cs s) =
        (\<lambda>y x. if y = fst (cur s) \<and> x \<ge> snd (cur s) then if x \<ge> COLS cs - 1 then 32 else cells s y (x + 1) else cells s y x)) \<and>
     (\<forall>s. inch cs s = cells s (fst (cur s)) (snd (cur s))) \<and>
     (\<forall>ks rest. list_all printable ks \<longrightarrow> getline cs (ks @ KEY_NL # rest) = (map (\<lambda>k. char_of (nat k)) ks, rest))"

text \<open>After \<open>resizeterm\<close> with a positive size the window has this size.\<close>

definition resize_laws :: "'s resizeterm \<Rightarrow> ('s \<Rightarrow> int \<Rightarrow> int \<Rightarrow> int) \<Rightarrow> ('s \<Rightarrow> int \<times> int) \<Rightarrow> bool" where
  "resize_laws rt cells cur \<longleftrightarrow>
     (\<forall>r c s. 0 < r \<and> 0 < c \<longrightarrow> (case rt r c s of (cs, _) \<Rightarrow> curses_laws cs cells cur \<and> LINES cs = r \<and> COLS cs = c))"

end
