(* ===== verification/Editor_Correct.thy ===== *)
theory Editor_Correct
  imports Editor
begin

text \<open>
  Correctness of the text editor: the keys as operations on a page of cells, which the program refines
  through the laws of curses; what typing does to the screen, what is saved, whole sessions, and the
  backspace key at the left margin; and what is saved of a window that has become too small.
\<close>

section \<open>The laws of curses\<close>

definition in_window :: "'s curses \<Rightarrow> int \<Rightarrow> int \<Rightarrow> bool" where
  "in_window cs y x \<longleftrightarrow> 0 \<le> y \<and> y < LINES cs \<and> 0 \<le> x \<and> x < COLS cs"

lemma moveI:
  assumes "curses_laws cs cells cur" "in_window cs y x"
  shows "fst (move cs y x s)" "cells (goto_xy cs y x s) = cells s" "cur (goto_xy cs y x s) = (y, x)"
  using assms by (simp_all add: curses_laws_def in_window_def)

lemma move_out: "curses_laws cs cells cur \<Longrightarrow> \<not> in_window cs y x \<Longrightarrow> goto_xy cs y x s = s"
  by (simp add: curses_laws_def in_window_def goto_xy_def)

lemma insch_law:
  assumes "curses_laws cs cells cur" "printable c" "cur s = (r, k)"
  shows "cells (insch cs c s) = (\<lambda>y x. if y = r \<and> x \<ge> k then if x = k then c else cells s y (x - 1) else cells s y x)"
  using assms by (simp add: curses_laws_def cong: if_cong)

lemma insch_cur: "curses_laws cs cells cur \<Longrightarrow> printable c \<Longrightarrow> cur (insch cs c s) = cur s"
  by (simp add: curses_laws_def)

lemma delch_law:
  assumes "curses_laws cs cells cur" "cur s = (r, k)"
  shows "cur (delch cs s) = (r, k)"
    "cells (delch cs s) = (\<lambda>y x. if y = r \<and> x \<ge> k then if x \<ge> COLS cs - 1 then 32 else cells s y (x + 1) else cells s y x)"
  using assms by (simp_all add: curses_laws_def)

lemma inch_law: "curses_laws cs cells cur \<Longrightarrow> cur s = (y, x) \<Longrightarrow> inch cs s = cells s y x"
  by (simp add: curses_laws_def)

lemma getline_law:
  "curses_laws cs cells cur \<Longrightarrow> list_all printable ks \<Longrightarrow>
   getline cs (ks @ KEY_NL # rest) = (map (\<lambda>k. char_of (nat k)) ks, rest)"
  by (simp add: curses_laws_def)

section \<open>Saving\<close>

definition cell_char :: "int \<Rightarrow> char" where
  "cell_char c = char_of (nat (c mod 256))"

text \<open>
  The text saved of a screen with \<open>H\<close> lines and \<open>W\<close> columns: 23 lines of 75 characters; where there is no cell
  it is the byte 255 that the error of \<open>mvinch\<close> leaves behind the mask.
\<close>

definition saved_char :: "int \<Rightarrow> int \<Rightarrow> (int \<Rightarrow> int \<Rightarrow> int) \<Rightarrow> int \<Rightarrow> int \<Rightarrow> char" where
  "saved_char H W f y x = (if y < H \<and> x < W then cell_char (f y x) else CHR 0xFF)"

definition page_text :: "int \<Rightarrow> int \<Rightarrow> (int \<Rightarrow> int \<Rightarrow> int) \<Rightarrow> string" where
  "page_text H W f = concat (map (\<lambda>y. map (saved_char H W f y) [0..74] @ [NL]) [0..22])"

lemma char_of_255: "char_of (255 :: nat) = CHR 0xFF"
  by code_simp

lemma save_cells_text:
  assumes "curses_laws cs cells cur" "0 \<le> y"
  shows "0 \<le> i \<Longrightarrow> i \<le> 75 \<Longrightarrow> fst (save_cells cs y i s) = map (saved_char (LINES cs) (COLS cs) (cells s) y) [i..74] @ [NL] \<and>
    cells (snd (save_cells cs y i s)) = cells s"
proof (induction "nat (75 - i)" arbitrary: i s)
  case 0
  then show ?case by (simp add: save_cells.simps)
next
  case (Suc n)
  then have i: "i < 75" by simp
  let ?s = "goto_xy cs y i s"
  have m: "cells ?s = cells s \<and> mvinch cs y i s = (fst (mvinch cs y i s), ?s) \<and>
      char_of (nat (fst (mvinch cs y i s) mod 256)) = saved_char (LINES cs) (COLS cs) (cells s) y i"
  proof (cases "in_window cs y i")
    case True
    note w = moveI [OF assms(1) True, of s]
    have "mvinch cs y i s = (cells s y i, ?s)"
      using w inch_law [OF assms(1) w(3)] by (cases "move cs y i s") (simp add: mvinch_def goto_xy_def)
    then show ?thesis
      using w True by (simp_all add: saved_char_def cell_char_def in_window_def)
  next
    case False
    then have w: "move cs y i s = (False, s)" "\<not> (y < LINES cs \<and> i < COLS cs)"
      using assms Suc.prems(1) by (auto simp: curses_laws_def in_window_def)
    then show ?thesis
      by (auto simp: mvinch_def goto_xy_def saved_char_def char_of_255)
  qed
  have IH: "fst (save_cells cs y (i + 1) ?s) = map (saved_char (LINES cs) (COLS cs) (cells ?s) y) [i + 1..74] @ [NL] \<and>
      cells (snd (save_cells cs y (i + 1) ?s)) = cells ?s"
    by (rule Suc.hyps(1)) (use Suc.hyps(2) Suc.prems i in auto)
  have "[i..74] = i # [i + 1..74]" using i by (simp add: upto_rec1)
  then show ?case using i IH m
    by (subst (1 2) save_cells.simps) (simp add: case_prod_beta Let_def, metis snd_conv)
qed

lemma save_lines_text:
  assumes "curses_laws cs cells cur"
  shows "0 \<le> l \<Longrightarrow> l \<le> 23 \<Longrightarrow>
    fst (save_lines cs l s) = concat (map (\<lambda>y. map (saved_char (LINES cs) (COLS cs) (cells s) y) [0..74] @ [NL]) [l..22])"
proof (induction "nat (23 - l)" arbitrary: l s)
  case 0
  then show ?case by (simp add: save_lines.simps)
next
  case (Suc n)
  then have l: "l < 23" by auto
  obtain t s' where s': "save_cells cs l 0 s = (t, s')" by (cases "save_cells cs l 0 s")
  have c: "t = map (saved_char (LINES cs) (COLS cs) (cells s) l) [0..74] @ [NL]" "cells s' = cells s"
    using save_cells_text [OF assms Suc.prems(1), of 0 s] s' by simp_all
  have IH: "fst (save_lines cs (l + 1) s') = concat (map (\<lambda>y. map (saved_char (LINES cs) (COLS cs) (cells s') y) [0..74] @ [NL]) [l + 1..22])"
    by (rule Suc.hyps(1)) (use Suc.hyps(2) Suc.prems l in auto)
  have "[l..22] = l # [l + 1..22]" using l by (simp add: upto_rec1)
  then show ?case using l IH c s' by (subst save_lines.simps) (simp add: case_prod_beta Let_def)
qed

lemma save_file_text:
  assumes "curses_laws cs cells cur" "open_w pm name"
  obtains s' where "save_file cs pm name st = Some (st\<lparr>scr := s', files := (files st)(name \<mapsto> page_text (LINES cs) (COLS cs) (cells (scr st)))\<rparr>)"
  using save_lines_text [OF assms(1), of 0 "scr st"] assms(2) that
  by (simp add: save_file_def case_prod_beta Let_def page_text_def)

section \<open>Typing\<close>

text \<open>The cells after typing \<open>ts\<close> in line \<open>r\<close> from column \<open>k\<close> on.\<close>

definition typed :: "int \<Rightarrow> int \<Rightarrow> int list \<Rightarrow> (int \<Rightarrow> int \<Rightarrow> int) \<Rightarrow> int \<Rightarrow> int \<Rightarrow> int" where
  "typed r k ts f = (\<lambda>y x. if y = r \<and> x \<ge> k then if x < k + int (length ts) then ts ! nat (x - k) else f y (x - int (length ts)) else f y x)"

lemma typed_Nil: "typed r k [] f = f"
  by (auto simp: typed_def intro!: ext)

lemma typed_Cons: "typed r (k + 1) ts (typed r k [t] f) = typed r k (t # ts) f"
proof (intro ext)
  fix y x
  have "nat (x - k) = Suc (nat (x - (k + 1)))" if "x \<ge> k + 1" using that by linarith
  then show "typed r (k + 1) ts (typed r k [t] f) y x = typed r k (t # ts) f y x"
    by (cases "x = k") (auto simp: typed_def algebra_simps)
qed

text \<open>
  The keys without curses: a page of cells with a cursor, the variables \<open>row\<close> and \<open>cols\<close> and the number of
  flashes, on a window of \<open>H\<close> lines and \<open>W\<close> columns.  The cursor does not move to a place outside the window.
\<close>

record page =
  text_of :: "int \<Rightarrow> int \<Rightarrow> int"
  cursor :: "int \<times> int"
  row_p :: int
  col_p :: int
  beeps :: nat

definition place :: "int \<Rightarrow> int \<Rightarrow> page \<Rightarrow> page" where
  "place H W p = (if 0 \<le> row_p p \<and> row_p p < H \<and> 0 \<le> col_p p \<and> col_p p < W then p\<lparr>cursor := (row_p p, col_p p)\<rparr> else p)"

definition insert_cell :: "int \<Rightarrow> page \<Rightarrow> page" where
  "insert_cell c p = (case cursor p of (r, k) \<Rightarrow>
     p\<lparr>text_of := \<lambda>y x. if y = r \<and> x \<ge> k then if x = k then c else text_of p y (x - 1) else text_of p y x\<rparr>)"

definition delete_cell :: "int \<Rightarrow> page \<Rightarrow> page" where
  "delete_cell W p = (case cursor p of (r, k) \<Rightarrow>
     p\<lparr>text_of := \<lambda>y x. if y = r \<and> x \<ge> k then if x \<ge> W - 1 then 32 else text_of p y (x + 1) else text_of p y x\<rparr>)"

definition beep :: "page \<Rightarrow> page" where
  "beep p = p\<lparr>beeps := beeps p + 1\<rparr>"

definition page_key :: "int \<Rightarrow> int \<Rightarrow> int \<Rightarrow> page \<Rightarrow> page" where
  "page_key H W t p0 =
     (let p = place H W p0 in
      if t = KEY_LEFT then if 0 < col_p p then p\<lparr>col_p := col_p p - 1\<rparr> else beep p
      else if t = KEY_RIGHT then if col_p p < W - 1 then p\<lparr>col_p := col_p p + 1\<rparr> else beep p
      else if t = KEY_UP then if 0 < row_p p then p\<lparr>row_p := row_p p - 1\<rparr> else beep p
      else if t = KEY_DOWN then if row_p p < H - 1 then p\<lparr>row_p := row_p p + 1\<rparr> else beep p
      else if t = KEY_BACKSPACE then delete_cell W (place H W (p\<lparr>col_p := col_p p - 1\<rparr>))
      else (insert_cell t p)\<lparr>col_p := col_p p + 1\<rparr>)"

definition page_keys :: "int \<Rightarrow> int \<Rightarrow> int list \<Rightarrow> page \<Rightarrow> page" where
  "page_keys H W ts p = foldl (\<lambda>p t. page_key H W t p) p ts"

definition types_text :: "int \<Rightarrow> bool" where
  "types_text t \<longleftrightarrow> printable t \<and> t \<noteq> KEY_AT \<and> t \<noteq> KEY_TILDE"

text \<open>All keys that neither close the file nor start a new line.\<close>

definition edits :: "int \<Rightarrow> bool" where
  "edits t \<longleftrightarrow> types_text t \<or> t \<in> {KEY_LEFT, KEY_RIGHT, KEY_UP, KEY_DOWN, KEY_BACKSPACE}"

text \<open>The page that a state of the program shows.\<close>

definition page_of :: "('s \<Rightarrow> int \<Rightarrow> int \<Rightarrow> int) \<Rightarrow> ('s \<Rightarrow> int \<times> int) \<Rightarrow> 's editor \<Rightarrow> page" where
  "page_of cells cur st = \<lparr>text_of = cells (scr st), cursor = cur (scr st), row_p = row st, col_p = cols st, beeps = flashes st\<rparr>"

lemma place_page:
  assumes "curses_laws cs cells cur"
  shows "page_of cells cur (st\<lparr>scr := goto_xy cs (row st) (cols st) (scr st)\<rparr>) = place (LINES cs) (COLS cs) (page_of cells cur st)"
proof (cases "in_window cs (row st) (cols st)")
  case True
  then show ?thesis using moveI [OF assms True] by (simp add: page_of_def place_def in_window_def)
next
  case False
  then show ?thesis using move_out [OF assms False] by (auto simp: page_of_def place_def in_window_def)
qed

lemma insert_page:
  assumes "curses_laws cs cells cur" "printable t"
  shows "page_of cells cur (st\<lparr>scr := insch cs t (scr st)\<rparr>) = insert_cell t (page_of cells cur st)"
proof -
  obtain r k where c: "cur (scr st) = (r, k)" by (cases "cur (scr st)")
  show ?thesis using insch_law [OF assms c] insch_cur [OF assms, of "scr st"] c
    by (simp add: page_of_def insert_cell_def cong: if_cong)
qed

lemma delete_page:
  assumes "curses_laws cs cells cur"
  shows "page_of cells cur (st\<lparr>scr := delch cs (scr st)\<rparr>) = delete_cell (COLS cs) (page_of cells cur st)"
  using delch_law [OF assms, of "scr st"]
  by (cases "cur (scr st)") (simp add: page_of_def delete_cell_def cong: if_cong)

lemma page_of_sel [simp]:
  "row_p (page_of cells cur st) = row st" "col_p (page_of cells cur st) = cols st" "text_of (page_of cells cur st) = cells (scr st)"
  "beep (page_of cells cur st) = page_of cells cur (flash_ed st)"
  "(page_of cells cur st)\<lparr>col_p := x\<rparr> = page_of cells cur (st\<lparr>cols := x\<rparr>)"
  "(page_of cells cur st)\<lparr>row_p := y\<rparr> = page_of cells cur (st\<lparr>row := y\<rparr>)"
  by (simp_all add: page_of_def beep_def flash_ed_def)

text \<open>One key of the program is one key of the page.\<close>

lemma key_page:
  assumes "curses_laws cs cells cur" "edits t"
  obtains st' where "edit_key cs pm name t (st\<lparr>scr := goto_xy cs (row st) (cols st) (scr st)\<rparr>) = Some (False, st')"
    "page_of cells cur st' = page_key (LINES cs) (COLS cs) t (page_of cells cur st)" "files st' = files st"
proof -
  define st1 where "st1 = st\<lparr>scr := goto_xy cs (row st) (cols st) (scr st)\<rparr>"
  have p: "place (LINES cs) (COLS cs) (page_of cells cur st) = page_of cells cur st1" "files st1 = files st" "row st1 = row st" "cols st1 = cols st"
    using place_page [OF assms(1)] by (simp_all add: st1_def)
  note simps = edit_key_def page_key_def key_defs p
  show thesis
  proof (cases "t \<in> {KEY_LEFT, KEY_RIGHT, KEY_UP, KEY_DOWN}")
    case True
    then show thesis using that by (auto simp: simps st1_def [symmetric] flash_ed_def)
  next
    case False
    show thesis
    proof (cases "t = KEY_BACKSPACE")
      case True
      let ?st2 = "st1\<lparr>cols := cols st - 1\<rparr>"
      let ?st3 = "?st2\<lparr>scr := goto_xy cs (row ?st2) (cols ?st2) (scr ?st2)\<rparr>"
      have "page_of cells cur (?st3\<lparr>scr := delch cs (scr ?st3)\<rparr>) = delete_cell (COLS cs) (place (LINES cs) (COLS cs) (page_of cells cur ?st2))"
        unfolding delete_page [OF assms(1)] place_page [OF assms(1)] ..
      then show thesis using that [of "?st3\<lparr>scr := delch cs (scr ?st3)\<rparr>"] True by (simp add: simps st1_def [symmetric])
    next
      case no: False
      then have t: "printable t" "t \<noteq> KEY_AT" "t \<noteq> KEY_TILDE" using False assms(2) by (auto simp: edits_def types_text_def)
      let ?st2 = "st1\<lparr>scr := goto_xy cs (row st1) (cols st1) (scr st1)\<rparr>"
      have e: "page_of cells cur ?st2 = page_of cells cur st1"
        unfolding place_page [OF assms(1)] p(1) [symmetric] by (simp add: place_def)
      let ?st3 = "?st2\<lparr>scr := insch cs t (scr ?st2)\<rparr>"
      have "page_of cells cur ?st3 = insert_cell t (page_of cells cur st1)" unfolding insert_page [OF assms(1) t(1)] e ..
      then have "page_of cells cur (?st3\<lparr>cols := cols st + 1\<rparr>) = (insert_cell t (page_of cells cur st1))\<lparr>col_p := cols st + 1\<rparr>"
        by (simp only: page_of_sel(5) [symmetric])
      then show thesis using that [of "?st3\<lparr>cols := cols st + 1\<rparr>"] t False no p by (simp add: simps st1_def [symmetric] printable_def)
    qed
  qed
qed

text \<open>Any number of keys: the program refines the page.\<close>

lemma keys_page:
  assumes "curses_laws cs cells cur" "list_all edits ts"
  shows "\<exists>st'. (\<forall>rest. edit_loop cs pm name (ts @ rest) st = edit_loop cs pm name rest st') \<and>
    page_of cells cur st' = page_keys (LINES cs) (COLS cs) ts (page_of cells cur st) \<and> files st' = files st"
  using assms(2)
proof (induction ts arbitrary: st)
  case (Cons t ts)
  obtain st1 where st1: "edit_key cs pm name t (st\<lparr>scr := goto_xy cs (row st) (cols st) (scr st)\<rparr>) = Some (False, st1)"
    "page_of cells cur st1 = page_key (LINES cs) (COLS cs) t (page_of cells cur st)" "files st1 = files st"
    using key_page [OF assms(1), of t pm name st] Cons.prems by (metis list.pred_inject(2))
  obtain st2 where st2: "\<And>rest. edit_loop cs pm name (ts @ rest) st1 = edit_loop cs pm name rest st2"
    "page_of cells cur st2 = page_keys (LINES cs) (COLS cs) ts (page_of cells cur st1)" "files st2 = files st1"
    using Cons.IH [of st1] Cons.prems by auto
  show ?case using st1 st2 by (intro exI [of _ st2]) (simp add: page_keys_def)
qed (auto simp: page_keys_def)

text \<open>Typing text inserts it into the line.\<close>

lemma page_typed:
  "list_all types_text ts \<Longrightarrow> 0 \<le> row_p p \<Longrightarrow> row_p p < H \<Longrightarrow> 0 \<le> col_p p \<Longrightarrow> col_p p + int (length ts) \<le> W \<Longrightarrow>
   text_of (page_keys H W ts p) = typed (row_p p) (col_p p) ts (text_of p)"
proof (induction ts arbitrary: p)
  case (Cons t ts)
  let ?p = "page_key H W t p"
  have p: "?p = (insert_cell t (p\<lparr>cursor := (row_p p, col_p p)\<rparr>))\<lparr>col_p := col_p p + 1\<rparr>"
    using Cons.prems by (simp add: page_key_def types_text_def printable_def key_defs place_def)
  have s: "row_p ?p = row_p p" "col_p ?p = col_p p + 1" by (simp_all add: p insert_cell_def)
  have "text_of ?p = typed (row_p p) (col_p p) [t] (text_of p)" by (auto simp: p insert_cell_def typed_def intro!: ext)
  moreover have "text_of (page_keys H W ts ?p) = typed (row_p ?p) (col_p ?p) ts (text_of ?p)"
    using Cons.prems s by (intro Cons.IH) simp_all
  ultimately show ?case using s typed_Cons [of "row_p p" "col_p p" ts t "text_of p"] by (simp add: page_keys_def)
qed (simp add: page_keys_def typed_Nil)

section \<open>Sessions\<close>

text \<open>A file of any length and contents is shown; every line and every piece of 71 characters is printed in turn.\<close>

lemma load_loop_returns:
  assumes "length arr = MAX_STRING_SIZE"
  shows "\<exists>s'. show_file cs arr content s = Some s'"
  using assms
proof (induction content arbitrary: arr s rule: length_induct)
  case (1 content)
  let ?l = "next_line (MAX_STRING_SIZE - 1) content"
  show ?case
  proof (cases "?l = []")
    case True
    then show ?thesis by (simp add: show_file.simps fgets_def)
  next
    case False
    have len: "length (?l @ [NUL]) \<le> length arr" using 1(2) by (simp add: next_line_def MAX_STRING_SIZE_def)
    obtain b where f: "fgets arr MAX_STRING_SIZE content = Some (True, b, drop (length ?l) content)"
      and b: "length b = MAX_STRING_SIZE" "NUL \<in> set b"
      using False len 1(2) by (simp add: fgets_def Let_def cmem)
    have "length (drop (length ?l) content) < length content" using fgets_shorter [OF f] .
    then have "\<exists>s'. show_file cs b (drop (length ?l) content) (printw cs (cstr b) s) = Some s'"
      using 1(1) b(1) by blast
    then show ?thesis by (subst show_file.simps) (simp add: f rd_str_Some [OF b(2)])
  qed
qed

definition codes :: "string \<Rightarrow> int list" where
  "codes s = map (\<lambda>c. int (of_char c)) s"

definition name_ok :: "string \<Rightarrow> bool" where
  "name_ok nm \<longleftrightarrow> token NAME_SIZE_ed nm \<and> list_all printable (codes nm)"

lemma scan_name:
  assumes "name_ok nm" "length buf = NAME_SIZE_ed"
  obtains b where "scanf_s buf nm = Some (1, b, [])" "rd_str b = Some nm"
proof -
  have t: "nm \<noteq> []" "length nm < length buf" "NUL \<notin> set nm" "\<forall>c \<in> set nm. \<not> isspace c"
    using assms by (simp_all add: name_ok_def token_def)
  have d: "dropWhile isspace nm = nm" "takeWhile (\<lambda>c. \<not> isspace c) nm = nm" "dropWhile (\<lambda>c. \<not> isspace c) nm = []"
    using t(1,4) by (cases nm, simp_all)
  have "rd_str (nm @ NUL # drop (Suc (length nm)) buf) = Some nm" using t(3) by (simp add: rd_str_def cstr_lit)
  then show thesis using that t(1,2) d by (simp add: scanf_s_def Let_def cmem)
qed

lemma getline_name:
  assumes "curses_laws cs cells cur" "name_ok nm"
  shows "getline cs (codes nm @ KEY_NL # rest) = (nm, rest)"
proof -
  have "map (\<lambda>k. char_of (nat k)) (codes nm) = nm" by (simp add: codes_def map_idI)
  then show ?thesis using getline_law [OF assms(1), of "codes nm" rest] assms(2) by (simp add: name_ok_def)
qed

text \<open>
  C7. A session: the command 1, the path of a file that can be opened, any keys that move, insert or
  delete, the key that saves, and the command 2.  It ends with the file replaced by 23 lines of 75 cells
  of the page that the keys make of what was shown of the file (and by bytes 255 where the window has no cell);
  for text typed at the start this is the text before the first line.
\<close>

theorem edit_session:
  assumes "curses_laws cs cells cur" "name_ok nm" "list_all edits ts"
    "files st nm = Some content" "open_rw pm nm" "open_w pm nm" "length string0 = NAME_SIZE_ed" "length arr0 = MAX_STRING_SIZE"
  shows "\<exists>s1 st' p. show_file cs arr0 content (clear cs (echoed cs nm (ask_path cs (windows cs menu_window (scr st))))) = Some s1 \<and>
    editor_main 2 cs pm string0 arr0 (49 # codes nm @ [KEY_NL] @ ts @ [KEY_AT, 50]) st = Some (Exit, [], st') \<and>
    p = page_keys (LINES cs) (COLS cs) ts (page_of cells cur (st\<lparr>scr := s1, row := 0, cols := 0\<rparr>)) \<and>
    files st' = (files st)(nm \<mapsto> page_text (LINES cs) (COLS cs) (text_of p)) \<and>
    (list_all types_text ts \<and> 0 < LINES cs \<and> int (length ts) \<le> COLS cs \<longrightarrow> text_of p = typed 0 0 ts (cells s1))"
proof -
  let ?s0 = "echoed cs nm (ask_path cs (windows cs menu_window (scr st)))"
  obtain b where b: "scanf_s string0 nm = Some (1, b, [])" "rd_str b = Some nm"
    by (rule scan_name [OF assms(2,7)])
  obtain s1 where s1: "show_file cs arr0 content (clear cs ?s0) = Some s1"
    using load_loop_returns [OF assms(8), of cs content "clear cs ?s0"] by (rule exE)
  let ?st1 = "st\<lparr>scr := s1, row := 0, cols := 0, echoes := False, shows_cursor := True\<rparr>"
  let ?p = "page_keys (LINES cs) (COLS cs) ts (page_of cells cur ?st1)"
  obtain st2 where st2: "\<And>rest. edit_loop cs pm nm (ts @ rest) ?st1 = edit_loop cs pm nm rest st2"
    "page_of cells cur st2 = ?p" "files st2 = files st" using keys_page [OF assms(1,3), of pm nm ?st1] by auto
  let ?st3 = "st2\<lparr>scr := goto_xy cs (row st2) (cols st2) (scr st2)\<rparr>"
  have "cells (scr ?st3) = cells (scr st2)"
    using moveI(2) [OF assms(1)] move_out [OF assms(1)] by (cases "in_window cs (row st2) (cols st2)") simp_all
  then have c: "cells (scr ?st3) = text_of ?p" using st2(2) [symmetric] by simp
  let ?f = "page_text (LINES cs) (COLS cs) (text_of ?p)"
  obtain s4 where s4: "save_file cs pm nm ?st3 = Some (?st3\<lparr>scr := s4, files := (files ?st3)(nm \<mapsto> ?f)\<rparr>)"
    using save_file_text [OF assms(1,6), of ?st3] unfolding c by blast
  let ?st4 = "?st3\<lparr>scr := clear cs s4, files := (files st)(nm \<mapsto> ?f)\<rparr>"
  have ed: "edit_loop cs pm nm (ts @ [KEY_AT, 50]) ?st1 = Some (True, [50], ?st4)"
    using s4 st2(3) by (simp add: st2(1) edit_key_def key_defs)
  let ?st0 = "st\<lparr>shows_cursor := False, echoes := False, scr := windows cs menu_window (scr st)\<rparr>"
  have "edit_file cs pm string0 arr0 (codes nm @ KEY_NL # ts @ [KEY_AT, 50]) ?st0 = Some (Again, [50], ?st4)"
    unfolding edit_file_def using ed by (simp add: getline_name [OF assms(1,2)] b s1 assms(4,5))
  then have "editor_main 2 cs pm string0 arr0 (49 # codes nm @ [KEY_NL] @ ts @ [KEY_AT, 50]) st =
      Some (Exit, [], ?st4\<lparr>shows_cursor := False, echoes := False, scr := windows cs menu_window (scr ?st4)\<rparr>)"
    by (simp add: menu_round_def numeral_2_eq_2 Let_def)
  moreover have "list_all types_text ts \<and> 0 < LINES cs \<and> int (length ts) \<le> COLS cs \<longrightarrow> text_of ?p = typed 0 0 ts (cells s1)"
    using page_typed [of ts "page_of cells cur ?st1"] by simp
  moreover have "page_of cells cur ?st1 = page_of cells cur (st\<lparr>scr := s1, row := 0, cols := 0\<rparr>)" by (simp add: page_of_def)
  ultimately show ?thesis using s1 by simp
qed

text \<open>
  The backspace key at the left margin: the column becomes -1, \<open>move\<close> fails and leaves the cursor,
  so that the character under it is deleted and the rest of the line moves to the left.
\<close>

theorem backspace_at_margin:
  assumes "curses_laws cs cells cur" "0 \<le> row st" "row st < LINES cs" "0 < COLS cs" "cols st = 0"
  shows "\<exists>s'. edit_loop cs pm name (KEY_BACKSPACE # ts) st = edit_loop cs pm name ts (st\<lparr>cols := -1, scr := s'\<rparr>) \<and>
    (\<forall>x. 0 \<le> x \<longrightarrow> cells s' (row st) x = (if x \<ge> COLS cs - 1 then 32 else cells (scr st) (row st) (x + 1)))"
proof -
  let ?s = "goto_xy cs (row st) 0 (scr st)"
  have w: "in_window cs (row st) 0" "\<not> in_window cs (row st) (-1)" using assms by (simp_all add: in_window_def)
  have "edit_loop cs pm name (KEY_BACKSPACE # ts) st = edit_loop cs pm name ts (st\<lparr>cols := -1, scr := delch cs ?s\<rparr>)"
    using assms(5) by (simp add: edit_key_def key_defs move_out [OF assms(1) w(2)])
  moreover have "cells (delch cs ?s) (row st) x = (if x \<ge> COLS cs - 1 then 32 else cells (scr st) (row st) (x + 1))" if "0 \<le> x" for x
    using that delch_law(2) [OF assms(1) moveI(3) [OF assms(1) w(1)], of "scr st"] moveI(2) [OF assms(1) w(1), of "scr st"] by simp
  ultimately show ?thesis by blast
qed

section \<open>A window that becomes smaller\<close>

lemma page_text_below:
  assumes "h \<le> 23"
  shows "drop (76 * h) (page_text (int h) W f) = concat (replicate (23 - h) (replicate 75 (CHR 0xFF) @ [NL]))"
proof -
  let ?g = "\<lambda>y. map (saved_char (int h) W f y) [0..74] @ [NL]"
  have s: "[0..22] = [0..int h - 1] @ [int h..22]" using assms by (cases "h = 23") (simp, intro upto_split1, simp_all)
  have "length (concat (map ?g [0..int h - 1])) = sum_list (map (\<lambda>y. 76) [0..int h - 1])" by (simp add: length_concat comp_def)
  then have l: "length (concat (map ?g [0..int h - 1])) = 76 * h" by (simp add: sum_list_triv)
  have "?g y = replicate 75 (CHR 0xFF) @ [NL]" if "y \<in> set [int h..22]" for y
  proof -
    have "saved_char (int h) W f y = (\<lambda>x. CHR 0xFF)" using that by (simp add: saved_char_def fun_eq_iff)
    then show ?thesis by (simp only: map_replicate_const) simp
  qed
  then have "map ?g [int h..22] = map (\<lambda>y. replicate 75 (CHR 0xFF) @ [NL]) [int h..22]" by (intro map_cong refl)
  also have "\<dots> = replicate (23 - h) (replicate 75 (CHR 0xFF) @ [NL])" by (simp add: map_replicate_const nat_diff_distrib)
  finally have m: "map ?g [int h..22] = replicate (23 - h) (replicate 75 (CHR 0xFF) @ [NL])" .
  have "page_text (int h) W f = concat (map ?g [0..int h - 1]) @ concat (map ?g [int h..22])"
    unfolding page_text_def s by simp
  then show ?thesis using l m by simp
qed

lemma key_stays:
  assumes "t \<noteq> KEY_TILDE" "t \<noteq> KEY_AT"
  obtains st' where "edit_key cs pm nm t st = Some (False, st')" "files st' = files st"
proof -
  have "\<exists>st'. edit_key cs pm nm t st = Some (False, st') \<and> files st' = files st"
    using assms by (simp add: edit_key_def flash_ed_def)
  then show thesis using that by blast
qed

lemma keys_stay:
  "list_all (\<lambda>t. t \<noteq> KEY_TILDE \<and> t \<noteq> KEY_AT) ts \<Longrightarrow>
   \<exists>st'. (\<forall>rest. edit_loop cs pm nm (ts @ rest) st = edit_loop cs pm nm rest st') \<and> files st' = files st"
proof (induction ts arbitrary: st)
  case Nil
  then show ?case by auto
next
  case (Cons t ts)
  let ?st = "st\<lparr>scr := goto_xy cs (row st) (cols st) (scr st)\<rparr>"
  obtain st1 where "edit_key cs pm nm t ?st = Some (False, st1)" "files st1 = files st"
    using Cons.prems key_stays [of t cs pm nm ?st] by auto
  then show ?case using Cons.IH [of st1] Cons.prems by simp
qed

text \<open>
  C34. The window may change its size while a file is edited.  If it has fewer than 23 lines when the file is
  saved, the lines that are missing on the screen are bytes 255 in the file, whatever the file had there.
\<close>

theorem small_window_saved:
  assumes "curses_laws cs cells cur" "resize_laws rt cells cur" "list_all (\<lambda>t. t \<noteq> KEY_TILDE \<and> t \<noteq> KEY_AT) (ts @ us)" "open_w pm nm"
    "0 < h" "h \<le> 23" "0 < w"
  shows "\<exists>cs' st' text. edit_resized rt cs pm nm [(ts, h, w)] (us @ [KEY_AT]) st = Some (cs', True, [], st') \<and>
    files st' = (files st)(nm \<mapsto> text) \<and> length text = 23 * 76 \<and>
    drop (76 * unat h) text = concat (replicate (23 - unat h) (replicate 75 (CHR 0xFF) @ [NL]))"
proof -
  have u: "int (unat h) = uint h" "0 < uint h" "0 < uint w" "unat h \<le> 23"
    using assms(5-7) by (simp_all add: word_less_def word_le_nat_alt)
  have ts: "list_all (\<lambda>t. t \<noteq> KEY_TILDE \<and> t \<noteq> KEY_AT) ts" and us: "list_all (\<lambda>t. t \<noteq> KEY_TILDE \<and> t \<noteq> KEY_AT) us"
    using assms(3) by simp_all
  obtain st1 where st1: "\<forall>rest. edit_loop cs pm nm (ts @ rest) st = edit_loop cs pm nm rest st1" "files st1 = files st"
    using keys_stay [OF ts, of cs pm nm st] by (elim exE conjE that)
  let ?st1 = "st1\<lparr>scr := goto_xy cs (row st1) (cols st1) (scr st1)\<rparr>"
  obtain cs' s' where r: "rt (uint h) (uint w) (scr ?st1) = (cs', s')" by (cases "rt (uint h) (uint w) (scr ?st1)")
  have laws: "curses_laws cs' cells cur" and size: "LINES cs' = uint h" "COLS cs' = uint w"
    using spec [OF spec [OF spec [OF assms(2) [unfolded resize_laws_def]]], of "uint h" "uint w" "scr ?st1"] u(2,3) r by simp_all
  let ?st2 = "?st1\<lparr>scr := s'\<rparr>"
  obtain st3 where st3: "\<forall>rest. edit_loop cs' pm nm (us @ rest) ?st2 = edit_loop cs' pm nm rest st3" "files st3 = files ?st2"
    using keys_stay [OF us, of cs' pm nm ?st2] by (elim exE conjE that)
  let ?st4 = "st3\<lparr>scr := goto_xy cs' (row st3) (cols st3) (scr st3)\<rparr>"
  let ?t = "page_text (uint h) (uint w) (cells (scr ?st4))"
  obtain s5 where s5: "save_file cs' pm nm ?st4 = Some (?st4\<lparr>scr := s5, files := (files ?st4)(nm \<mapsto> ?t)\<rparr>)"
    using save_file_text [OF laws assms(4), of ?st4] unfolding size by blast
  let ?st5 = "?st4\<lparr>scr := clear cs' s5, files := (files ?st4)(nm \<mapsto> ?t)\<rparr>"
  have "edit_resized rt cs pm nm [(ts, h, w)] (us @ [KEY_AT]) st = Some (cs', True, [], ?st5)"
    using spec [OF st1(1), of "[]"] spec [OF st3(1), of "[KEY_AT]"] s5 r by (simp add: sig_winch_def edit_key_def key_defs)
  moreover have "length ?t = 23 * 76" by (simp add: page_text_def length_concat comp_def sum_list_triv)
  moreover note page_text_below [OF u(4), unfolded u(1), of "uint w" "cells (scr ?st4)"]
  moreover have "files ?st5 = (files st)(nm \<mapsto> ?t)" using st1(2) st3(2) by simp
  ultimately show ?thesis by blast
qed

section \<open>A screen\<close>

text \<open>A screen of \<open>H\<close> lines of \<open>W\<close> cells that keeps the laws: its cells and the cursor.\<close>

type_synonym grid_screen = "(int \<Rightarrow> int \<Rightarrow> int) \<times> int \<times> int"

fun grid_put :: "int \<Rightarrow> grid_screen \<Rightarrow> char \<Rightarrow> grid_screen" where
  "grid_put W (f, y, x) c =
     (if c = NL then (f, y + 1, 0) else (f(y := (f y)(x := int (of_char c))), if x < W - 1 then (y, x + 1) else (y + 1, 0)))"

definition grid_of :: "int \<Rightarrow> int \<Rightarrow> grid_screen curses" where
  "grid_of H W = \<lparr>LINES = H, COLS = W,
     move = (\<lambda>y x (f, cy, cx). if 0 \<le> y \<and> y < H \<and> 0 \<le> x \<and> x < W then (True, f, y, x) else (False, f, cy, cx)),
     insch = (\<lambda>c (f, cy, cx). (\<lambda>y x. if y = cy \<and> x \<ge> cx then if x = cx then c else f y (x - 1) else f y x, cy, cx)),
     delch = (\<lambda>(f, cy, cx). (\<lambda>y x. if y = cy \<and> x \<ge> cx then if x \<ge> W - 1 then 32 else f y (x + 1) else f y x, cy, cx)),
     inch = (\<lambda>(f, cy, cx). f cy cx),
     printw = (\<lambda>t s. foldl (grid_put W) s t),
     clear = (\<lambda>s. (\<lambda>y x. 32, 0, 0)),
     getline = (\<lambda>ks. (map (\<lambda>k. char_of (nat k)) (takeWhile (\<lambda>k. k \<noteq> KEY_NL) ks), tl (dropWhile (\<lambda>k. k \<noteq> KEY_NL) ks))),
     echoed = (\<lambda>t s. foldl (grid_put W) s t), windows = (\<lambda>ws s. s)\<rparr>"

definition grid :: "grid_screen curses" where
  "grid = grid_of 24 80"

lemma grid_dims [simp]: "LINES grid = 24" "COLS grid = 80"
  by (simp_all add: grid_def grid_of_def)

lemma grid_windows [simp]: "windows grid ws s = s"
  by (simp add: grid_def grid_of_def)

lemma grid_of_laws: "curses_laws (grid_of H W) fst snd"
proof -
  have "takeWhile (\<lambda>k. k \<noteq> KEY_NL) (ks @ KEY_NL # rest) = ks" "dropWhile (\<lambda>k. k \<noteq> KEY_NL) (ks @ KEY_NL # rest) = KEY_NL # rest"
    if "list_all printable ks" for ks rest
    using that by (induction ks) (auto simp: printable_def KEY_NL_def)
  then show ?thesis by (simp add: curses_laws_def grid_of_def goto_xy_def case_prod_beta cong: if_cong)
qed

lemma grid_laws: "curses_laws grid fst snd"
  unfolding grid_def by (rule grid_of_laws)

lemma grid_resize_laws: "resize_laws (\<lambda>r c s. (grid_of r c, s)) fst snd"
  unfolding resize_laws_def by (simp add: grid_of_laws) (simp add: grid_of_def)

theorem edit_session_witness:
  "\<exists>s1 st'. show_file grid (replicate 72 NUL) ''abc'' (clear grid (echoed grid ''f'' (ask_path grid (\<lambda>y x. 32, 0, 0)))) = Some s1 \<and>
    editor_main 2 grid \<lparr>open_rw = \<lambda>_. True, open_w = \<lambda>_. True\<rparr> (replicate 20 NUL) (replicate 72 NUL) [49, 102, 10, 72, 105, 64, 50]
      \<lparr>scr = (\<lambda>y x. 32, 0, 0), row = 0, cols = 0, files = [''f'' \<mapsto> ''abc''], flashes = 0, echoes = False, shows_cursor = False\<rparr> = Some (Exit, [], st') \<and>
    files st' ''f'' = Some (page_text 24 80 (typed 0 0 [72, 105] (fst s1)))"
proof -
  let ?st = "\<lparr>scr = (\<lambda>y x. 32, 0, 0), row = 0, cols = 0, files = [''f'' \<mapsto> ''abc''], flashes = 0, echoes = False, shows_cursor = False\<rparr> :: grid_screen editor"
  let ?pm = "\<lparr>open_rw = \<lambda>_. True, open_w = \<lambda>_. True\<rparr>"
  have n: "name_ok ''f''" by (simp add: name_ok_def token_def NAME_SIZE_ed_def NUL_def isspace_def codes_def printable_def)
  have t: "list_all edits [72, 105]" "list_all types_text [72, 105]" by (simp_all add: edits_def types_text_def printable_def key_defs)
  have k: "49 # codes ''f'' @ [KEY_NL] @ [72, 105] @ [KEY_AT, 50] = [49, 102, 10, 72, 105, 64, 50]"
    by (simp add: codes_def key_defs)
  have "files ?st ''f'' = Some ''abc''" "length (replicate 20 NUL) = NAME_SIZE_ed" "length (replicate 72 NUL) = MAX_STRING_SIZE"
    by (simp_all add: NAME_SIZE_ed_def MAX_STRING_SIZE_def)
  from edit_session [OF grid_laws n t(1) this(1) _ _ this(2,3), of ?pm, unfolded k] show ?thesis
    using t(2) grid_windows by (fastforce simp del: list.pred_inject)
qed

theorem small_window_saved_witness:
  "\<exists>cs' st' text. edit_resized (\<lambda>r c s. (grid_of r c, s)) grid \<lparr>open_rw = \<lambda>_. True, open_w = \<lambda>_. True\<rparr> ''f'' [([72, 105], 20, 80)] [33, KEY_AT]
      \<lparr>scr = (\<lambda>y x. 32, 0, 0), row = 0, cols = 0, files = Map.empty, flashes = 0, echoes = False, shows_cursor = True\<rparr> = Some (cs', True, [], st') \<and>
    files st' = [''f'' \<mapsto> text] \<and> length text = 23 * 76 \<and>
    drop 1520 text = concat (replicate 3 (replicate 75 (CHR 0xFF) @ [NL]))"
proof -
  have t: "list_all (\<lambda>t. t \<noteq> KEY_TILDE \<and> t \<noteq> KEY_AT) ([72, 105] @ [33])" by (simp add: key_defs)
  show ?thesis
    using small_window_saved [OF grid_laws grid_resize_laws t, of "\<lparr>open_rw = \<lambda>_. True, open_w = \<lambda>_. True\<rparr>" "''f''" 20 80
      "\<lparr>scr = (\<lambda>y x. 32, 0, 0), row = 0, cols = 0, files = Map.empty, flashes = 0, echoes = False, shows_cursor = True\<rparr>"]
    by simp
qed

theorem backspace_at_margin_witness:
  "\<exists>s'. edit_loop grid \<lparr>open_rw = \<lambda>_. True, open_w = \<lambda>_. True\<rparr> ''f'' [KEY_BACKSPACE] \<lparr>scr = (\<lambda>y x. x, 0, 0), row = 0, cols = 0, files = Map.empty, flashes = 0, echoes = False, shows_cursor = False\<rparr> =
      edit_loop grid \<lparr>open_rw = \<lambda>_. True, open_w = \<lambda>_. True\<rparr> ''f'' [] \<lparr>scr = s', row = 0, cols = -1, files = Map.empty, flashes = 0, echoes = False, shows_cursor = False\<rparr> \<and> fst s' 0 0 = 1"
proof -
  let ?st = "\<lparr>scr = (\<lambda>y x. x, 0, 0), row = 0, cols = 0, files = Map.empty, flashes = 0, echoes = False, shows_cursor = False\<rparr> :: grid_screen editor"
  obtain s' where s': "edit_loop grid \<lparr>open_rw = \<lambda>_. True, open_w = \<lambda>_. True\<rparr> ''f'' [KEY_BACKSPACE] ?st =
      edit_loop grid \<lparr>open_rw = \<lambda>_. True, open_w = \<lambda>_. True\<rparr> ''f'' [] (?st\<lparr>cols := -1, scr := s'\<rparr>)"
      "\<forall>x. 0 \<le> x \<longrightarrow> fst s' (row ?st) x = (if x \<ge> COLS grid - 1 then 32 else fst (scr ?st) (row ?st) (x + 1))"
    using backspace_at_margin [OF grid_laws, of ?st "\<lparr>open_rw = \<lambda>_. True, open_w = \<lambda>_. True\<rparr>" "''f''" "[]"] by auto
  have "fst s' 0 0 = 1" using spec [OF s'(2), of 0] by simp
  then show ?thesis using s'(1) by (intro exI [of _ s']) simp
qed

end
