(* ===== verification/Modules.thy ===== *)
theory Modules
  imports CLib
begin

text \<open>
  The kernel modules of \<open>modules\<close>: the device of \<open>read-write_module/test.c\<close>, and that of
  \<open>sys-proc_module/test2.c\<close> with its entries in \<open>/proc\<close> and \<open>/sys\<close>.  The functions of the kernel
  that copy from and to user memory, and the outcomes of the registrations, are parameters.  A handler
  runs as one step here; \<open>Locking\<close> has its steps, with the lock that the device handlers hold.
\<close>

definition EINVAL :: int where "EINVAL = 22"
definition ENOMEM :: int where "ENOMEM = 12"

text \<open>
  \<open>simple_read_from_buffer\<close> of a size, an offset, the buffer and its length: the result, the bytes copied,
  the new offset.  \<open>simple_write_to_buffer\<close> of the buffer, its length, the offset, the user's bytes and
  their number: the result, the new buffer, the new offset.
\<close>

record kernel =
  read_from :: "nat \<Rightarrow> int \<Rightarrow> char list \<Rightarrow> nat \<Rightarrow> int \<times> char list \<times> int"
  write_to :: "char list \<Rightarrow> nat \<Rightarrow> int \<Rightarrow> char list \<Rightarrow> nat \<Rightarrow> int \<times> char list \<times> int"

section \<open>Handlers\<close>

definition test_read :: "kernel \<Rightarrow> nat \<Rightarrow> int \<Rightarrow> char list \<Rightarrow> int \<times> char list \<times> int" where
  "test_read k sz off str = read_from k sz off str 15"

definition test_write :: "kernel \<Rightarrow> char list \<Rightarrow> nat \<Rightarrow> int \<Rightarrow> char list \<Rightarrow> int \<times> char list \<times> int" where
  "test_write k buff sz off str = (if sz > 15 then (- EINVAL, str, off) else write_to k str 15 off buff sz)"

definition test_proc_read :: "kernel \<Rightarrow> nat \<Rightarrow> int \<Rightarrow> char list \<Rightarrow> int \<times> char list \<times> int" where
  "test_proc_read k sz off str = read_from k sz off str 15"

definition test_proc_write :: "kernel \<Rightarrow> char list \<Rightarrow> nat \<Rightarrow> int \<Rightarrow> char list \<Rightarrow> int \<times> char list \<times> int" where
  "test_proc_write k buff sz off str = write_to k str 15 off buff sz"

text \<open>\<open>show\<close> copies into the page \<open>buf\<close>; its result is the length of the string.\<close>

definition string_show :: "char list \<Rightarrow> char list \<Rightarrow> (int \<times> char list) option" where
  "string_show buf str = do { b \<leftarrow> wr_at buf 0 (take 15 str); n \<leftarrow> strlen str; Some (int n, b) }"

definition string_store :: "char list \<Rightarrow> nat \<Rightarrow> char list \<Rightarrow> (int \<times> char list) option" where
  "string_store buf count' str = do { s \<leftarrow> wr_at str 0 (take count' buf); n \<leftarrow> strlen buf; Some (int n, s) }"

section \<open>Loading and unloading\<close>

text \<open>
  What is registered with the kernel, the static variables and the log; \<open>held\<close> counts the references
  to the directory in \<open>/sys\<close>.
\<close>

record kstate =
  major :: int
  devices :: "string list"
  proc_files :: "string list"
  held :: nat
  klog :: "string list"

text \<open>\<open>register\<close>: the result of \<open>register_chrdev\<close> for a major number; \<open>group_rc\<close>: that of \<open>sysfs_create_group\<close>.\<close>

record outcomes =
  register :: "int \<Rightarrow> int"
  proc_made :: bool
  kobject_made :: bool
  group_rc :: int

definition pr_info :: "string \<Rightarrow> kstate \<Rightarrow> kstate" where
  "pr_info t s = s\<lparr>klog := klog s @ [t @ [NL]]\<rparr>"

definition register_chrdev :: "outcomes \<Rightarrow> kstate \<Rightarrow> kstate" where
  "register_chrdev oc s =
     (let m = register oc (major s) in s\<lparr>major := m, devices := (if m < 0 then devices s else ''test'' # devices s)\<rparr>)"

definition hello_init :: "kstate \<Rightarrow> int \<times> kstate" where
  "hello_init s = (0, pr_info ''My test module loaded.'' s)"

definition hello_cleanup :: "kstate \<Rightarrow> kstate" where
  "hello_cleanup s = pr_info ''My test module unloaded.'' s"

definition rw_init :: "outcomes \<Rightarrow> kstate \<Rightarrow> int \<times> kstate" where
  "rw_init oc s =
     (let s1 = register_chrdev oc (pr_info ''My test module loaded.'' s) in
      if major s1 < 0 then (major s1, s1) else (0, pr_info (''Major = '' @ show_int (major s1)) s1))"

definition rw_cleanup :: "kstate \<Rightarrow> kstate" where
  "rw_cleanup s = pr_info ''My test module unloaded.'' (s\<lparr>devices := remove1 ''test'' (devices s)\<rparr>)"

definition init_module :: "outcomes \<Rightarrow> kstate \<Rightarrow> int \<times> kstate" where
  "init_module oc s =
     (let s1 = register_chrdev oc (pr_info ''My test2 module loaded.'' s) in
      if major s1 < 0 then (major s1, s1)
      else
        let s2 = pr_info (''Major = '' @ show_int (major s1)) s1;
            s3 = (if proc_made oc then s2\<lparr>proc_files := ''test'' # proc_files s2\<rparr> else s2) in
        if \<not> kobject_made oc then (- ENOMEM, s3)
        else
          let s4 = s3\<lparr>held := held s3 + 1\<rparr> in
          if group_rc oc \<noteq> 0 then (group_rc oc, s4\<lparr>held := held s4 - 1\<rparr>) else (0, s4))"

definition cleanup_module :: "kstate \<Rightarrow> kstate" where
  "cleanup_module s = pr_info ''My test2 module unloaded''
     (s\<lparr>devices := remove1 ''test'' (devices s), proc_files := remove1 ''test'' (proc_files s), held := held s - 1\<rparr>)"

section \<open>What the kernel does\<close>

text \<open>
  The documented behaviour of the two copying functions for memory the user may access: at most the
  bytes between the offset and the end of the buffer are copied and the offset moves behind them.
\<close>

definition kernel_laws :: "kernel \<Rightarrow> bool" where
  "kernel_laws k \<longleftrightarrow>
     (\<forall>n sz str. n \<le> length str \<longrightarrow> read_from k sz (int n) str (length str) =
        (int (min sz (length str - n)), take sz (drop n str), int (n + min sz (length str - n)))) \<and>
     (\<forall>n buff sz str. n \<le> length str \<and> sz = length buff \<longrightarrow> write_to k str (length str) (int n) buff sz =
        (int (min sz (length str - n)), take n str @ take (length str - n) buff @ drop (n + sz) str, int (n + min sz (length str - n))))"

section \<open>Properties\<close>

lemma read_law: "kernel_laws k \<Longrightarrow> n \<le> length str \<Longrightarrow> read_from k sz (int n) str (length str) =
    (int (min sz (length str - n)), take sz (drop n str), int (n + min sz (length str - n)))"
  unfolding kernel_laws_def by blast

lemma write_law: "kernel_laws k \<Longrightarrow> n \<le> length str \<Longrightarrow> write_to k str (length str) (int n) buff (length buff) =
    (int (min (length buff) (length str - n)), take n str @ take (length str - n) buff @ drop (n + length buff) str,
     int (n + min (length buff) (length str - n)))"
  unfolding kernel_laws_def by blast

text \<open>
  C29. What was written to the device is read back: a write of at most 15 bytes at the start of the device
  is accepted in full, a longer one is refused and changes nothing, and a read of the whole device then returns
  the bytes written followed by what was behind them.  Through \<open>/proc\<close> a longer write is cut instead.
\<close>

theorem device_round_trip:
  assumes "kernel_laws k" "length str = 15"
  shows "test_write k d (length d) 0 str =
      (if length d \<le> 15 then (int (length d), d @ drop (length d) str, int (length d)) else (- EINVAL, str, 0)) \<and>
    test_proc_write k d (length d) 0 str =
      (int (min (length d) 15), take 15 d @ drop (length d) str, int (min (length d) 15)) \<and>
    (length d \<le> 15 \<longrightarrow> test_read k 15 0 (fst (snd (test_write k d (length d) 0 str))) = (15, d @ drop (length d) str, 15))"
proof -
  have w: "write_to k str 15 0 d (length d) = (int (min (length d) 15), take 15 d @ drop (length d) str, int (min (length d) 15))"
    using write_law [OF assms(1), of 0 str d] assms(2) by simp
  have r: "read_from k 15 0 t 15 = (15, t, 15)" if "length t = 15" for t
    using read_law [OF assms(1), of 0 t 15] that by simp
  show ?thesis using w r [of "d @ drop (length d) str"] assms(2)
    by (simp add: test_write_def test_proc_write_def test_read_def)
qed

text \<open>Copying functions with the documented behaviour.\<close>

definition simple_kernel :: kernel where
  "simple_kernel = \<lparr>read_from = \<lambda>sz off str avail. if off < 0 then (- EINVAL, [], off) else
       let n = nat off; m = min sz (avail - n) in (int m, take m (drop n str), off + int m),
     write_to = \<lambda>str avail off buff sz. if off < 0 then (- EINVAL, str, off) else
       let n = nat off; m = min sz (avail - n) in (int m, take n str @ take m buff @ drop (n + m) str, off + int m)\<rparr>"

lemma simple_kernel_laws: "kernel_laws simple_kernel"
  by (auto simp: kernel_laws_def simple_kernel_def Let_def min_def)

theorem device_round_trip_witness:
  "test_write simple_kernel ''hi'' 2 0 (''Hello'' @ [NL] @ replicate 9 NUL) = (2, ''hillo'' @ [NL] @ replicate 9 NUL, 2) \<and>
   test_read simple_kernel 15 0 (''hillo'' @ [NL] @ replicate 9 NUL) = (15, ''hillo'' @ [NL] @ replicate 9 NUL, 15)"
  using device_round_trip [OF simple_kernel_laws, of "''Hello'' @ [NL] @ replicate 9 NUL" "''hi''"]
  by (simp add: numeral_2_eq_2, elim conjE, simp)

text \<open>
  Storing through \<open>/sys\<close> is not bounded by the size of the string: it is defined for at most 15
  bytes only, and after storing 15 bytes without a terminator showing the string is undefined.
\<close>

theorem string_store_bounds:
  assumes "length str = 15" "count' \<le> length buf" "NUL \<in> set buf"
  shows "(string_store buf count' str = None \<longleftrightarrow> 15 < count') \<and>
    (count' = 15 \<and> NUL \<notin> set (take 15 buf) \<longrightarrow>
      (\<exists>n s. string_store buf count' str = Some (n, s) \<and> string_show page s = None))"
proof -
  have "string_show page (take 15 buf) = None" if "NUL \<notin> set (take 15 buf)"
    using that by (simp add: string_show_def strlen_def rd_str_def wr_at_def)
  then show ?thesis using assms by (auto simp: string_store_def wr_at_def strlen_def rd_str_def)
qed

theorem string_store_bounds_witness:
  "string_store (replicate 20 (CHR ''a'') @ [NUL]) 20 (replicate 15 NUL) = None"
  using string_store_bounds [of "replicate 15 NUL" 20 "replicate 20 (CHR ''a'') @ [NUL]"] by simp

text \<open>
  Loading and unloading: a successful load of the second module followed by its unloading leaves nothing
  registered that was not before.  A load that fails after the device was registered leaves the device and
  the file in \<open>/proc\<close> registered, although the module is not loaded.
\<close>

theorem init_cleanup:
  assumes "register oc (major s) \<ge> 0" "proc_made oc"
  shows "(case init_module oc s of (rc, s') \<Rightarrow>
    if kobject_made oc \<and> group_rc oc = 0
    then rc = 0 \<and> devices (cleanup_module s') = devices s \<and> proc_files (cleanup_module s') = proc_files s \<and> held (cleanup_module s') = held s
    else rc \<noteq> 0 \<and> devices s' = ''test'' # devices s \<and> proc_files s' = ''test'' # proc_files s \<and> held s' = held s)"
  using assms by (simp add: init_module_def register_chrdev_def pr_info_def cleanup_module_def Let_def ENOMEM_def)

theorem init_cleanup_witness:
  "devices (snd (init_module \<lparr>register = \<lambda>_. 240, proc_made = True, kobject_made = False, group_rc = 0\<rparr>
     \<lparr>major = 0, devices = [], proc_files = [], held = 0, klog = []\<rparr>)) = [''test'']"
  using init_cleanup [of "\<lparr>register = \<lambda>_. 240, proc_made = True, kobject_made = False, group_rc = 0\<rparr>"
     "\<lparr>major = 0, devices = [], proc_files = [], held = 0, klog = []\<rparr>"] by (simp add: case_prod_beta)

end
