(* ===== verification/Locking.thy ===== *)
theory Locking
  imports Modules Transition
begin

text \<open>
  The handlers of the kernel modules byte by byte.  Any number of calls run at the same time; the
  handlers of the devices take the lock around their copying, as readers or as the one writer, those of
  \<open>/proc\<close> and \<open>/sys\<close> do not.  The string is copied one byte after the other.
\<close>

datatype phase = Enter | Copying nat | Leave | Out

text \<open>
  One call of a handler: whether it writes, whether it takes the lock, the offset, the size it is called with, the bytes of the user
  that take part, where it is, and its result.
\<close>

record handler =
  writes :: bool
  locks :: bool
  off :: nat
  sz :: nat
  bytes :: "char list"
  phase :: phase
  ret :: int

text \<open>\<open>versions\<close>: the contents of the string after each write that was complete.\<close>

record device =
  test_string :: "char list"
  readers_in :: nat
  writer_in :: bool
  handlers :: "handler list"
  versions :: "char list list"

definition goto_h :: "nat \<Rightarrow> phase \<Rightarrow> device \<Rightarrow> device" where
  "goto_h i p s = s\<lparr>handlers := (handlers s)[i := (handlers s ! i)\<lparr>phase := p\<rparr>]\<rparr>"

definition finish_h :: "nat \<Rightarrow> int \<Rightarrow> device \<Rightarrow> device" where
  "finish_h i r s = s\<lparr>handlers := (handlers s)[i := (handlers s ! i)\<lparr>phase := Out, ret := r\<rparr>]\<rparr>"

text \<open>The writer of the device, the one that locks, refuses a size above 15 before it takes the lock.\<close>

definition enter_step :: "nat \<Rightarrow> handler \<Rightarrow> device \<Rightarrow> device option" where
  "enter_step i c s =
     (if \<not> locks c then Some (goto_h i (Copying 0) s)
      else if writes c
      then (if 15 < sz c then Some (finish_h i (- EINVAL) s)
            else if readers_in s = 0 \<and> \<not> writer_in s then Some (goto_h i (Copying 0) (s\<lparr>writer_in := True\<rparr>)) else None)
      else (if \<not> writer_in s then Some (goto_h i (Copying 0) (s\<lparr>readers_in := readers_in s + 1\<rparr>)) else None))"

definition copy_step :: "nat \<Rightarrow> nat \<Rightarrow> handler \<Rightarrow> device \<Rightarrow> device" where
  "copy_step i j c s =
     (if j < length (bytes c)
      then (if writes c
        then goto_h i (Copying (Suc j)) (s\<lparr>test_string := (test_string s)[off c + j := bytes c ! j]\<rparr>)
        else s\<lparr>handlers := (handlers s)[i := c\<lparr>bytes := (bytes c)[j := test_string s ! (off c + j)], phase := Copying (Suc j)\<rparr>]\<rparr>)
      else goto_h i Leave (if writes c then s\<lparr>versions := versions s @ [test_string s]\<rparr> else s))"

definition leave_step :: "nat \<Rightarrow> handler \<Rightarrow> device \<Rightarrow> device" where
  "leave_step i c s = finish_h i (int (length (bytes c)))
     (if \<not> locks c then s else if writes c then s\<lparr>writer_in := False\<rparr> else s\<lparr>readers_in := readers_in s - 1\<rparr>)"

definition handler_step :: "nat \<Rightarrow> device \<Rightarrow> device option" where
  "handler_step i s =
     (let c = handlers s ! i in
      case phase c of
        Enter \<Rightarrow> enter_step i c s
      | Copying j \<Rightarrow> Some (copy_step i j c s)
      | Leave \<Rightarrow> Some (leave_step i c s)
      | Out \<Rightarrow> None)"

inductive device_step :: "device \<Rightarrow> device \<Rightarrow> bool" where
  by_handler: "i < length (handlers s) \<Longrightarrow> handler_step i s = Some t \<Longrightarrow> device_step s t"

inductive_cases device_stepE: "device_step s t"

text \<open>\<open>bytes\<close> are those that lie in the string behind the offset.\<close>

definition device_start :: "char list \<Rightarrow> handler list \<Rightarrow> device" where
  "device_start str hs = \<lparr>test_string = str, readers_in = 0, writer_in = False, handlers = hs, versions = [str]\<rparr>"

definition device_init :: "handler list \<Rightarrow> device \<Rightarrow> bool" where
  "device_init hs s \<longleftrightarrow> (\<exists>str. length str = 15 \<and> s = device_start str hs) \<and>
     (\<forall>c \<in> set hs. phase c = Enter \<and> length (bytes c) \<le> 15 - off c)"

section \<open>Copying\<close>

text \<open>The string with bytes written at an offset.\<close>

definition put_at :: "nat \<Rightarrow> char list \<Rightarrow> char list \<Rightarrow> char list" where
  "put_at n d str = take n str @ d @ drop (n + length d) str"

lemma put_at_Nil [simp]: "put_at n [] str = str"
  by (simp add: put_at_def)

lemma put_at_next:
  assumes "j < length d" "n + length d \<le> length str"
  shows "(put_at n (take j d) str)[n + j := d ! j] = put_at n (take (Suc j) d) str"
proof -
  have "drop (n + j) str = str ! (n + j) # drop (n + Suc j) str" using assms by (simp add: Cons_nth_drop_Suc)
  then show ?thesis using assms by (simp add: put_at_def list_update_append take_Suc_conv_app_nth min_def)
qed

lemma take_update_next: "j < length b \<Longrightarrow> take j b = take j xs \<Longrightarrow> j < length xs \<Longrightarrow> take (Suc j) (b[j := xs ! j]) = take (Suc j) xs"
  by (simp add: take_Suc_conv_app_nth)

section \<open>The invariant\<close>

fun inside :: "phase \<Rightarrow> bool" where
  "inside (Copying j) = True"
| "inside Leave = True"
| "inside _ = False"

definition reads_in :: "handler \<Rightarrow> nat" where
  "reads_in c = (if \<not> writes c \<and> inside (phase c) then 1 else 0)"

definition writes_in :: "handler \<Rightarrow> nat" where
  "writes_in c = (if writes c \<and> inside (phase c) then 1 else 0)"

definition lock_ok :: "device \<Rightarrow> bool" where
  "lock_ok s \<longleftrightarrow> readers_in s = sum_list (map reads_in (handlers s)) \<and>
     (if writer_in s then 1 else 0) = sum_list (map writes_in (handlers s)) \<and> (writer_in s \<longrightarrow> readers_in s = 0) \<and>
     (\<forall>c \<in> set (handlers s). locks c)"

lemma sum_list_two:
  assumes "i < length xs" "k < length xs" "i \<noteq> k"
  shows "f (xs ! i) + f (xs ! k) \<le> (sum_list (map f xs) :: nat)"
proof -
  have "(\<Sum>j \<in> {i, k}. f (xs ! j)) \<le> (\<Sum>j \<in> {0..<length xs}. f (xs ! j))" using assms by (intro sum_mono2) auto
  then show ?thesis using assms(3) by (simp add: sum_list_sum_nth)
qed

text \<open>A writer is alone; while a reader is inside, no writer is.\<close>

lemma writer_alone:
  assumes "lock_ok s" "i < length (handlers s)" "writes (handlers s ! i)" "inside (phase (handlers s ! i))"
    "k < length (handlers s)" "k \<noteq> i"
  shows "\<not> inside (phase (handlers s ! k))"
proof
  assume k: "inside (phase (handlers s ! k))"
  have w: "writes_in (handlers s ! i) = 1" using assms(3,4) by (simp add: writes_in_def)
  have two: "writes_in (handlers s ! i) + writes_in (handlers s ! k) \<le> sum_list (map writes_in (handlers s))"
    using assms by (intro sum_list_two) auto
  then have in': "writer_in s" "writes_in (handlers s ! k) = 0" using assms(1) w by (auto simp: lock_ok_def split: if_splits)
  then have "reads_in (handlers s ! k) = 1" using k by (simp add: writes_in_def reads_in_def split: if_splits)
  moreover have "reads_in (handlers s ! k) \<le> sum_list (map reads_in (handlers s))"
    using assms(5) by (intro member_le_sum_list) auto
  ultimately show False using assms(1) in'(1) by (simp add: lock_ok_def)
qed

lemma reader_no_writer:
  assumes "lock_ok s" "i < length (handlers s)" "\<not> writes (handlers s ! i)" "inside (phase (handlers s ! i))"
    "k < length (handlers s)" "writes (handlers s ! k)"
  shows "\<not> inside (phase (handlers s ! k))"
  using writer_alone [OF assms(1,5,6), of i] assms by auto

lemma lock_move:
  assumes "lock_ok s" "i < length (handlers s)" "handlers t = (handlers s)[i := c]" "locks c"
    and "readers_in t + reads_in (handlers s ! i) = readers_in s + reads_in c"
    and "(if writer_in t then 1 else 0) + writes_in (handlers s ! i) = (if writer_in s then 1 else 0) + writes_in c"
    and "writer_in t \<longrightarrow> readers_in t = 0"
  shows "lock_ok t"
proof -
  have "\<forall>x \<in> set (handlers t). locks x"
    using assms(1,3,4) set_update_subset_insert [of "handlers s" i c] by (auto simp: lock_ok_def)
  then show ?thesis using assms sum_list_update [OF assms(2), of reads_in c] sum_list_update [OF assms(2), of writes_in c]
    by (simp add: lock_ok_def)
qed

lemma handlers_goto [simp]: "handlers (goto_h i p s) = (handlers s)[i := (handlers s ! i)\<lparr>phase := p\<rparr>]"
  "test_string (goto_h i p s) = test_string s" "readers_in (goto_h i p s) = readers_in s"
  "writer_in (goto_h i p s) = writer_in s" "versions (goto_h i p s) = versions s"
  by (simp_all add: goto_h_def)

lemma handlers_finish [simp]: "handlers (finish_h i r s) = (handlers s)[i := (handlers s ! i)\<lparr>phase := Out, ret := r\<rparr>]"
  "test_string (finish_h i r s) = test_string s" "readers_in (finish_h i r s) = readers_in s"
  "writer_in (finish_h i r s) = writer_in s" "versions (finish_h i r s) = versions s"
  by (simp_all add: finish_h_def)

lemma step_lock:
  assumes "lock_ok s" "i < length (handlers s)" "handler_step i s = Some t"
  shows "lock_ok t"
proof -
  define c where "c = handlers s ! i"
  have l: "locks c" using assms(1,2) by (simp add: lock_ok_def c_def)
  have mem: "reads_in c \<le> readers_in s" "writes_in c \<le> (if writer_in s then 1 else 0)" "writer_in s \<longrightarrow> readers_in s = 0"
    using assms(1) member_le_sum_list [of "reads_in c" "map reads_in (handlers s)"] member_le_sum_list [of "writes_in c" "map writes_in (handlers s)"] assms(2)
    by (auto simp: lock_ok_def c_def)
  show ?thesis
  proof (cases "phase c")
    case Enter
    show ?thesis
    proof (cases "writes c \<and> 15 < sz c")
      case True
      then show ?thesis using assms(3) l mem Enter
        by (intro lock_move [OF assms(1,2), where c = "c\<lparr>phase := Out, ret := - EINVAL\<rparr>"])
          (auto simp: handler_step_def enter_step_def c_def [symmetric] reads_in_def writes_in_def)
    next
      case False
      then show ?thesis using assms(3) l mem Enter
        by (intro lock_move [OF assms(1,2), where c = "c\<lparr>phase := Copying 0\<rparr>"])
          (auto simp: handler_step_def enter_step_def c_def [symmetric] reads_in_def writes_in_def split: if_splits)
    qed
  next
    case (Copying j)
    then have t: "t = copy_step i j c s" using assms(3) by (simp add: handler_step_def c_def [symmetric])
    show ?thesis
    proof (cases "j < length (bytes c) \<and> \<not> writes c")
      case True
      then show ?thesis using l mem Copying
        by (intro lock_move [OF assms(1,2), where c = "c\<lparr>bytes := (bytes c)[j := test_string s ! (off c + j)], phase := Copying (Suc j)\<rparr>"])
          (simp_all add: t copy_step_def c_def [symmetric] reads_in_def writes_in_def)
    next
      case False
      then show ?thesis using l mem Copying
        by (intro lock_move [OF assms(1,2), where c = "c\<lparr>phase := (if j < length (bytes c) then Copying (Suc j) else Leave)\<rparr>"])
          (simp_all add: t copy_step_def c_def [symmetric] reads_in_def writes_in_def)
    qed
  next
    case Leave
    then show ?thesis using assms(3) l mem
      by (intro lock_move [OF assms(1,2), where c = "c\<lparr>phase := Out, ret := int (length (bytes c))\<rparr>"])
        (auto simp: handler_step_def leave_step_def c_def [symmetric] reads_in_def writes_in_def split: if_splits)
  qed (use assms(3) in \<open>simp add: handler_step_def c_def [symmetric]\<close>)
qed

text \<open>
  What a call has done to its bytes or to the string: \<open>v\<close> is the last version, \<open>vs\<close> are all of them.
\<close>

definition call_ok :: "char list \<Rightarrow> char list list \<Rightarrow> char list \<Rightarrow> handler \<Rightarrow> bool" where
  "call_ok v vs str c \<longleftrightarrow> length (bytes c) \<le> 15 - off c \<and>
     (case phase c of
        Enter \<Rightarrow> True
      | Copying j \<Rightarrow> j \<le> length (bytes c) \<and>
          (if writes c then str = put_at (off c) (take j (bytes c)) v else take j (bytes c) = take j (drop (off c) v))
      | _ \<Rightarrow> \<not> writes c \<longrightarrow> (\<exists>u \<in> set vs. bytes c = take (length (bytes c)) (drop (off c) u)))"

definition copying :: "handler \<Rightarrow> bool" where
  "copying c \<longleftrightarrow> writes c \<and> (\<exists>j. phase c = Copying j)"

definition data_ok :: "device \<Rightarrow> bool" where
  "data_ok s \<longleftrightarrow> versions s \<noteq> [] \<and> length (test_string s) = 15 \<and> length (last (versions s)) = 15 \<and>
     (\<forall>k < length (handlers s). call_ok (last (versions s)) (versions s) (test_string s) (handlers s ! k)) \<and>
     ((\<forall>k < length (handlers s). \<not> copying (handlers s ! k)) \<longrightarrow> test_string s = last (versions s))"

lemma data_move:
  assumes "data_ok s" "i < length (handlers s)" "handlers t = (handlers s)[i := c]"
    and "test_string t = test_string s" "versions t = versions s"
    and "call_ok (last (versions s)) (versions s) (test_string s) c" "copying c = copying (handlers s ! i)"
  shows "data_ok t"
  using assms by (auto simp: data_ok_def nth_list_update)

text \<open>Calls that are not inside do not look at the string.\<close>

lemma call_ok_outside: "call_ok v vs str c \<Longrightarrow> \<not> inside (phase c) \<Longrightarrow> set vs \<subseteq> set ws \<Longrightarrow> call_ok w ws str' c"
  by (auto simp: call_ok_def split: phase.splits)

lemma step_data:
  assumes "lock_ok s" "data_ok s" "i < length (handlers s)" "handler_step i s = Some t"
  shows "data_ok t"
proof -
  define c where "c = handlers s ! i"
  let ?v = "last (versions s)"
  have l: "locks c" using assms(1,3) by (simp add: lock_ok_def c_def)
  have co: "call_ok ?v (versions s) (test_string s) c" and len: "length (test_string s) = 15" "length ?v = 15" "versions s \<noteq> []"
    using assms(2,3) by (simp_all add: data_ok_def c_def)
  show ?thesis
  proof (cases "phase c")
    case Enter
    show ?thesis
    proof (cases "writes c")
      case False
      then show ?thesis using assms(4) l Enter co
        by (intro data_move [OF assms(2,3), where c = "c\<lparr>phase := Copying 0\<rparr>"])
          (auto simp: handler_step_def enter_step_def c_def [symmetric] call_ok_def copying_def split: if_splits)
    next
      case w: True
      show ?thesis
      proof (cases "15 < sz c")
        case True
        then show ?thesis using assms(4) l w Enter co
          by (intro data_move [OF assms(2,3), where c = "c\<lparr>phase := Out, ret := - EINVAL\<rparr>"])
            (auto simp: handler_step_def enter_step_def c_def [symmetric] call_ok_def copying_def)
      next
      case False
      then have t: "t = goto_h i (Copying 0) (s\<lparr>writer_in := True\<rparr>)" "readers_in s = 0" "\<not> writer_in s"
        using assms(4) l Enter w by (auto simp: handler_step_def enter_step_def c_def [symmetric] split: if_splits)
      have "sum_list (map writes_in (handlers s)) = 0" using assms(1) t(3) by (simp add: lock_ok_def)
      then have "writes_in (handlers s ! k) = 0" if "k < length (handlers s)" for k
        using that elem_le_sum_list [of k "map writes_in (handlers s)"] by simp
      then have "\<not> copying (handlers s ! k)" if "k < length (handlers s)" for k
        using that by (fastforce simp: copying_def writes_in_def)
      then have str: "test_string s = ?v" using assms(2) by (simp add: data_ok_def)
      have "call_ok ?v (versions s) (test_string s) (c\<lparr>phase := Copying 0\<rparr>)" using co w Enter str by (simp add: call_ok_def)
      then show ?thesis using assms(2,3) str by (auto simp: data_ok_def t(1) nth_list_update c_def [symmetric])
      qed
    qed
  next
    case Leave
    then show ?thesis using assms(4) l co
      by (intro data_move [OF assms(2,3), where c = "c\<lparr>phase := Out, ret := int (length (bytes c))\<rparr>"])
        (auto simp: handler_step_def leave_step_def c_def [symmetric] call_ok_def copying_def split: if_splits)
  next
    case (Copying j)
    then have t: "t = copy_step i j c s" using assms(4) by (simp add: handler_step_def c_def [symmetric])
    have j: "j \<le> length (bytes c)" "length (bytes c) \<le> 15 - off c" using co Copying by (simp_all add: call_ok_def)
    show ?thesis
    proof (cases "writes c")
      case True
      have str: "test_string s = put_at (off c) (take j (bytes c)) ?v" using co Copying True by (simp add: call_ok_def)
      have out: "call_ok w ws str (handlers s ! k)" if "k < length (handlers s)" "k \<noteq> i" "set (versions s) \<subseteq> set ws" for k w ws str
      proof (rule call_ok_outside)
        show "call_ok ?v (versions s) (test_string s) (handlers s ! k)" using assms(2) that(1) by (simp add: data_ok_def)
        show "\<not> inside (phase (handlers s ! k))" using writer_alone [OF assms(1,3)] that True Copying by (simp add: c_def)
      qed (rule that(3))
      show ?thesis
      proof (cases "j < length (bytes c)")
        case less: True
        have "(test_string s)[off c + j := bytes c ! j] = put_at (off c) (take (Suc j) (bytes c)) ?v"
          unfolding str using less j(2) len(2) by (intro put_at_next) simp_all
        then have "call_ok ?v (versions s) ((test_string s)[off c + j := bytes c ! j]) (c\<lparr>phase := Copying (Suc j)\<rparr>)"
          using less j True by (simp add: call_ok_def)
        moreover have "copying (c\<lparr>phase := Copying (Suc j)\<rparr>)" using True by (simp add: copying_def)
        ultimately show ?thesis using assms(3) out [OF _ _ subset_refl] len less True
          by (auto simp: data_ok_def t copy_step_def c_def [symmetric] nth_list_update)
      next
        case False
        then have "call_ok w ws str (c\<lparr>phase := Leave\<rparr>)" for w ws str using True j(2) by (simp add: call_ok_def)
        moreover have "call_ok w (versions s @ [test_string s]) str (handlers s ! k)" if "k < length (handlers s)" "k \<noteq> i" for k w str
          by (rule out [OF that]) auto
        ultimately show ?thesis using assms(3) len False True
          by (auto simp: data_ok_def t copy_step_def c_def [symmetric] nth_list_update)
      qed
    next
      case False
      have "\<not> copying (handlers s ! k)" if "k < length (handlers s)" for k
        using reader_no_writer [OF assms(1,3) _ _ that] False Copying by (auto simp: copying_def c_def)
      then have str: "test_string s = ?v" using assms(2) by (simp add: data_ok_def)
      have b: "take j (bytes c) = take j (drop (off c) ?v)" using co Copying False by (simp add: call_ok_def)
      show ?thesis
      proof (cases "j < length (bytes c)")
        case less: True
        have "take (Suc j) ((bytes c)[j := drop (off c) ?v ! j]) = take (Suc j) (drop (off c) ?v)"
          using less j(2) len(2) by (intro take_update_next b) simp_all
        moreover have "drop (off c) ?v ! j = test_string s ! (off c + j)" using less j(2) len(2) str by simp
        ultimately have "call_ok ?v (versions s) (test_string s) (c\<lparr>bytes := (bytes c)[j := test_string s ! (off c + j)], phase := Copying (Suc j)\<rparr>)"
          using less j False by (simp add: call_ok_def)
        then show ?thesis using less False
          by (intro data_move [OF assms(2,3), where c = "c\<lparr>bytes := (bytes c)[j := test_string s ! (off c + j)], phase := Copying (Suc j)\<rparr>"])
            (simp_all add: t copy_step_def c_def [symmetric] copying_def)
      next
        case no: False
        have "bytes c = take (length (bytes c)) (drop (off c) ?v)" using b no j(1) by simp
        moreover have "?v \<in> set (versions s)" using len(3) by simp
        ultimately have "call_ok ?v (versions s) (test_string s) (c\<lparr>phase := Leave\<rparr>)" using False j(2) by (auto simp: call_ok_def)
        then show ?thesis using no False
          by (intro data_move [OF assms(2,3), where c = "c\<lparr>phase := Leave\<rparr>"])
            (simp_all add: t copy_step_def c_def [symmetric] copying_def)
      qed
    qed
  qed (use assms(4) in \<open>simp add: handler_step_def c_def [symmetric]\<close>)
qed

section \<open>Versions\<close>

text \<open>Every version is the one before it with the bytes of one of the writing calls put into it.\<close>

definition chain :: "handler list \<Rightarrow> char list list \<Rightarrow> bool" where
  "chain hs vs \<longleftrightarrow> (\<forall>k. Suc k < length vs \<longrightarrow> (\<exists>c \<in> set hs. writes c \<and> vs ! Suc k = put_at (off c) (bytes c) (vs ! k)))"

lemma chain_more:
  assumes "chain hs vs" "vs \<noteq> []" "c \<in> set hs" "writes c"
  shows "chain hs (vs @ [put_at (off c) (bytes c) (last vs)])"
  unfolding chain_def
proof (intro allI impI)
  fix k assume k: "Suc k < length (vs @ [put_at (off c) (bytes c) (last vs)])"
  show "\<exists>d \<in> set hs. writes d \<and> (vs @ [put_at (off c) (bytes c) (last vs)]) ! Suc k =
      put_at (off d) (bytes d) ((vs @ [put_at (off c) (bytes c) (last vs)]) ! k)"
  proof (cases "Suc k < length vs")
    case True
    then show ?thesis using assms(1) by (auto simp: chain_def nth_append)
  next
    case False
    then have n: "length vs = Suc k" using k by simp
    then have "Suc k = length vs" "vs ! k = last vs" using assms(2) by (simp_all add: last_conv_nth)
    then show ?thesis using assms(3,4) by (auto simp: nth_append intro!: bexI [of _ c])
  qed
qed

text \<open>What a call keeps for all time.\<close>

definition task :: "handler \<Rightarrow> bool \<times> bool \<times> nat \<times> nat \<times> nat \<times> char list" where
  "task c = (writes c, locks c, off c, sz c, length (bytes c), if writes c then bytes c else [])"

lemma task_same: "i < length hs \<Longrightarrow> task c = task (hs ! i) \<Longrightarrow> map task (hs[i := c]) = map task hs"
  by (simp add: map_update list_update_same_conv)

lemma step_tasks: "i < length (handlers s) \<Longrightarrow> handler_step i s = Some t \<Longrightarrow> map task (handlers t) = map task (handlers s)"
  by (cases "phase (handlers s ! i)")
    (auto simp: handler_step_def enter_step_def copy_step_def leave_step_def task_def Let_def intro!: task_same split: if_splits)

lemma step_versions:
  assumes "data_ok s" "i < length (handlers s)" "handler_step i s = Some t" "chain (handlers s) (versions s)"
  shows "chain (handlers s) (versions t)"
proof (cases "versions t = versions s")
  case False
  let ?c = "handlers s ! i"
  obtain j where j: "phase ?c = Copying j" "\<not> j < length (bytes ?c)" "writes ?c" "versions t = versions s @ [test_string s]"
    using assms(3) False
    by (cases "phase ?c") (auto simp: handler_step_def enter_step_def copy_step_def leave_step_def Let_def split: if_splits)
  have "call_ok (last (versions s)) (versions s) (test_string s) ?c" "versions s \<noteq> []" using assms(1,2) by (simp_all add: data_ok_def)
  then have "test_string s = put_at (off ?c) (bytes ?c) (last (versions s))" "versions s \<noteq> []" using j by (simp_all add: call_ok_def)
  then show ?thesis using chain_more [OF assms(4) _ _ j(3)] assms(2) j(4) by simp
qed (use assms(4) in simp)

lemma chain_tasks: "map task hs = map task hs' \<Longrightarrow> chain hs vs \<Longrightarrow> chain hs' vs"
proof -
  assume m: "map task hs = map task hs'" and ch: "chain hs vs"
  have "\<exists>d \<in> set hs'. writes d \<and> off d = off c \<and> bytes d = bytes c" if "c \<in> set hs" "writes c" for c
  proof -
    have "task c \<in> task ` set hs'" using that(1) m by (metis image_eqI set_map)
    then show ?thesis using that(2) by (auto simp: task_def split: if_splits)
  qed
  then show ?thesis using ch unfolding chain_def by metis
qed

definition device_inv :: "handler list \<Rightarrow> device \<Rightarrow> bool" where
  "device_inv hs s \<longleftrightarrow> lock_ok s \<and> data_ok s \<and> map task (handlers s) = map task hs \<and> chain hs (versions s)"

lemma device_start_inv:
  assumes "device_init hs s" "\<forall>c \<in> set hs. locks c"
  shows "device_inv hs s"
proof -
  obtain str where s: "length str = 15" "s = device_start str hs" "\<forall>c \<in> set hs. phase c = Enter \<and> length (bytes c) \<le> 15 - off c"
    using assms(1) by (auto simp: device_init_def)
  have "map reads_in hs = map (\<lambda>_. 0) hs" "map writes_in hs = map (\<lambda>_. 0) hs"
    using s(3) by (auto simp: reads_in_def writes_in_def)
  then have z: "sum_list (map reads_in hs) = 0" "sum_list (map writes_in hs) = 0" by simp_all
  have "lock_ok s" using z assms(2) by (simp add: lock_ok_def s(2) device_start_def)
  moreover have "data_ok s" using s(1,3) by (simp add: data_ok_def s(2) device_start_def call_ok_def)
  ultimately show ?thesis by (simp add: device_inv_def chain_def s(2) device_start_def)
qed

lemma step_inv:
  assumes "device_inv hs s" "device_step s t"
  shows "device_inv hs t"
  using assms(2)
proof (rule device_stepE)
  fix i assume i: "i < length (handlers s)" "handler_step i s = Some t"
  have s: "lock_ok s" "data_ok s" "map task (handlers s) = map task hs" "chain hs (versions s)" using assms(1) by (simp_all add: device_inv_def)
  have "chain (handlers s) (versions t)" using step_versions [OF s(2) i] chain_tasks [OF s(3) [symmetric] s(4)] by blast
  then have "chain hs (versions t)" using chain_tasks [OF s(3)] by blast
  then show ?thesis using step_lock [OF s(1) i] step_data [OF s(1,2) i] step_tasks [OF i] s(3) by (simp add: device_inv_def)
qed

interpretation device_sys: inductive_invariant "\<lambda>s. device_init hs s \<and> (\<forall>c \<in> set hs. locks c)" device_step "device_inv hs" for hs
  by unfold_locales (auto intro: device_start_inv step_inv)

text \<open>
  C13. When all handlers take the lock, as in the first of the two modules, every read is atomic however the
  calls interleave: what a reader has got is a piece of one version of the string, and each version is the
  one before it with the bytes of a single write put into it.
\<close>

theorem locked_reads_atomic:
  assumes "reach (\<lambda>s. device_init hs s \<and> (\<forall>c \<in> set hs. locks c)) device_step s"
    "i < length (handlers s)" "\<not> writes (handlers s ! i)" "phase (handlers s ! i) \<in> {Leave, Out}"
  shows "(\<exists>u \<in> set (versions s). bytes (handlers s ! i) = take (length (bytes (handlers s ! i))) (drop (off (handlers s ! i)) u)) \<and>
    chain hs (versions s)"
proof -
  have inv: "device_inv hs s" by (rule device_sys.always [OF assms(1)])
  then have "call_ok (last (versions s)) (versions s) (test_string s) (handlers s ! i)"
    using assms(2) by (simp add: device_inv_def data_ok_def)
  then show ?thesis using inv assms(3,4) by (auto simp: call_ok_def device_inv_def)
qed

definition reader_of :: "bool \<Rightarrow> nat \<Rightarrow> char list \<Rightarrow> handler" where
  "reader_of l n b = \<lparr>writes = False, locks = l, off = n, sz = length b, bytes = take (15 - n) b, phase = Enter, ret = 0\<rparr>"

definition writer_of :: "bool \<Rightarrow> nat \<Rightarrow> char list \<Rightarrow> handler" where
  "writer_of l n b = \<lparr>writes = True, locks = l, off = n, sz = length b, bytes = take (15 - n) b, phase = Enter, ret = 0\<rparr>"

definition hello15 :: "char list" where
  "hello15 = ''Hello'' @ [NL] @ replicate 9 NUL"

text \<open>Runs: the calls that move, one after the other.\<close>

fun run_handlers :: "nat list \<Rightarrow> device \<Rightarrow> device option" where
  "run_handlers [] s = Some s"
| "run_handlers (i # is) s = (if i < length (handlers s) then do { t \<leftarrow> handler_step i s; run_handlers is t } else None)"

lemma run_handlers_steps: "run_handlers is s = Some t \<Longrightarrow> device_step\<^sup>*\<^sup>* s t"
proof (induction "is" arbitrary: s)
  case (Cons i "is")
  then obtain u where "i < length (handlers s)" "handler_step i s = Some u" "run_handlers is u = Some t"
    by (auto simp: bind_eq_Some_conv' split: if_splits)
  then show ?case using Cons.IH by_handler by (meson converse_rtranclp_into_rtranclp)
qed simp

lemma run_handlers_reach: "run_handlers is s = Some t \<Longrightarrow> reach init device_step s \<Longrightarrow> reach init device_step t"
  using run_handlers_steps reach_steps by metis

lemmas handler_defs = handler_step_def enter_step_def copy_step_def leave_step_def goto_h_def finish_h_def

theorem locked_reads_atomic_witness:
  "\<exists>s. device_step\<^sup>*\<^sup>* (device_start hello15 [reader_of True 0 ''..'', writer_of True 0 ''xy'']) s \<and>
    bytes (handlers s ! 0) = ''He'' \<and> (\<exists>u \<in> set (versions s). ''He'' = take 2 u)"
proof -
  let ?hs = "[reader_of True 0 ''..'', writer_of True 0 ''xy'']"
  have "\<exists>s. run_handlers [0, 0, 0, 0] (device_start hello15 ?hs) = Some s \<and> length (handlers s) = 2 \<and>
      bytes (handlers s ! 0) = ''He'' \<and> \<not> writes (handlers s ! 0) \<and> phase (handlers s ! 0) = Leave \<and> off (handlers s ! 0) = 0"
    by (simp add: device_start_def reader_of_def writer_of_def hello15_def handler_defs numeral_2_eq_2)
  then obtain s where s: "run_handlers [0, 0, 0, 0] (device_start hello15 ?hs) = Some s" "length (handlers s) = 2"
      "bytes (handlers s ! 0) = ''He''" "\<not> writes (handlers s ! 0)" "phase (handlers s ! 0) = Leave" "off (handlers s ! 0) = 0" by blast
  have "length hello15 = 15" by (simp add: hello15_def)
  then have "device_init ?hs (device_start hello15 ?hs) \<and> (\<forall>c \<in> set ?hs. locks c)"
    unfolding device_init_def by (auto simp: reader_of_def writer_of_def)
  then have "reach (\<lambda>s. device_init ?hs s \<and> (\<forall>c \<in> set ?hs. locks c)) device_step s"
    by (intro run_handlers_reach [OF s(1)] reach_init)
  from locked_reads_atomic [OF this, of 0] s show ?thesis using run_handlers_steps [OF s(1)] by (intro exI [of _ s]) (simp add: numeral_2_eq_2)
qed

text \<open>
  C40. The second module does not lock the handlers of \<open>/proc\<close>: a read of the device that holds the lock can
  still get a mixture of two versions that the string never had.
\<close>

theorem proc_write_tears:
  "\<exists>s. device_step\<^sup>*\<^sup>* (device_start hello15 [reader_of True 0 ''..'', writer_of False 0 ''xy'']) s \<and>
    phase (handlers s ! 0) = Out \<and> phase (handlers s ! 1) = Out \<and> bytes (handlers s ! 0) = ''Hy'' \<and>
    bytes (handlers s ! 0) \<notin> set (map (take 2) (versions s))"
proof -
  let ?s = "device_start hello15 [reader_of True 0 ''..'', writer_of False 0 ''xy'']"
  have "\<exists>s. run_handlers [0, 0, 1, 1, 1, 1, 1, 0, 0, 0] ?s = Some s \<and> phase (handlers s ! 0) = Out \<and> phase (handlers s ! 1) = Out \<and>
      bytes (handlers s ! 0) = ''Hy'' \<and> bytes (handlers s ! 0) \<notin> set (map (take 2) (versions s))"
    by (simp add: device_start_def reader_of_def writer_of_def hello15_def handler_defs)
  then show ?thesis using run_handlers_steps by blast
qed

section \<open>Calls in some order\<close>

text \<open>
  A call of \<open>read\<close> or \<open>write\<close> on the device: the memory of the user, as many bytes as the size of the call, and the
  offset.  \<open>atomic_call\<close> is what the handlers of \<open>Modules\<close> do, which copy at once: the result, the bytes read, the string.
\<close>

datatype call = ReadDev "char list" nat | WriteDev "char list" nat

fun handler_of :: "call \<Rightarrow> handler" where
  "handler_of (ReadDev b n) = reader_of True n b"
| "handler_of (WriteDev d n) = writer_of True n d"

fun atomic_call :: "kernel \<Rightarrow> call \<Rightarrow> char list \<Rightarrow> int \<times> char list \<times> char list" where
  "atomic_call k (ReadDev b n) str = (case test_read k (length b) (int n) str of (r, d, _) \<Rightarrow> (r, d, str))"
| "atomic_call k (WriteDev d n) str = (case test_write k d (length d) (int n) str of (r, str', _) \<Rightarrow> (r, [], str'))"

text \<open>The string after the calls \<open>is\<close>, one after the other.\<close>

definition after :: "kernel \<Rightarrow> call list \<Rightarrow> nat list \<Rightarrow> char list \<Rightarrow> char list" where
  "after k cs is str = fold (\<lambda>i s. snd (snd (atomic_call k (cs ! i) s))) is str"

lemma after_more: "after k cs (is @ [i]) str = snd (snd (atomic_call k (cs ! i) (after k cs is str)))"
  by (simp add: after_def)

text \<open>What the copying functions do with an offset behind the end, besides \<open>kernel_laws\<close>: nothing.\<close>

definition past_end_laws :: "kernel \<Rightarrow> bool" where
  "past_end_laws k \<longleftrightarrow> (\<forall>n sz str. length str < n \<longrightarrow> read_from k sz (int n) str (length str) = (0, [], int n)) \<and>
     (\<forall>n buff sz str. length str < n \<longrightarrow> write_to k str (length str) (int n) buff sz = (0, str, int n))"

lemma past_endD:
  assumes "past_end_laws k" "length str < n"
  shows "read_from k m (int n) str (length str) = (0, [], int n)" "write_to k str (length str) (int n) buff m = (0, str, int n)"
  using assms unfolding past_end_laws_def by blast+

lemma atomic_read:
  assumes "kernel_laws k" "past_end_laws k" "length str = 15"
  shows "atomic_call k (ReadDev b n) str = (int (min (length b) (15 - n)), take (length b) (drop n str), str)"
proof (cases "n \<le> 15")
  case True
  then show ?thesis using read_law [OF assms(1), of n str "length b"] assms(3) by (simp add: test_read_def)
next
  case False
  then have "read_from k (length b) (int n) str (length str) = (0, [], int n)"
    using assms(3) past_endD(1) [OF assms(2)] by (metis not_le)
  then show ?thesis using False assms(3) by (simp add: test_read_def)
qed

lemma atomic_write:
  assumes "kernel_laws k" "past_end_laws k" "length str = 15"
  shows "atomic_call k (WriteDev d n) str =
    (if 15 < length d then (- EINVAL, [], str) else (int (min (length d) (15 - n)), [], put_at n (take (15 - n) d) str))"
proof (cases "n \<le> 15")
  case True
  then show ?thesis using write_law [OF assms(1), of n str d] assms(3) by (auto simp: test_write_def put_at_def min_def)
next
  case False
  then have "write_to k str (length str) (int n) d (length d) = (0, str, int n)"
    using assms(3) past_endD(2) [OF assms(2)] by (metis not_le)
  then show ?thesis using False assms(3) by (simp add: test_write_def)
qed

text \<open>The call has got what the handler that copies at once returns; it has it already when it gives back the lock.\<close>

definition answered :: "call \<Rightarrow> handler \<Rightarrow> int \<times> char list \<times> char list \<Rightarrow> bool" where
  "answered c h a \<longleftrightarrow> (if phase h = Out then ret h else int (length (bytes h))) = fst a \<and>
     (case c of ReadDev b n \<Rightarrow> bytes h = fst (snd a) | WriteDev d n \<Rightarrow> True)"

definition finished :: "handler \<Rightarrow> bool" where
  "finished h \<longleftrightarrow> phase h \<in> {Leave, Out}"

definition in_order :: "kernel \<Rightarrow> call list \<Rightarrow> char list \<Rightarrow> device \<Rightarrow> nat list \<Rightarrow> bool" where
  "in_order k cs str s is \<longleftrightarrow> distinct is \<and> (\<forall>i. i \<in> set is \<longleftrightarrow> i < length cs \<and> finished (handlers s ! i)) \<and>
     (\<forall>p < length is. answered (cs ! (is ! p)) (handlers s ! (is ! p)) (atomic_call k (cs ! (is ! p)) (after k cs (take p is) str)))"

lemma in_order_same:
  assumes "in_order k cs str s is" "i < length (handlers s)" "handlers t = (handlers s)[i := c]" "\<not> finished (handlers s ! i)" "\<not> finished c"
  shows "in_order k cs str t is"
proof -
  have "i \<notin> set is" using assms(1,4) by (simp add: in_order_def)
  moreover from this have "is ! p \<noteq> i" if "p < length is" for p using that by auto
  ultimately show ?thesis using assms by (auto simp: in_order_def nth_list_update)
qed

lemma in_order_more:
  assumes "in_order k cs str s is" "i < length (handlers s)" "handlers t = (handlers s)[i := c]" "\<not> finished (handlers s ! i)" "finished c"
    and "length (handlers s) = length cs" "answered (cs ! i) c (atomic_call k (cs ! i) (after k cs is str))"
  shows "in_order k cs str t (is @ [i])"
proof -
  have i: "i \<notin> set is" using assms(1,4) by (simp add: in_order_def)
  moreover from this have "is ! p \<noteq> i" if "p < length is" for p using that by auto
  ultimately show ?thesis using assms by (auto simp: in_order_def nth_list_update nth_append less_Suc_eq)
qed

lemma in_order_back:
  assumes "in_order k cs str s is" "i < length (handlers s)" "phase (handlers s ! i) = Leave"
    and "handlers t = (handlers s)[i := (handlers s ! i)\<lparr>phase := Out, ret := int (length (bytes (handlers s ! i)))\<rparr>]"
  shows "in_order k cs str t is"
proof -
  have o: "answered c ((handlers s ! i)\<lparr>phase := Out, ret := int (length (bytes (handlers s ! i)))\<rparr>) a = answered c (handlers s ! i) a" for c a
    using assms(3) by (cases c) (simp_all add: answered_def)
  have "answered c (handlers t ! j) a = answered c (handlers s ! j) a" "finished (handlers t ! j) = finished (handlers s ! j)" for c j a
    using assms(2,3) o by (cases "j = i"; simp add: assms(4) finished_def)+
  then show ?thesis using assms(1) by (simp add: in_order_def)
qed

text \<open>The string that the calls in this order leave is the last version.\<close>

definition linear :: "kernel \<Rightarrow> call list \<Rightarrow> char list \<Rightarrow> device \<Rightarrow> bool" where
  "linear k cs str s \<longleftrightarrow> kernel_laws k \<and> past_end_laws k \<and> device_inv (map handler_of cs) s \<and>
     (\<forall>h \<in> set (handlers s). writes h \<and> inside (phase h) \<longrightarrow> sz h \<le> 15) \<and>
     (\<exists>is. in_order k cs str s is \<and> after k cs is str = last (versions s))"

lemma linearI:
  "kernel_laws k \<Longrightarrow> past_end_laws k \<Longrightarrow> device_inv (map handler_of cs) s \<Longrightarrow>
    (\<forall>h \<in> set (handlers s). writes h \<and> inside (phase h) \<longrightarrow> sz h \<le> 15) \<Longrightarrow> in_order k cs str s is \<Longrightarrow> after k cs is str = last (versions s) \<Longrightarrow> linear k cs str s"
  unfolding linear_def by blast

lemma task_of:
  assumes "device_inv (map handler_of cs) s" "i < length (handlers s)"
  shows "length (handlers s) = length cs" "task (handlers s ! i) = task (handler_of (cs ! i))"
proof -
  have m: "map task (handlers s) = map task (map handler_of cs)" using assms(1) by (simp add: device_inv_def)
  show "length (handlers s) = length cs" using arg_cong [OF m, of length] by simp
  then show "task (handlers s ! i) = task (handler_of (cs ! i))" using arg_cong [OF m, of "\<lambda>l. l ! i"] assms(2) by simp
qed

text \<open>When the copying of a call is complete, the last version makes the answer.\<close>

lemma copied_answered:
  assumes "linear k cs str s" "i < length (handlers s)" "phase (handlers s ! i) = Copying (length (bytes (handlers s ! i)))"
  shows "answered (cs ! i) ((handlers s ! i)\<lparr>phase := Leave\<rparr>) (atomic_call k (cs ! i) (last (versions s)))"
    "snd (snd (atomic_call k (cs ! i) (last (versions s)))) = (if writes (handlers s ! i) then test_string s else last (versions s))"
proof -
  define h where "h = handlers s ! i"
  let ?v = "last (versions s)"
  have d: "call_ok ?v (versions s) (test_string s) h" "length ?v = 15" and inv: "device_inv (map handler_of cs) s"
    and laws: "kernel_laws k" "past_end_laws k"
    using assms(1,2) by (simp_all add: linear_def device_inv_def data_ok_def h_def)
  note laws = atomic_read [OF laws d(2)] atomic_write [OF laws d(2)]
  have t: "task h = task (handler_of (cs ! i))" unfolding h_def by (rule task_of(2) [OF inv assms(2)])
  have small: "writes h \<longrightarrow> sz h \<le> 15" using assms(1-3) by (simp add: linear_def h_def)
  have c: "if writes h then test_string s = put_at (off h) (bytes h) ?v else bytes h = take (length (bytes h)) (drop (off h) ?v)"
    using d(1) assms(3) by (simp add: call_ok_def h_def [symmetric] split: if_splits)
  show "answered (cs ! i) ((handlers s ! i)\<lparr>phase := Leave\<rparr>) (atomic_call k (cs ! i) ?v)"
    "snd (snd (atomic_call k (cs ! i) ?v)) = (if writes (handlers s ! i) then test_string s else ?v)"
  proof (atomize (full), cases "cs ! i")
    case (ReadDev b n)
    then have h: "\<not> writes h" "off h = n" "length (bytes h) = min (length b) (15 - n)" using t by (simp_all add: task_def reader_of_def min.commute)
    moreover have "take (min (length b) (15 - n)) (drop n ?v) = take (length b) (drop n ?v)" using d(2) by (simp add: min_def)
    ultimately show "answered (cs ! i) ((handlers s ! i)\<lparr>phase := Leave\<rparr>) (atomic_call k (cs ! i) ?v) \<and>
        snd (snd (atomic_call k (cs ! i) ?v)) = (if writes (handlers s ! i) then test_string s else ?v)"
      using c by (simp add: answered_def ReadDev laws h_def del: atomic_call.simps)
  next
    case (WriteDev e n)
    then have h: "writes h" "off h = n" "sz h = length e" "bytes h = take (15 - n) e" using t by (simp_all add: task_def writer_of_def split: if_splits)
    then show "answered (cs ! i) ((handlers s ! i)\<lparr>phase := Leave\<rparr>) (atomic_call k (cs ! i) ?v) \<and>
        snd (snd (atomic_call k (cs ! i) ?v)) = (if writes (handlers s ! i) then test_string s else ?v)"
      using c small by (simp add: answered_def WriteDev laws h_def min.commute del: atomic_call.simps)
  qed
qed


lemma small_kept:
  assumes "\<forall>h \<in> set (handlers s). writes h \<and> inside (phase h) \<longrightarrow> sz h \<le> 15" "i < length (handlers s)" "locks (handlers s ! i)"
    "handler_step i s = Some t"
  shows "\<forall>h \<in> set (handlers t). writes h \<and> inside (phase h) \<longrightarrow> sz h \<le> 15"
proof -
  have h: "writes (handlers s ! i) \<and> inside (phase (handlers s ! i)) \<longrightarrow> sz (handlers s ! i) \<le> 15" using assms(1,2) by simp
  have "\<exists>c. handlers t = (handlers s)[i := c] \<and> (writes c \<and> inside (phase c) \<longrightarrow> sz c \<le> 15)"
    using assms(3,4) h by (cases "phase (handlers s ! i)")
      (auto simp: handler_step_def enter_step_def copy_step_def leave_step_def Let_def split: if_splits)
  then show ?thesis using assms(1) set_update_subset_insert by fastforce
qed

lemma step_linear:
  assumes "linear k cs str s" "device_step s t"
  shows "linear k cs str t"
  using assms(2)
proof (rule device_stepE)
  fix i assume i: "i < length (handlers s)" "handler_step i s = Some t"
  define h where "h = handlers s ! i"
  obtain "is" where o: "in_order k cs str s is" "after k cs is str = last (versions s)"
    and laws: "kernel_laws k" "past_end_laws k" and inv: "device_inv (map handler_of cs) s"
    and small: "\<forall>h \<in> set (handlers s). writes h \<and> inside (phase h) \<longrightarrow> sz h \<le> 15"
    using assms(1) by (auto simp: linear_def)
  have l: "locks h" using inv i(1) by (simp add: device_inv_def lock_ok_def h_def)
  have len: "length (handlers s) = length cs" and tk: "task h = task (handler_of (cs ! i))"
    using task_of [OF inv i(1)] by (simp_all add: h_def)
  have v15: "length (last (versions s)) = 15" using inv by (simp add: device_inv_def data_ok_def)
  have "\<exists>is. in_order k cs str t is \<and> after k cs is str = last (versions t)"
  proof (cases "phase h")
    case Enter
    then have nf: "\<not> finished (handlers s ! i)" by (simp add: finished_def h_def)
    show ?thesis
    proof (cases "writes h \<and> 15 < sz h")
      case True
      then have t: "t = finish_h i (- EINVAL) s" using i(2) l Enter by (simp add: handler_step_def enter_step_def h_def Let_def)
      obtain d n where c: "cs ! i = WriteDev d n" "15 < length d" using tk True by (cases "cs ! i") (auto simp: task_def reader_of_def writer_of_def)
      have a: "atomic_call k (cs ! i) (last (versions s)) = (- EINVAL, [], last (versions s))"
        using atomic_write [OF laws v15] c by simp
      have "in_order k cs str t (is @ [i])"
        by (rule in_order_more [OF o(1) i(1) _ nf _ len, where c = "h\<lparr>phase := Out, ret := - EINVAL\<rparr>"])
          (simp_all add: t h_def finished_def answered_def o(2) a, simp add: c)
      moreover have "after k cs (is @ [i]) str = last (versions t)" by (simp add: after_more o(2) a t)
      ultimately show ?thesis by blast
    next
      case False
      then have "handlers t = (handlers s)[i := h\<lparr>phase := Copying 0\<rparr>]" "versions t = versions s"
        using i(2) l Enter by (auto simp: handler_step_def enter_step_def h_def Let_def split: if_splits)
      then show ?thesis using in_order_same [OF o(1) i(1) _ nf, of t "h\<lparr>phase := Copying 0\<rparr>"] o(2) by (auto simp: finished_def)
    qed
  next
    case (Copying j)
    then have nf: "\<not> finished (handlers s ! i)" and t: "t = copy_step i j h s" using i(2) by (simp_all add: finished_def h_def handler_step_def)
    show ?thesis
    proof (cases "j < length (bytes h)")
      case True
      then obtain c where c: "handlers t = (handlers s)[i := c]" "phase c = Copying (Suc j)" and v: "versions t = versions s"
        by (cases "writes h") (auto simp: t copy_step_def h_def)
      have "in_order k cs str t is" by (rule in_order_same [OF o(1) i(1) c(1) nf]) (simp add: finished_def c(2))
      then show ?thesis using o(2) v by auto
    next
      case False
      have "j \<le> length (bytes h)" using inv i(1) Copying by (auto simp: device_inv_def data_ok_def call_ok_def h_def)
      then have "phase (handlers s ! i) = Copying (length (bytes (handlers s ! i)))" using False Copying by (simp add: h_def)
      note a = copied_answered [OF assms(1) i(1) this]
      have "in_order k cs str t (is @ [i])"
        by (rule in_order_more [OF o(1) i(1) _ nf _ len, where c = "h\<lparr>phase := Leave\<rparr>"])
          (use False a(1) in \<open>simp_all add: t copy_step_def h_def finished_def o(2)\<close>)
      moreover have "after k cs (is @ [i]) str = last (versions t)"
        using False a(2) by (simp add: after_more o(2) t copy_step_def h_def)
      ultimately show ?thesis by blast
    qed
  next
    case Leave
    then have "handlers t = (handlers s)[i := h\<lparr>phase := Out, ret := int (length (bytes h))\<rparr>]" "versions t = versions s"
      using i(2) by (auto simp: handler_step_def leave_step_def h_def Let_def)
    then show ?thesis using in_order_back [OF o(1) i(1), of t] Leave o(2) by (auto simp: h_def)
  qed (use i(2) in \<open>simp add: handler_step_def h_def\<close>)
  then show ?thesis using linearI [OF laws step_inv [OF inv assms(2)] small_kept [OF small i(1) _ i(2)]] l by (auto simp: h_def)
qed


definition calls_init :: "kernel \<Rightarrow> call list \<Rightarrow> char list \<Rightarrow> device \<Rightarrow> bool" where
  "calls_init k cs str s \<longleftrightarrow> kernel_laws k \<and> past_end_laws k \<and> length str = 15 \<and> s = device_start str (map handler_of cs)"

lemma handler_of_fresh: "phase (handler_of c) = Enter" "locks (handler_of c)" "length (bytes (handler_of c)) \<le> 15 - off (handler_of c)"
  by (cases c; simp add: reader_of_def writer_of_def)+

lemma calls_init_linear:
  assumes "calls_init k cs str s"
  shows "linear k cs str s"
proof (rule linearI)
  have "device_init (map handler_of cs) s" using assms by (auto simp: calls_init_def device_init_def handler_of_fresh)
  then show "device_inv (map handler_of cs) s" by (rule device_start_inv) (auto simp: handler_of_fresh)
  show "in_order k cs str s []" using assms by (simp add: calls_init_def in_order_def device_start_def finished_def handler_of_fresh)
qed (use assms in \<open>auto simp: calls_init_def device_start_def handler_of_fresh after_def\<close>)

interpretation linear_sys: inductive_invariant "calls_init k cs str" device_step "linear k cs str" for k cs str
  by unfold_locales (auto intro: calls_init_linear step_linear)

text \<open>
  C30. The lock makes the calls on the device atomic.  Any calls of \<open>read\<close> and \<open>write\<close>, with any sizes and offsets,
  overlapping in any way, have the effect of the handlers that copy at once, one after the other in some order: each call has returned
  the result and the bytes that its handler gives in its turn, and when no writer is copying, the string is the one that the calls so far
  leave.  In particular a write of more than 15 bytes gets \<open>-EINVAL\<close> and changes nothing.
\<close>

theorem calls_linearize:
  assumes "reach (calls_init k cs str) device_step s"
  shows "\<exists>is. distinct is \<and> (\<forall>i. i \<in> set is \<longleftrightarrow> i < length cs \<and> phase (handlers s ! i) \<in> {Leave, Out}) \<and>
    (\<forall>p < length is. phase (handlers s ! (is ! p)) = Out \<longrightarrow>
       ret (handlers s ! (is ! p)) = fst (atomic_call k (cs ! (is ! p)) (after k cs (take p is) str)) \<and>
       (\<forall>b n. cs ! (is ! p) = ReadDev b n \<longrightarrow> bytes (handlers s ! (is ! p)) = fst (snd (atomic_call k (cs ! (is ! p)) (after k cs (take p is) str)))) \<and>
       (\<forall>d n. cs ! (is ! p) = WriteDev d n \<and> 15 < length d \<longrightarrow>
          ret (handlers s ! (is ! p)) = -22 \<and> after k cs (take (Suc p) is) str = after k cs (take p is) str)) \<and>
    ((\<forall>i < length cs. writes (handlers s ! i) \<longrightarrow> (\<nexists>j. phase (handlers s ! i) = Copying j)) \<longrightarrow> test_string s = after k cs is str)"
proof -
  have lin: "linear k cs str s" by (rule linear_sys.always [OF assms])
  then obtain "is" where o: "in_order k cs str s is" "after k cs is str = last (versions s)"
    and laws: "kernel_laws k" "past_end_laws k" and inv: "device_inv (map handler_of cs) s" by (auto simp: linear_def)
  have str: "length str = 15" using assms by (induction rule: reach.induct) (simp_all add: calls_init_def)
  have l15: "length (after k cs js str) = 15" for js
  proof (induction js rule: rev_induct)
    case (snoc i js)
    then show ?case using atomic_read [OF laws snoc] atomic_write [OF laws snoc]
      by (cases "cs ! i") (auto simp: after_more put_at_def simp del: atomic_call.simps)
  qed (simp add: after_def str)
  have "map task (handlers s) = map task (map handler_of cs)" using inv by (simp add: device_inv_def)
  from arg_cong [OF this, of length] have len: "length (handlers s) = length cs" by simp
  have "test_string s = after k cs is str" if "\<forall>i < length cs. writes (handlers s ! i) \<longrightarrow> (\<nexists>j. phase (handlers s ! i) = Copying j)"
    using inv that len o(2) by (simp add: device_inv_def data_ok_def copying_def)
  moreover have "ret (handlers s ! (is ! p)) = -22 \<and> after k cs (take (Suc p) is) str = after k cs (take p is) str"
    if "p < length is" "phase (handlers s ! (is ! p)) = Out" "cs ! (is ! p) = WriteDev d n" "15 < length d" for p d n
  proof -
    have a: "atomic_call k (cs ! (is ! p)) (after k cs (take p is) str) = (- EINVAL, [], after k cs (take p is) str)"
      using atomic_write [OF laws l15] that(3,4) by simp
    moreover have "answered (cs ! (is ! p)) (handlers s ! (is ! p)) (atomic_call k (cs ! (is ! p)) (after k cs (take p is) str))"
      using o(1) that(1) by (simp add: in_order_def)
    ultimately show ?thesis using that(1,2) by (simp add: answered_def take_Suc_conv_app_nth after_more EINVAL_def)
  qed
  moreover have "distinct is" "\<forall>i. i \<in> set is \<longleftrightarrow> i < length cs \<and> phase (handlers s ! i) \<in> {Leave, Out}"
    "\<forall>p < length is. answered (cs ! (is ! p)) (handlers s ! (is ! p)) (atomic_call k (cs ! (is ! p)) (after k cs (take p is) str))"
    using o(1) by (simp_all add: in_order_def finished_def)
  moreover from this(3) have "ret (handlers s ! (is ! p)) = fst (atomic_call k (cs ! (is ! p)) (after k cs (take p is) str))"
    "cs ! (is ! p) = ReadDev b n \<Longrightarrow> bytes (handlers s ! (is ! p)) = fst (snd (atomic_call k (cs ! (is ! p)) (after k cs (take p is) str)))"
    if "p < length is" "phase (handlers s ! (is ! p)) = Out" for p b n
    using that by (auto simp: answered_def simp del: atomic_call.simps)
  ultimately show ?thesis by (intro exI [of _ "is"] conjI allI impI) (blast | simp)+
qed

lemma simple_past_end: "past_end_laws simple_kernel"
  by (auto simp: past_end_laws_def simple_kernel_def Let_def)

text \<open>A read of three bytes, a write of two that is overtaken, and a write of 16 bytes that is refused.\<close>

theorem calls_linearize_witness:
  "\<exists>s is. reach (calls_init simple_kernel [WriteDev ''xy'' 0, ReadDev ''...'' 0, WriteDev (replicate 16 CHR ''z'') 0] hello15) device_step s \<and>
    (\<forall>i < 3. phase (handlers s ! i) = Out) \<and> ret (handlers s ! 2) = -22 \<and> bytes (handlers s ! 1) = ''Hel'' \<and>
    set is = {0, 1, 2} \<and> test_string s = after simple_kernel [WriteDev ''xy'' 0, ReadDev ''...'' 0, WriteDev (replicate 16 CHR ''z'') 0] is hello15"
proof -
  let ?cs = "[WriteDev ''xy'' 0, ReadDev ''...'' 0, WriteDev (replicate 16 CHR ''z'') 0]"
  have "\<exists>s. run_handlers [1, 1, 2, 1, 1, 1, 1, 0, 0, 0, 0, 0] (device_start hello15 (map handler_of ?cs)) = Some s \<and>
      (\<forall>i < 3. phase (handlers s ! i) = Out) \<and> ret (handlers s ! 2) = -22 \<and> bytes (handlers s ! 1) = ''Hel''"
    by (simp add: device_start_def reader_of_def writer_of_def hello15_def handler_defs EINVAL_def less_Suc_eq numeral_eq_Suc)
  then obtain s where s: "run_handlers [1, 1, 2, 1, 1, 1, 1, 0, 0, 0, 0, 0] (device_start hello15 (map handler_of ?cs)) = Some s"
      "\<forall>i < 3. phase (handlers s ! i) = Out" "ret (handlers s ! 2) = -22" "bytes (handlers s ! 1) = ''Hel''" by blast
  have "calls_init simple_kernel ?cs hello15 (device_start hello15 (map handler_of ?cs))"
    by (simp add: calls_init_def simple_kernel_laws simple_past_end hello15_def)
  then have r: "reach (calls_init simple_kernel ?cs hello15) device_step s" by (intro run_handlers_reach [OF s(1)] reach_init)
  from calls_linearize [OF r] obtain "is" where i: "\<forall>i. i \<in> set is \<longleftrightarrow> i < length ?cs \<and> phase (handlers s ! i) \<in> {Leave, Out}"
    and t: "(\<forall>i < length ?cs. writes (handlers s ! i) \<longrightarrow> (\<nexists>j. phase (handlers s ! i) = Copying j)) \<longrightarrow> test_string s = after simple_kernel ?cs is hello15"
    by blast
  have "length ?cs = 3" by simp
  then have "set is = {0, 1, 2}" using i s(2) by auto
  moreover have "test_string s = after simple_kernel ?cs is hello15" using t s(2) by simp
  ultimately show ?thesis using r s(2-4) by blast
qed

end
