(* ===== verification/Processes.thy ===== *)
theory Processes
  imports Transition Console
begin

text \<open>
  A pipe between a parent and its child: the programs of \<open>pipes/1tsk\<close>.
\<close>

section \<open>A pipe\<close>

text \<open>
  \<open>pipes/1tsk/1tsk.c\<close>: the parent prints, writes, closes its end and waits for the child, which copies
  the pipe byte by byte until its end.  The counters \<open>ppc\<close> and \<open>cpc\<close> are the places in both branches, \<open>p_rd\<close>, \<open>p_wr\<close>, \<open>c_rd\<close>, \<open>c_wr\<close>
  the ends of the pipe that parent and child have open, \<open>fill\<close> is what the pipe holds, \<open>got\<close> the variable \<open>c\<close> of the child,
  \<open>out\<close> what has been written to the standard output and \<open>buf\<close> what \<open>printf\<close> of the parent keeps back.
\<close>

record pipe =
  ppc :: nat
  cpc :: nat
  p_rd :: bool
  p_wr :: bool
  c_rd :: bool
  c_wr :: bool
  fill :: string
  got :: char
  buf :: string
  out :: string

text \<open>A line for a terminal is written at once; otherwise it stays in the buffer until the program ends.\<close>

definition printf_line :: "bool \<Rightarrow> string \<Rightarrow> pipe \<Rightarrow> pipe" where
  "printf_line tty l s = (if tty then s\<lparr>out := out s @ l @ [NL]\<rparr> else s\<lparr>buf := buf s @ l @ [NL]\<rparr>)"

text \<open>A write to a pipe that nobody can read from ends the program with \<open>SIGPIPE\<close>, place 8; place 7 is behind \<open>exit\<close>.\<close>

definition parent_step :: "bool \<Rightarrow> pipe \<Rightarrow> pipe option" where
  "parent_step tty s =
     (if ppc s = 0 then Some (s\<lparr>ppc := 1, p_rd := False\<rparr>)
      else if ppc s = 1 then Some ((printf_line tty ''Hello'' s)\<lparr>ppc := 2\<rparr>)
      else if ppc s = 2 then
        (if p_rd s \<or> c_rd s then Some (s\<lparr>ppc := 3, fill := fill s @ ''Hello''\<rparr>) else Some (s\<lparr>ppc := 8, p_wr := False\<rparr>))
      else if ppc s = 3 then Some (s\<lparr>ppc := 4, p_wr := False\<rparr>)
      else if ppc s = 4 \<and> cpc s = 5 then Some (s\<lparr>ppc := 5\<rparr>)
      else if ppc s = 5 then Some ((printf_line tty ''8'' s)\<lparr>ppc := 6\<rparr>)
      else if ppc s = 6 then Some (s\<lparr>ppc := 7, out := out s @ buf s, buf := []\<rparr>)
      else None)"

text \<open>\<open>read\<close> of an empty pipe waits as long as any process has a write end open, the child itself included.\<close>

definition child_step :: "pipe \<Rightarrow> pipe option" where
  "child_step s =
     (if cpc s = 0 then Some (s\<lparr>cpc := 1, c_wr := False\<rparr>)
      else if cpc s = 1
      then (case fill s of
              c # cs \<Rightarrow> Some (s\<lparr>cpc := 2, fill := cs, got := c\<rparr>)
            | [] \<Rightarrow> if p_wr s \<or> c_wr s then None else Some (s\<lparr>cpc := 3\<rparr>))
      else if cpc s = 2 then Some (s\<lparr>cpc := 1, out := out s @ [got s]\<rparr>)
      else if cpc s = 3 then Some (s\<lparr>cpc := 4, out := out s @ '', ^-^'' @ [NL]\<rparr>)
      else if cpc s = 4 then Some (s\<lparr>cpc := 5, c_rd := False\<rparr>)
      else None)"

inductive pipe_step :: "bool \<Rightarrow> pipe \<Rightarrow> pipe \<Rightarrow> bool" for tty where
  by_parent: "parent_step tty s = Some t \<Longrightarrow> pipe_step tty s t"
| by_child: "child_step s = Some t \<Longrightarrow> pipe_step tty s t"

inductive_cases pipe_stepE: "pipe_step tty s t"

text \<open>Behind \<open>fork\<close> both processes have both ends of the pipe; \<open>x\<close> is what the variable \<open>c\<close> holds.\<close>

definition pipe_start :: "char \<Rightarrow> pipe" where
  "pipe_start x = \<lparr>ppc = 0, cpc = 0, p_rd = True, p_wr = True, c_rd = True, c_wr = True, fill = [], got = x, buf = [], out = []\<rparr>"

text \<open>The output as a function of the places and of the bytes \<open>d\<close> that the child has copied.\<close>

definition parent_lines :: "nat \<Rightarrow> string" where
  "parent_lines p = (if p \<le> 1 then [] else ''Hello'' @ [NL]) @ (if p \<ge> 6 then ''8'' @ [NL] else [])"

definition child_text :: "nat \<Rightarrow> string \<Rightarrow> string" where
  "child_text c d = d @ (if c \<ge> 4 then '', ^-^'' @ [NL] else [])"

definition pipe_text :: "bool \<Rightarrow> nat \<Rightarrow> nat \<Rightarrow> string \<Rightarrow> string" where
  "pipe_text tty p c d =
     (if tty then (if p \<le> 1 then [] else ''Hello'' @ [NL]) @ child_text c d @ (if p \<ge> 6 then ''8'' @ [NL] else [])
      else child_text c d @ (if p = 7 then parent_lines 7 else []))"

definition place_ok :: "pipe \<Rightarrow> bool" where
  "place_ok s \<longleftrightarrow> ppc s \<le> 7 \<and> cpc s \<le> 5 \<and> (p_rd s \<longleftrightarrow> ppc s = 0) \<and> (p_wr s \<longleftrightarrow> ppc s \<le> 3) \<and> (c_rd s \<longleftrightarrow> cpc s \<noteq> 5) \<and>
     (c_wr s \<longleftrightarrow> cpc s = 0) \<and> (cpc s \<ge> 3 \<longrightarrow> fill s = [] \<and> ppc s \<ge> 4) \<and> (ppc s \<ge> 5 \<longrightarrow> cpc s = 5)"

definition text_ok :: "bool \<Rightarrow> pipe \<Rightarrow> string \<Rightarrow> bool" where
  "text_ok tty s d \<longleftrightarrow> (if ppc s \<le> 2 then d = [] \<and> fill s = [] \<and> cpc s \<noteq> 2 else d @ (if cpc s = 2 then [got s] else []) @ fill s = ''Hello'') \<and>
     (cpc s = 0 \<longrightarrow> d = []) \<and> out s = pipe_text tty (ppc s) (cpc s) d \<and> buf s = (if tty \<or> ppc s = 7 then [] else parent_lines (ppc s))"

definition pipe_inv :: "bool \<Rightarrow> pipe \<Rightarrow> bool" where
  "pipe_inv tty s \<longleftrightarrow> place_ok s \<and> (\<exists>d. text_ok tty s d)"

lemmas pipe_defs = place_ok_def text_ok_def pipe_text_def child_text_def parent_lines_def printf_line_def

lemma pipe_invI: "place_ok s \<Longrightarrow> text_ok tty s d \<Longrightarrow> pipe_inv tty s"
  unfolding pipe_inv_def by blast

lemma parent_inv:
  assumes "pipe_inv tty s" "parent_step tty s = Some t"
  shows "pipe_inv tty t"
proof -
  obtain d where d: "text_ok tty s d" and p: "place_ok s"
    using assms(1) by (auto simp: pipe_inv_def)
  consider "ppc s = 0" "t = s\<lparr>ppc := 1, p_rd := False\<rparr>" | "ppc s = 1" "t = (printf_line tty ''Hello'' s)\<lparr>ppc := 2\<rparr>"
    | "ppc s = 2" "p_rd s \<or> c_rd s" "t = s\<lparr>ppc := 3, fill := fill s @ ''Hello''\<rparr>" | "ppc s = 2" "\<not> p_rd s" "\<not> c_rd s"
    | "ppc s = 3" "t = s\<lparr>ppc := 4, p_wr := False\<rparr>" | "ppc s = 4" "cpc s = 5" "t = s\<lparr>ppc := 5\<rparr>"
    | "ppc s = 5" "t = (printf_line tty ''8'' s)\<lparr>ppc := 6\<rparr>" | "ppc s = 6" "t = s\<lparr>ppc := 7, out := out s @ buf s, buf := []\<rparr>"
    using assms(2) unfolding parent_step_def by (metis option.distinct(1) option.inject)
  then show ?thesis
  proof cases
    case 4
    then show ?thesis using p by (auto simp: place_ok_def)
  qed (rule pipe_invI [where d = d]; use d p in \<open>auto simp: pipe_defs split: if_splits\<close>)+
qed

lemma child_inv:
  assumes "pipe_inv tty s" "child_step s = Some t"
  shows "pipe_inv tty t"
proof -
  obtain d where d: "text_ok tty s d" and p: "place_ok s"
    using assms(1) by (auto simp: pipe_inv_def)
  consider "cpc s = 0" "t = s\<lparr>cpc := 1, c_wr := False\<rparr>" | c cs where "cpc s = 1" "fill s = c # cs" "t = s\<lparr>cpc := 2, fill := cs, got := c\<rparr>"
    | "cpc s = 1" "fill s = []" "\<not> p_wr s" "t = s\<lparr>cpc := 3\<rparr>" | "cpc s = 2" "t = s\<lparr>cpc := 1, out := out s @ [got s]\<rparr>"
    | "cpc s = 3" "t = s\<lparr>cpc := 4, out := out s @ '', ^-^'' @ [NL]\<rparr>" | "cpc s = 4" "t = s\<lparr>cpc := 5, c_rd := False\<rparr>"
    using assms(2) unfolding child_step_def by (auto split: if_splits list.splits)
  then show ?thesis
  proof cases
    case 4
    have "ppc s > 2" using d 4 by (simp add: text_ok_def split: if_splits)
    moreover have "ppc s \<le> 4" using p 4 by (simp add: place_ok_def)
    ultimately show ?thesis by (intro pipe_invI [where d = "d @ [got s]"]; use d p 4 in \<open>simp add: pipe_defs\<close>)
  qed (rule pipe_invI [where d = d]; use d p in \<open>auto simp: pipe_defs\<close>)+
qed

lemma pipe_start_inv: "pipe_inv tty (pipe_start x)"
  by (rule pipe_invI [where d = "[]"]) (simp_all add: pipe_defs pipe_start_def)

interpretation pipe_sys: inductive_invariant "\<lambda>s. \<exists>x. s = pipe_start x" "pipe_step tty" "pipe_inv tty" for tty
  by unfold_locales (auto simp: pipe_start_inv elim!: pipe_stepE dest: parent_inv child_inv)

text \<open>Every step makes progress.\<close>

definition pipe_left :: "pipe \<Rightarrow> nat" where
  "pipe_left s = 20 * (8 - ppc s) + 2 * length (fill s) + (if cpc s = 0 then 8 else if cpc s = 1 then 7 else if cpc s = 2 then 8 else 6 - cpc s)"

lemma pipe_terminates: "pipe_step tty s t \<Longrightarrow> pipe_left t < pipe_left s"
  by (auto elim!: pipe_stepE simp: parent_step_def child_step_def pipe_left_def printf_line_def split: if_splits list.splits)

text \<open>
  C23. However parent and child interleave, every run of them ends, and they do not get stuck: a state without a further step is one
  in which both have ended.  Then a terminal has got the greeting, its copy through the pipe, the child's farewell and the
  parent's last line; anything else, a file or another pipe, has got the text of the child first and then both lines of the parent,
  which \<open>printf\<close> keeps back until \<open>exit\<close>.
\<close>

theorem pipe_output:
  assumes "reach (\<lambda>s. \<exists>x. s = pipe_start x) (pipe_step tty) s"
  shows "\<not> endless (pipe_step tty) s \<and>
    ((\<nexists>t. pipe_step tty s t) \<longrightarrow> ppc s = 7 \<and> cpc s = 5 \<and>
       out s = (if tty then ''Hello'' @ [NL] @ ''Hello, ^-^'' @ [NL] @ ''8'' @ [NL] else ''Hello, ^-^'' @ [NL] @ ''Hello'' @ [NL] @ ''8'' @ [NL]))"
proof
  have inv: "pipe_inv tty s" by (rule pipe_sys.always [OF assms(1)])
  show "\<not> endless (pipe_step tty) s" by (rule pipe_sys.ends [of tty pipe_left, OF pipe_terminates inv])
  show "(\<nexists>t. pipe_step tty s t) \<longrightarrow> ppc s = 7 \<and> cpc s = 5 \<and>
       out s = (if tty then ''Hello'' @ [NL] @ ''Hello, ^-^'' @ [NL] @ ''8'' @ [NL] else ''Hello, ^-^'' @ [NL] @ ''Hello'' @ [NL] @ ''8'' @ [NL])"
  proof
    assume rest: "\<nexists>t. pipe_step tty s t"
    have n: "parent_step tty s = None" "child_step s = None"
      using rest by (cases "parent_step tty s", blast, blast intro: by_parent, cases "child_step s", blast, blast intro: by_child)
    obtain d where d: "text_ok tty s d" and p: "place_ok s"
      using inv by (auto simp: pipe_inv_def)
    have pc: "ppc s = 4 \<and> cpc s \<noteq> 5 \<or> ppc s = 7" using n(1) p unfolding parent_step_def place_ok_def by (auto split: if_splits)
    have cc: "cpc s = 5 \<or> cpc s = 1 \<and> fill s = [] \<and> p_wr s" using n(2) p unfolding child_step_def place_ok_def
      by (auto split: if_splits list.splits)
    have e: "ppc s = 7 \<and> cpc s = 5" using pc cc p by (auto simp: place_ok_def)
    moreover from this p have "fill s = []" by (simp add: place_ok_def)
    ultimately show "ppc s = 7 \<and> cpc s = 5 \<and>
       out s = (if tty then ''Hello'' @ [NL] @ ''Hello, ^-^'' @ [NL] @ ''8'' @ [NL] else ''Hello, ^-^'' @ [NL] @ ''Hello'' @ [NL] @ ''8'' @ [NL])"
      using d by (simp add: pipe_defs)
  qed
qed

fun pipe_run :: "bool \<Rightarrow> bool list \<Rightarrow> pipe \<Rightarrow> pipe option" where
  "pipe_run tty [] s = Some s"
| "pipe_run tty (p # ps) s = do { t \<leftarrow> (if p then parent_step tty s else child_step s); pipe_run tty ps t }"

lemma pipe_run_reach:
  "pipe_run tty ps s = Some t \<Longrightarrow> reach (\<lambda>s. \<exists>x. s = pipe_start x) (pipe_step tty) s \<Longrightarrow> reach (\<lambda>s. \<exists>x. s = pipe_start x) (pipe_step tty) t"
proof (induction ps arbitrary: s)
  case (Cons p ps)
  obtain u where u: "(if p then parent_step tty s else child_step s) = Some u" "pipe_run tty ps u = Some t"
    using Cons.prems(1) by (auto simp: bind_eq_Some_conv')
  have "pipe_step tty s u" using u(1) by (cases p) (auto intro: by_parent by_child)
  then show ?case using Cons.IH [OF u(2)] Cons.prems(2) by (blast intro: reach_step)
qed simp

theorem pipe_output_witness:
  "\<forall>tty. \<exists>s. reach (\<lambda>s. \<exists>x. s = pipe_start x) (pipe_step tty) s \<and> ppc s = 7 \<and> cpc s = 5 \<and>
     out s = (if tty then ''Hello'' @ [NL] @ ''Hello, ^-^'' @ [NL] @ ''8'' @ [NL] else ''Hello, ^-^'' @ [NL] @ ''Hello'' @ [NL] @ ''8'' @ [NL])"
proof
  fix tty
  obtain s where run: "pipe_run tty ([False, True, True, True, True] @ replicate 13 False @ [True, True, True]) (pipe_start NUL) = Some s"
    and e: "ppc s = 7" "cpc s = 5" "fill s = []"
    by (cases tty) (simp_all add: pipe_start_def parent_step_def child_step_def printf_line_def numeral_eq_Suc)
  from pipe_run_reach [OF run reach_init] have r: "reach (\<lambda>s. \<exists>x. s = pipe_start x) (pipe_step tty) s" by blast
  have "\<nexists>t. pipe_step tty s t" using e by (auto elim!: pipe_stepE simp: parent_step_def child_step_def)
  with pipe_output [OF r] r e show "\<exists>s. reach (\<lambda>s. \<exists>x. s = pipe_start x) (pipe_step tty) s \<and> ppc s = 7 \<and> cpc s = 5 \<and>
     out s = (if tty then ''Hello'' @ [NL] @ ''Hello, ^-^'' @ [NL] @ ''8'' @ [NL] else ''Hello, ^-^'' @ [NL] @ ''Hello'' @ [NL] @ ''8'' @ [NL])"
    by blast
qed

text \<open>\<open>pipes/1tsk/2tsk.c\<close>: the child writes and ends before the parent reads; the output of both.\<close>

fun copy_pipe :: "string \<Rightarrow> string" where
  "copy_pipe [] = []"
| "copy_pipe (c # cs) = c # copy_pipe cs"

definition pipe2_main :: string where
  "pipe2_main = (let p = ''Hello'' in ''Hello'' @ [NL] @ copy_pipe p @ '', bye'' @ [NL])"

end
