(* ===== verification/NamedPipes.thy ===== *)
theory NamedPipes
  imports Transition Console
begin

text \<open>
  The two programs of \<open>pipes/2tsk\<close> and the named pipes between them, from the call of \<open>fork\<close> on.  A program is the
  list of the calls it has still to make; the two variables for descriptors are numbered 1 and 2, the array is
  the string it holds (\<open>None\<close>: indeterminate).
\<close>

section \<open>The programs\<close>

text \<open>
  \<open>Open n r c\<close> opens the pipe \<open>c\<close> to read or to write and stores the descriptor in the variable \<open>n\<close>; \<open>Opening\<close> is the
  call that has found the pipe and waits for the other side.
\<close>

datatype fifo_act = Open nat bool string | Opening nat bool string | Copy string | Print | Perror string
  | Write nat | Read nat | WaitChild | Close nat | Unlink string

record task =
  acts :: "fifo_act list"
  fds :: "(nat \<times> bool \<times> string) list"
  arr :: "string option"

record fifos =
  names :: "string list"
  sent :: "(string \<times> string option) list"
  shown :: "string option list"
  ptask :: task
  ctask :: task

definition cleanup :: "fifo_act list" where
  "cleanup = [Unlink ''channel1'', Unlink ''channel2'']"

definition fifo_parent :: "fifo_act list" where
  "fifo_parent = [Open 1 True ''channel1'', Open 2 True ''channel2'', Copy ''SRC'', Print, Write 2, WaitChild,
     Read 1, Print, Close 1, Close 2] @ cleanup"

definition fifo_child :: "fifo_act list" where
  "fifo_child = [Open 1 False ''channel1'', Open 2 True ''channel2'', Read 2, Print, Copy ''sendd'', Write 1, Close 1, Close 2]"

text \<open>Where the second program is not found the child goes on after the branches of the parent's program.\<close>

definition task_of :: "fifo_act list \<Rightarrow> task" where
  "task_of as = \<lparr>acts = as, fds = [], arr = None\<rparr>"

definition fifo_start :: "launch \<Rightarrow> fifos" where
  "fifo_start l = \<lparr>names = [''channel1'', ''channel2''], sent = [], shown = [],
     ptask = task_of (if l = Not_forked then [Perror ''fork failed''] else fifo_parent),
     ctask = task_of (case l of Started \<Rightarrow> fifo_child | Not_found \<Rightarrow> cleanup | Not_forked \<Rightarrow> [])\<rparr>"

section \<open>Steps\<close>

text \<open>Storing into a variable; the error -1 is no descriptor.\<close>

definition set_fd :: "nat \<Rightarrow> (bool \<times> string) option \<Rightarrow> task \<Rightarrow> task" where
  "set_fd n d t = t\<lparr>fds := (case d of Some x \<Rightarrow> [(n, x)] | None \<Rightarrow> []) @ filter (\<lambda>e. fst e \<noteq> n) (fds t)\<rparr>"

text \<open>The other side has the pipe \<open>c\<close> open to read (or to write), or is opening it.\<close>

definition has_open :: "task \<Rightarrow> bool \<Rightarrow> string \<Rightarrow> bool" where
  "has_open t r c \<longleftrightarrow> (r, c) \<in> set (map snd (fds t))"

definition comes_to :: "task \<Rightarrow> bool \<Rightarrow> string \<Rightarrow> bool" where
  "comes_to t r c \<longleftrightarrow> has_open t r c \<or> (case acts t of Opening _ r' c' # _ \<Rightarrow> r' = r \<and> c' = c | _ \<Rightarrow> False)"

text \<open>
  The next call of the task \<open>t\<close> beside the other task \<open>u\<close>; no result means that it waits, or has ended.  A pipe that
  has no name any more cannot be opened; a call on a variable without a descriptor that fits it fails and
  changes nothing; writing to a pipe without a reader kills the process.  A message fits the pipe and is read
  in one piece.
\<close>

definition task_step :: "task \<Rightarrow> fifos \<Rightarrow> task \<Rightarrow> (fifos \<times> task) option" where
  "task_step u s t =
     (case acts t of [] \<Rightarrow> None
      | a # as \<Rightarrow> (let t' = t\<lparr>acts := as\<rparr> in case a of
          Open n r c \<Rightarrow> Some (s, if c \<in> set (names s) then t\<lparr>acts := Opening n r c # as\<rparr> else set_fd n None t')
        | Opening n r c \<Rightarrow> if comes_to u (\<not> r) c then Some (s, set_fd n (Some (r, c)) t') else None
        | Copy x \<Rightarrow> Some (s, t'\<lparr>arr := Some x\<rparr>)
        | Print \<Rightarrow> Some (s\<lparr>shown := shown s @ [arr t]\<rparr>, t')
        | Perror x \<Rightarrow> Some (s\<lparr>shown := shown s @ [Some x]\<rparr>, t')
        | Write n \<Rightarrow>
            (case map_of (fds t) n of
               Some (False, c) \<Rightarrow>
                 Some (if has_open u True c then (s\<lparr>sent := sent s @ [(c, arr t)]\<rparr>, t') else (s, t'\<lparr>acts := [], fds := []\<rparr>))
             | _ \<Rightarrow> Some (s, t'))
        | Read n \<Rightarrow>
            (case map_of (fds t) n of
               Some (True, c) \<Rightarrow>
                 (case filter (\<lambda>m. fst m = c) (sent s) of
                    m # ms \<Rightarrow> Some (s\<lparr>sent := remove1 m (sent s)\<rparr>, t'\<lparr>arr := snd m\<rparr>)
                  | [] \<Rightarrow> if has_open u False c then None else Some (s, t'))
             | _ \<Rightarrow> Some (s, t'))
        | WaitChild \<Rightarrow> if acts u = [] then Some (s, t') else None
        | Close n \<Rightarrow> Some (s, set_fd n None t')
        | Unlink c \<Rightarrow> Some (s\<lparr>names := removeAll c (names s)\<rparr>, t')))"

inductive fifo_step :: "fifos \<Rightarrow> fifos \<Rightarrow> bool" where
  by_parent: "task_step (ctask s) s (ptask s) = Some (s', t) \<Longrightarrow> fifo_step s (s'\<lparr>ptask := t\<rparr>)"
| by_child: "task_step (ptask s) s (ctask s) = Some (s', t) \<Longrightarrow> fifo_step s (s'\<lparr>ctask := t\<rparr>)"

inductive_cases fifo_stepE: "fifo_step s t"

text \<open>The steps from a state as a list.\<close>

definition fifo_nexts :: "fifos \<Rightarrow> fifos list" where
  "fifo_nexts s =
     (case task_step (ctask s) s (ptask s) of None \<Rightarrow> [] | Some (s', t) \<Rightarrow> [s'\<lparr>ptask := t\<rparr>]) @
     (case task_step (ptask s) s (ctask s) of None \<Rightarrow> [] | Some (s', t) \<Rightarrow> [s'\<lparr>ctask := t\<rparr>])"

lemma fifo_step_next: "fifo_step s t \<longleftrightarrow> t \<in> set (fifo_nexts s)"
  by (auto simp: fifo_nexts_def elim!: fifo_stepE intro: fifo_step.intros split: option.splits)

section \<open>All runs\<close>

text \<open>The states of a start, found by following the steps from it.\<close>

definition fifo_states :: "launch \<Rightarrow> fifos list" where
  "fifo_states l = explore fifo_nexts 14 [fifo_start l] [fifo_start l]"

lemma closed_started: "closed_under fifo_nexts (fifo_states Started)"
  by code_simp

lemma closed_not_found: "closed_under fifo_nexts (fifo_states Not_found)"
  by code_simp

lemma closed_not_forked: "closed_under fifo_nexts (fifo_states Not_forked)"
  by code_simp

lemma fifo_closed: "closed_under fifo_nexts (fifo_states l)"
  by (cases l) (simp_all add: closed_started closed_not_found closed_not_forked)

interpretation fifo_sys: inductive_invariant "\<lambda>s. s = fifo_start l" fifo_step "\<lambda>s. s \<in> set (fifo_states l)" for l
  by unfold_locales
    (use fifo_closed [of l] in \<open>auto simp: closed_under_def fifo_step_next fifo_states_def explore_seen\<close>)

lemma fifo_at_start: "reach (\<lambda>s. s = fifo_start l) fifo_step (fifo_start l)"
  by (rule reach_init) simp

text \<open>Every step makes progress.\<close>

definition calls_left :: "task \<Rightarrow> nat" where
  "calls_left t = 2 * length (acts t) + (case acts t of Open _ _ _ # _ \<Rightarrow> 1 | _ \<Rightarrow> 0)"

definition both_left :: "fifos \<Rightarrow> nat" where
  "both_left s = calls_left (ptask s) + calls_left (ctask s)"

definition progress :: "fifos list \<Rightarrow> bool" where
  "progress ss \<longleftrightarrow> (\<forall>s \<in> set ss. \<forall>t \<in> set (fifo_nexts s). both_left t < both_left s)"

lemma fifo_progress:
  assumes "s \<in> set (fifo_states l)" "fifo_step s t"
  shows "both_left t < both_left s"
proof -
  have "progress (fifo_states Started)" "progress (fifo_states Not_found)" "progress (fifo_states Not_forked)" by code_simp+
  then have "progress (fifo_states l)" by (cases l) simp_all
  then show ?thesis using assms by (auto simp: progress_def fifo_step_next)
qed

text \<open>So no run goes on for ever; where it ends is one of the states found.\<close>

lemma fifo_ends:
  assumes "reach (\<lambda>s. s = fifo_start l) fifo_step s"
  shows "\<not> endless fifo_step s"
    and "fifo_step\<^sup>*\<^sup>* s t \<Longrightarrow> \<nexists>u. fifo_step t u \<Longrightarrow> t \<in> set (fifo_states l) \<and> fifo_nexts t = []"
proof -
  have s: "s \<in> set (fifo_states l)" by (rule fifo_sys.always [OF assms])
  show "\<not> endless fifo_step s"
    using fifo_sys.ends [where m = both_left and l = l and s = s] fifo_progress [where l = l] s by blast
  show "t \<in> set (fifo_states l) \<and> fifo_nexts t = []" if "fifo_step\<^sup>*\<^sup>* s t" "\<nexists>u. fifo_step t u"
    using fifo_sys.kept [OF that(1) s] that(2) unfolding fifo_step_next by (cases "fifo_nexts t") auto
qed

text \<open>Both tasks wait for a writer of the second pipe.\<close>

definition deadlock :: "fifos \<Rightarrow> bool" where
  "deadlock s \<longleftrightarrow> acts (ptask s) = Opening 2 True ''channel2'' # drop 2 fifo_parent \<and>
     acts (ctask s) = Opening 2 True ''channel2'' # drop 2 fifo_child"

lemma started_runs: "\<forall>s \<in> set (fifo_states Started). shown s = [] \<and> sent s = [] \<and> (fifo_nexts s = [] \<longrightarrow> deadlock s)"
  by code_simp

text \<open>
  C37. The two programs of \<open>pipes/2tsk\<close> block each other: both open the second pipe to read.  No run goes on for
  ever, and every run that cannot go on has come to the state in which both wait; nothing is shown or sent.
\<close>

theorem fifo_deadlock:
  assumes "reach (\<lambda>s. s = fifo_start Started) fifo_step s"
  shows "shown s = [] \<and> sent s = [] \<and> \<not> endless fifo_step s \<and>
    (\<forall>t. fifo_step\<^sup>*\<^sup>* s t \<and> (\<nexists>u. fifo_step t u) \<longrightarrow> deadlock t)"
proof -
  have s: "s \<in> set (fifo_states Started)" by (rule fifo_sys.always [OF assms])
  have "deadlock t" if "fifo_step\<^sup>*\<^sup>* s t" "\<nexists>u. fifo_step t u" for t using fifo_ends(2) [OF assms that] started_runs by blast
  then show ?thesis using s started_runs fifo_ends(1) [OF assms] by blast
qed

theorem fifo_deadlock_witness:
  "\<not> endless fifo_step (fifo_start Started) \<and> (\<exists>t. fifo_step\<^sup>*\<^sup>* (fifo_start Started) t \<and> deadlock t)"
proof -
  have "fifo_start Started \<in> set (fifo_states Started)" by (rule fifo_sys.always [OF fifo_at_start])
  then obtain t where "fifo_step\<^sup>*\<^sup>* (fifo_start Started) t" "\<nexists>u. fifo_step t u"
    using fifo_sys.rests [where m = both_left and l = Started] fifo_progress [where l = Started] by blast
  then show ?thesis using fifo_deadlock [OF fifo_at_start] by blast
qed

text \<open>
  Where the second program is not found the child takes the pipes away and ends.  Then the parent waits
  for ever at one of them, before it has shown anything, or it fails to open either of them and shows its own
  text twice.
\<close>

definition waits_alone :: "fifos \<Rightarrow> bool" where
  "waits_alone s \<longleftrightarrow> shown s = [] \<and> (case acts (ptask s) of Opening _ _ _ # _ \<Rightarrow> True | _ \<Rightarrow> False)"

definition echoes_alone :: "fifos \<Rightarrow> bool" where
  "echoes_alone s \<longleftrightarrow> shown s = [Some ''SRC'', Some ''SRC''] \<and> acts (ptask s) = []"

lemma not_found_runs:
  "\<forall>s \<in> set (fifo_states Not_found). fifo_nexts s = [] \<longrightarrow> acts (ctask s) = [] \<and> names s = [] \<and> (waits_alone s \<or> echoes_alone s)"
  by code_simp

theorem fifo_without_program:
  assumes "reach (\<lambda>s. s = fifo_start Not_found) fifo_step s"
  shows "\<not> endless fifo_step s \<and> (\<forall>t. fifo_step\<^sup>*\<^sup>* s t \<and> (\<nexists>u. fifo_step t u) \<longrightarrow>
    acts (ctask t) = [] \<and> names t = [] \<and> (waits_alone t \<or> echoes_alone t))"
  using fifo_ends [OF assms] not_found_runs by blast

theorem fifo_without_program_witness:
  "\<not> endless fifo_step (fifo_start Not_found)"
  using fifo_without_program [OF fifo_at_start] by blast

text \<open>Both endings occur; without a child the pipes are left behind.\<close>

fun fifo_run :: "bool list \<Rightarrow> fifos \<Rightarrow> fifos option" where
  "fifo_run [] s = Some s"
| "fifo_run (p # ps) s =
     (case (if p then task_step (ctask s) s (ptask s) else task_step (ptask s) s (ctask s)) of None \<Rightarrow> None
      | Some (s', t) \<Rightarrow> fifo_run ps (if p then s'\<lparr>ptask := t\<rparr> else s'\<lparr>ctask := t\<rparr>))"

lemma fifo_run_steps: "fifo_run ps s = Some t \<Longrightarrow> fifo_step\<^sup>*\<^sup>* s t"
proof (induction ps arbitrary: s)
  case (Cons p ps)
  obtain s' u where u: "(if p then task_step (ctask s) s (ptask s) else task_step (ptask s) s (ctask s)) = Some (s', u)"
    using Cons.prems by (auto split: option.splits)
  have "fifo_step s (if p then s'\<lparr>ptask := u\<rparr> else s'\<lparr>ctask := u\<rparr>)" using u by (cases p) (auto intro: by_parent by_child)
  moreover have "fifo_run ps (if p then s'\<lparr>ptask := u\<rparr> else s'\<lparr>ctask := u\<rparr>) = Some t" using Cons.prems u by simp
  ultimately show ?case using Cons.IH by (meson converse_rtranclp_into_rtranclp)
qed simp

lemma run_reaches:
  assumes "case fifo_run ps s of None \<Rightarrow> False | Some t \<Rightarrow> P t"
  shows "\<exists>t. fifo_step\<^sup>*\<^sup>* s t \<and> P t"
  using assms fifo_run_steps [of ps s] by (cases "fifo_run ps s") auto

lemma not_found_waits: "\<exists>t. fifo_step\<^sup>*\<^sup>* (fifo_start Not_found) t \<and> waits_alone t"
  by (rule run_reaches [where ps = "[True, False, False]"]) code_simp

lemma not_found_echoes: "\<exists>t. fifo_step\<^sup>*\<^sup>* (fifo_start Not_found) t \<and> echoes_alone t"
  by (rule run_reaches [where ps = "[False, False] @ replicate 12 True"]) code_simp

lemma not_forked_run:
  "\<exists>t. fifo_run [True] (fifo_start Not_forked) = Some t \<and> fifo_nexts t = [] \<and> shown t = [Some ''fork failed''] \<and> names t = [''channel1'', ''channel2'']"
  by (simp add: fifo_start_def task_of_def task_step_def fifo_nexts_def)

end
