(* ===== verification/Conversations.thy ===== *)
theory Conversations
  imports Pool Console
begin

text \<open>
  The pairs of programs that exchange one message each over a socket: \<open>sokets1\<close> (TCP and UDP over the
  network, TCP inside the machine), the clients of \<open>sokets2\<close>, and \<open>data_exchange\<close>.  A program is a
  function of the outcomes of its calls, of what it receives, of what is typed and of the
  indeterminate contents of its array; the result is the exit status, what it shows (the text of
  \<open>perror\<close> included), and the messages it sends.
\<close>

section \<open>Programs\<close>

definition LINE :: nat where "LINE = 199"

type_synonym run = "int \<times> string \<times> char list list"

text \<open>Receiving fills the front of the array and leaves the rest.\<close>

definition recv_buf :: "char list \<Rightarrow> char list \<Rightarrow> char list" where
  "recv_buf buf d = take (length buf) d @ drop (length d) buf"

text \<open>\<open>fgets\<close> into the array, then the bytes before the terminator.\<close>

definition type_line :: "char list \<Rightarrow> string \<Rightarrow> (char list \<times> string) option" where
  "type_line buf typed = do { (_, b, _) \<leftarrow> fgets buf LINE typed; t \<leftarrow> rd_str b; Some (b, t) }"

definition zeros :: "char list" where
  "zeros = replicate LINE NUL"

text \<open>\<open>sokets1/AF_INET/TCP\<close>; the server asks for its message before the client has connected.\<close>

definition inet_server :: "bool \<Rightarrow> bool \<Rightarrow> bool \<Rightarrow> char list \<Rightarrow> string \<Rightarrow> char list \<Rightarrow> run option" where
  "inet_server bound listening joined junk typed d =
     (case first_error [(''bind'', bound), (''listen'', listening)] of
        Some m \<Rightarrow> Some (1, m, [])
      | None \<Rightarrow>
          if \<not> joined then Some (1, ''Waiting conection...'' @ [NL] @ ''Enter message: '' @ ''accept'', [])
          else do { (_, t) \<leftarrow> type_line junk typed;
               r \<leftarrow> rd_str (recv_buf zeros d);
               Some (0, ''Waiting conection...'' @ [NL] @ ''Enter message: '' @ ''Message sent.'' @ [NL] @ ''Waiting message...'' @ [NL] @
                 ''Recieved message: '' @ r, [t]) })"

definition inet_client :: "bool \<Rightarrow> char list \<Rightarrow> string \<Rightarrow> char list \<Rightarrow> run option" where
  "inet_client connected junk typed d =
     (if \<not> connected then Some (1, ''connect'', [])
      else do { r \<leftarrow> rd_str (recv_buf junk d);
                (_, t) \<leftarrow> type_line zeros typed;
                Some (0, ''Waiting message...'' @ [NL] @ ''Recieved message: '' @ r @ ''Enter message: '' @ ''Message sent.'' @ [NL], [t]) })"

text \<open>\<open>sokets1/AF_LOCAL/TCP\<close>; its client sends the whole array.\<close>

definition local_server :: "bool \<Rightarrow> bool \<Rightarrow> bool \<Rightarrow> bool \<Rightarrow> bool \<Rightarrow> char list \<Rightarrow> string \<Rightarrow> char list \<Rightarrow> run option" where
  "local_server made bound listening joined unlinked junk typed d =
     (case first_error [(''socket'', made), (''bind'', bound), (''listen'', listening)] of
        Some m \<Rightarrow> Some (1, m, [])
      | None \<Rightarrow>
          if \<not> joined then Some (1, ''Waiting conection...'' @ [NL] @ ''accept'', [])
          else do { (_, t) \<leftarrow> type_line junk typed;
               r \<leftarrow> rd_str (recv_buf zeros d);
               Some (if unlinked then 0 else 1, ''Waiting conection...'' @ [NL] @ ''Enter message: '' @ ''Message sent'' @ [NL] @
                 ''Waiting message...'' @ [NL] @ ''Recieved message: '' @ r @ (if unlinked then [] else ''unlink''), [t]) })"

definition local_client :: "bool \<Rightarrow> char list \<Rightarrow> string \<Rightarrow> char list \<Rightarrow> run option" where
  "local_client connected junk typed d =
     (if \<not> connected then Some (1, ''connect'', [])
      else do { r \<leftarrow> rd_str (recv_buf junk d);
                (b, _) \<leftarrow> type_line zeros typed;
                Some (0, ''Waiting message...'' @ [NL] @ ''Recieved message: '' @ r @ ''Enter message:'' @ ''Message sent'' @ [NL], [b]) })"

text \<open>\<open>sokets1/AF_INET/UDP\<close>: the client announces itself with the byte \<open>s\<close>.\<close>

definition udp1_server :: "bool \<Rightarrow> char list \<Rightarrow> string \<Rightarrow> char list \<Rightarrow> run option" where
  "udp1_server bound junk typed d =
     (if \<not> bound then Some (1, ''bind'', [])
      else do { (_, t) \<leftarrow> type_line junk typed;
                r \<leftarrow> rd_str (recv_buf zeros d);
                Some (0, ''Waiting conection...'' @ [NL] @ ''Enter message: '' @ ''Message sent.'' @ [NL] @ ''Waiting message...'' @ [NL] @
                  ''Recieved message: '' @ r, [t]) })"

definition udp1_client :: "bool \<Rightarrow> char list \<Rightarrow> string \<Rightarrow> char list \<Rightarrow> run option" where
  "udp1_client connected junk typed d =
     (if \<not> connected then Some (1, ''connect'', [])
      else do { r \<leftarrow> rd_str (recv_buf junk d);
                (_, t) \<leftarrow> type_line zeros typed;
                Some (0, ''Waiting message...'' @ [NL] @ ''Recieved message: '' @ r @ ''Enter message: '' @ ''Message sent.'' @ [NL], [''s'', t]) })"

text \<open>
  The clients of \<open>sokets2\<close>: they show the greeting and send the time; \<open>ctime\<close> is the text of the clock.
  \<open>r\<close> is \<open>None\<close> when receiving fails.
\<close>

definition greeted_client :: "char list \<Rightarrow> char list option \<Rightarrow> string \<Rightarrow> bool \<Rightarrow> (int \<times> string \<times> char list list) option" where
  "greeted_client junk r ctime sent =
     (case r of
        None \<Rightarrow> Some (1, ''recv'', [])
      | Some d \<Rightarrow>
          do { t \<leftarrow> rd_str (recv_buf junk d);
               b \<leftarrow> strcpy zeros (lit ctime);
               m \<leftarrow> rd_str b;
               Some (if sent then (0, t @ ''message sent.'' @ [NL], [m]) else (1, t @ ''send'', [])) })"

definition tcp_client :: "bool \<Rightarrow> char list \<Rightarrow> char list option \<Rightarrow> string \<Rightarrow> bool \<Rightarrow> run option" where
  "tcp_client connected junk r ctime sent =
     (if \<not> connected then Some (1, ''connect'', []) else greeted_client junk r ctime sent)"

definition udp_client :: "char list \<Rightarrow> char list option \<Rightarrow> string \<Rightarrow> bool \<Rightarrow> run option" where
  "udp_client junk r ctime sent =
     map_option (\<lambda>(rc, t, ms). (rc, t, ''s'' # ms)) (greeted_client junk r ctime sent)"

text \<open>\<open>data_exchange\<close>: one datagram to everybody, or to a group.\<close>

definition hello_sender :: "(string \<times> bool) list \<Rightarrow> char list \<Rightarrow> bool \<Rightarrow> run option" where
  "hello_sender calls junk sent =
     (case first_error calls of
        Some m \<Rightarrow> Some (1, m, [])
      | None \<Rightarrow>
          do { b \<leftarrow> strcpy junk (lit ''Hello!!'');
               t \<leftarrow> rd_str b;
               Some (if sent then (0, [], [t]) else (1, ''sendto'', [])) })"

definition hello_receiver :: "(string \<times> bool) list \<Rightarrow> char list \<Rightarrow> char list option \<Rightarrow> run option" where
  "hello_receiver calls junk r =
     (case first_error calls of
        Some m \<Rightarrow> Some (1, m, [])
      | None \<Rightarrow>
          (case r of
             None \<Rightarrow> Some (1, ''Waiting connection...'' @ [NL] @ ''recvfrom'', [])
           | Some d \<Rightarrow>
               do { t \<leftarrow> rd_str (recv_buf junk d);
                    Some (0, ''Waiting connection...'' @ [NL] @ ''Received message: '' @ t @ [NL], []) }))"

definition broadcast_server :: "bool \<Rightarrow> bool \<Rightarrow> char list \<Rightarrow> bool \<Rightarrow> run option" where
  "broadcast_server s o' junk sent = hello_sender [(''socket'', s), (''setsockopt'', o')] junk sent"

definition multicast_server :: "bool \<Rightarrow> char list \<Rightarrow> bool \<Rightarrow> run option" where
  "multicast_server s junk sent = hello_sender [(''socket'', s)] junk sent"

definition broadcast_client :: "bool \<Rightarrow> bool \<Rightarrow> char list \<Rightarrow> char list option \<Rightarrow> run option" where
  "broadcast_client s b junk r = hello_receiver [(''socket'', s), (''bind'', b)] junk r"

definition multicast_client :: "bool \<Rightarrow> bool \<Rightarrow> bool \<Rightarrow> char list \<Rightarrow> char list option \<Rightarrow> run option" where
  "multicast_client s o' b junk r = hello_receiver [(''socket'', s), (''setsockopt'', o'), (''bind'', b)] junk r"

section \<open>Receiving\<close>

text \<open>
  What is shown of a message that carries no terminator: the message and then the indeterminate contents
  of the array up to a terminator that happens to be there.
\<close>

lemma recv_unterminated:
  assumes "NUL \<notin> set d" "length d \<le> length junk"
  shows "rd_str (recv_buf junk d) = (if NUL \<in> set (drop (length d) junk) then Some (d @ cstr (drop (length d) junk)) else None)"
proof -
  have "cstr (d @ x) = d @ cstr x" for x using assms(1) by (induction d) (auto simp: cstr_def)
  then show ?thesis using assms by (simp add: recv_buf_def rd_str_def)
qed

lemma recv_zeros:
  assumes "NUL \<notin> set d" "length d < LINE"
  shows "rd_str (recv_buf zeros d) = Some d"
proof -
  have "drop (length d) zeros = NUL # replicate (LINE - length d - 1) NUL"
    using assms(2) by (cases "LINE - length d") (simp_all add: zeros_def)
  then show ?thesis using recv_unterminated [OF assms(1), of zeros] assms(2) by (simp add: zeros_def cstr_def)
qed

definition short_line :: "string \<Rightarrow> bool" where
  "short_line l \<longleftrightarrow> NL \<notin> set l \<and> NUL \<notin> set l \<and> length l + 1 < LINE"

lemma type_line_ok:
  assumes "short_line l" "length buf = LINE"
  obtains b where "type_line buf (l @ NL # rest) = Some (b, l @ [NL])" "length b = LINE" "NUL \<in> set b" "cstr b = l @ [NL]"
proof -
  obtain b where b: "fgets buf LINE (l @ NL # rest) = Some (True, b, rest)" "length b = LINE" "NUL \<in> set b" "cstr b = l @ [NL]"
    using fgets_returns [of l LINE buf rest] assms by (auto simp: short_line_def elim!: returnsE)
  then show thesis using that by (simp add: type_line_def cmem)
qed

lemma recv_zeros_line: "short_line l \<Longrightarrow> rd_str (recv_buf zeros (l @ [NL])) = Some (l @ [NL])"
  by (rule recv_zeros) (auto simp: short_line_def)

text \<open>A whole array that holds a line is received as that line.\<close>

lemma recv_whole:
  assumes "length b = LINE" "NUL \<in> set b" "cstr b = l @ [NL]"
  shows "rd_str (recv_buf zeros b) = Some (l @ [NL])"
  using assms by (simp add: recv_buf_def zeros_def cmem)

section \<open>Conversations\<close>

text \<open>What the client shows of the server's line.\<close>

definition with_rest :: "string \<Rightarrow> char list \<Rightarrow> string" where
  "with_rest l junk = l @ [NL] @ cstr (drop (length l + 1) junk)"

text \<open>
  C27. The three conversations of \<open>sokets1\<close>: the server sends the line typed there and shows exactly the
  line typed at the client; the client shows the server's line, but followed by what its array held
  behind it up to a zero byte, because the server sends no terminator.
\<close>

theorem conversations:
  assumes "short_line l1" "short_line l2" "length junk1 = LINE" "length junk2 = LINE" "NUL \<in> set (drop (length l1 + 1) junk2)"
  shows "\<exists>m2 m2'. inet_server True True True junk1 (l1 @ [NL]) (l2 @ [NL]) = Some (0,
      ''Waiting conection...'' @ [NL] @ ''Enter message: '' @ ''Message sent.'' @ [NL] @ ''Waiting message...'' @ [NL] @ ''Recieved message: '' @ l2 @ [NL], [l1 @ [NL]]) \<and>
    inet_client True junk2 (l2 @ [NL]) (l1 @ [NL]) = Some (0,
      ''Waiting message...'' @ [NL] @ ''Recieved message: '' @ with_rest l1 junk2 @ ''Enter message: '' @ ''Message sent.'' @ [NL], [l2 @ [NL]]) \<and>
    local_client True junk2 (l2 @ [NL]) (l1 @ [NL]) = Some (0,
      ''Waiting message...'' @ [NL] @ ''Recieved message: '' @ with_rest l1 junk2 @ ''Enter message:'' @ ''Message sent'' @ [NL], [m2]) \<and>
    local_server True True True True True junk1 (l1 @ [NL]) m2 = Some (0,
      ''Waiting conection...'' @ [NL] @ ''Enter message: '' @ ''Message sent'' @ [NL] @ ''Waiting message...'' @ [NL] @ ''Recieved message: '' @ l2 @ [NL], [l1 @ [NL]]) \<and>
    udp1_client True junk2 (l2 @ [NL]) (l1 @ [NL]) = Some (0,
      ''Waiting message...'' @ [NL] @ ''Recieved message: '' @ with_rest l1 junk2 @ ''Enter message: '' @ ''Message sent.'' @ [NL], [''s'', m2']) \<and>
    udp1_server True junk1 (l1 @ [NL]) m2' = Some (0,
      ''Waiting conection...'' @ [NL] @ ''Enter message: '' @ ''Message sent.'' @ [NL] @ ''Waiting message...'' @ [NL] @ ''Recieved message: '' @ l2 @ [NL], [l1 @ [NL]])"
proof -
  have z: "length zeros = LINE" by (simp add: zeros_def)
  obtain b1 where b1: "type_line junk1 (l1 @ [NL]) = Some (b1, l1 @ [NL])"
    by (rule type_line_ok [OF assms(1,3), of "[]"]) simp
  obtain b2 where b2: "type_line zeros (l2 @ [NL]) = Some (b2, l2 @ [NL])" "length b2 = LINE" "NUL \<in> set b2" "cstr b2 = l2 @ [NL]"
    by (rule type_line_ok [OF assms(2) z, of "[]"]) simp
  have r: "rd_str (recv_buf junk2 (l1 @ [NL])) = Some (with_rest l1 junk2)"
    using recv_unterminated [of "l1 @ [NL]" junk2] assms(1,4,5) by (simp add: short_line_def with_rest_def)
  note d = recv_zeros_line [OF assms(2)] recv_whole [OF b2(2-4)] b1 b2(1) r
  show ?thesis
    by (intro exI [of _ b2] exI [of _ "l2 @ [NL]"])
      (simp add: d [simplified] inet_server_def inet_client_def local_client_def local_server_def 
        udp1_client_def udp1_server_def with_rest_def)
qed

theorem conversations_witness:
  "inet_client True (replicate 199 NUL) (''yes'' @ [NL]) (''hi'' @ [NL]) = Some (0,
      ''Waiting message...'' @ [NL] @ ''Recieved message: hi'' @ [NL] @ ''Enter message: Message sent.'' @ [NL], [''yes'' @ [NL]])"
proof -
  have s: "short_line ''hi''" "short_line ''yes''" by (simp_all add: short_line_def LINE_def NL_def NUL_def)
  have l: "length (replicate 199 NUL) = LINE" by (simp add: LINE_def)
  have n: "NUL \<in> set (drop (length ''hi'' + 1) (replicate 199 NUL))" by simp
  have "with_rest ''hi'' (replicate 199 NUL) = ''hi'' @ [NL]" by (simp add: with_rest_def cstr_def)
  then show ?thesis using conversations [OF s l l n] by simp
qed

text \<open>
  The datagram of \<open>data_exchange\<close> carries no terminator: the receivers show it only if their
  uninitialised array happens to hold a zero byte behind it, and with it what stands before that
  byte; otherwise the behaviour is undefined.
\<close>

theorem hello_needs_terminator:
  assumes "length junk1 = LINE" "length junk2 = LINE"
  shows "broadcast_server True True junk1 True = Some (0, [], [''Hello!!'']) \<and> multicast_server True junk1 True = Some (0, [], [''Hello!!'']) \<and>
    multicast_client True True True junk2 (Some ''Hello!!'') = broadcast_client True True junk2 (Some ''Hello!!'') \<and>
    broadcast_client True True junk2 (Some ''Hello!!'') =
      (if NUL \<in> set (drop 7 junk2)
       then Some (0, ''Waiting connection...'' @ [NL] @ ''Received message: Hello!!'' @ cstr (drop 7 junk2) @ [NL], []) else None)"
proof -
  have n: "NUL \<notin> set ''Hello!!''" by (simp add: NUL_def)
  obtain b where b: "strcpy junk1 (lit ''Hello!!'') = Some b" "NUL \<in> set b" "cstr b = ''Hello!!''"
  proof -
    have "NUL \<in> set (lit ''Hello!!'')" "cstr (lit ''Hello!!'') = ''Hello!!''" unfolding lit_def by (simp, rule cstr_lit [OF n])
    then show thesis using strcpy_returns [of "lit ''Hello!!''" junk1] assms(1) that by (auto simp: LINE_def elim!: returnsE)
  qed
  have r: "rd_str (recv_buf junk2 ''Hello!!'') = (if NUL \<in> set (drop 7 junk2) then Some (''Hello!!'' @ cstr (drop 7 junk2)) else None)"
  proof -
    have "length ''Hello!!'' = 7" "7 \<le> length junk2" using assms(2) by (simp_all add: LINE_def)
    then show ?thesis using recv_unterminated [OF n, of junk2] by (simp only: if_True)
  qed
  have "broadcast_client True True junk2 (Some ''Hello!!'') = (if NUL \<in> set (drop 7 junk2)
       then Some (0, ''Waiting connection...'' @ [NL] @ ''Received message: Hello!!'' @ cstr (drop 7 junk2) @ [NL], []) else None)"
    by (simp add: broadcast_client_def hello_receiver_def r)
  then show ?thesis using b
    by (simp add: broadcast_server_def multicast_server_def multicast_client_def broadcast_client_def hello_sender_def hello_receiver_def cmem)
qed

theorem hello_needs_terminator_witness:
  "broadcast_client True True (replicate 199 (CHR ''x'')) (Some ''Hello!!'') = None"
  using hello_needs_terminator [of "replicate 199 NUL" "replicate 199 (CHR ''x'')"] by (simp add: LINE_def NUL_def)

text \<open>
  The clients of \<open>sokets2\<close> show the 22 characters of the greeting, followed by what their array held up to
  a zero byte, and send the time.
\<close>

lemma tcp_client_sends:
  assumes "NUL \<notin> set ctime" "length ctime < LINE" "length junk = LINE" "NUL \<notin> set d" "length d < LINE" "NUL \<in> set (drop (length d) junk)"
  shows "tcp_client True junk (Some d) ctime True = Some (0, d @ cstr (drop (length d) junk) @ ''message sent.'' @ [NL], [ctime]) \<and>
    udp_client junk (Some d) ctime True = Some (0, d @ cstr (drop (length d) junk) @ ''message sent.'' @ [NL], [''s'', ctime])"
proof -
  have "NUL \<in> set (lit ctime)" "cstr (lit ctime) = ctime" using assms(1) by (simp_all add: lit_def cstr_lit)
  then obtain b where b: "strcpy zeros (lit ctime) = Some b" "rd_str b = Some ctime"
    using strcpy_returns [of "lit ctime" zeros] assms(2) by (auto simp: zeros_def cmem elim!: returnsE)
  have r: "rd_str (recv_buf junk d) = Some (d @ cstr (drop (length d) junk))"
    using recv_unterminated [OF assms(4), of junk] assms(3,5,6) by simp
  show ?thesis by (simp add: tcp_client_def udp_client_def greeted_client_def r b)
qed

end
