(* ===== verification/Office.thy ===== *)
theory Office
  imports Pool_Correct Conversations
begin

text \<open>
  The server of \<open>sokets2/3scheme\<close> together with any number of its clients, \<open>sokets2/3scheme/client.c\<close>, and
  the sockets between them.  A step is one call of the system by a worker, by \<open>main\<close> or by a client;
  every call may fail.  What is sent arrives in one piece.
\<close>

section \<open>The client\<close>

text \<open>The next call of a client, or its end: an exit status, or no defined behaviour.\<close>

datatype client_at = CConnect | CRecv | CSend string | CEnd int | CUndef

record client =
  client_at :: client_at
  out_c :: string

text \<open>What the client does between receiving and sending: it prints the array and copies the time into it.\<close>

definition answer_with :: "string \<Rightarrow> char list \<Rightarrow> (string \<times> string) option" where
  "answer_with ctime buf =
     do { t \<leftarrow> rd_str buf; b \<leftarrow> strcpy (replicate LINE NUL) (lit ctime); m \<leftarrow> rd_str b; Some (t, m) }"

definition client_step :: "string \<Rightarrow> result \<Rightarrow> client \<Rightarrow> client option" where
  "client_step ctime r c =
     (case client_at c of
        CConnect \<Rightarrow> Some (if r = Fail then \<lparr>client_at = CEnd 1, out_c = out_c c @ ''connect''\<rparr> else c\<lparr>client_at := CRecv\<rparr>)
      | CRecv \<Rightarrow>
          (case r of
             Fail \<Rightarrow> Some \<lparr>client_at = CEnd 1, out_c = out_c c @ ''recv''\<rparr>
           | Data d junk \<Rightarrow> Some (case answer_with ctime (recv_buf junk d) of
               None \<Rightarrow> c\<lparr>client_at := CUndef\<rparr> | Some (t, m) \<Rightarrow> \<lparr>client_at = CSend m, out_c = out_c c @ t\<rparr>)
           | _ \<Rightarrow> None)
      | CSend m \<Rightarrow> Some (if r = Fail then \<lparr>client_at = CEnd 1, out_c = out_c c @ ''send''\<rparr>
          else \<lparr>client_at = CEnd 0, out_c = out_c c @ ''message sent.'' @ [NL]\<rparr>)
      | _ \<Rightarrow> None)"

section \<open>Server, clients and sockets\<close>

text \<open>
  \<open>waiting\<close>: the clients that have connected and wait for \<open>accept\<close>; \<open>peer\<close>: the client behind a descriptor of
  the server; \<open>down\<close> and \<open>up\<close>: the bytes on their way to and from a client; \<open>heard\<close>: the descriptors from which
  a worker has received, in order.
\<close>

record office =
  server :: pool
  clients :: "client list"
  waiting :: "nat list"
  peer :: "int \<Rightarrow> nat"
  down :: "nat \<Rightarrow> char list"
  up :: "nat \<Rightarrow> char list"
  heard :: "int list"

definition greeting :: string where
  "greeting = ''connection successful'' @ [NL]"

definition gone :: "nat \<Rightarrow> office \<Rightarrow> bool" where
  "gone k s \<longleftrightarrow> (case client_at (clients s ! k) of CEnd _ \<Rightarrow> True | CUndef \<Rightarrow> True | _ \<Rightarrow> False)"

text \<open>
  What a call on a socket can return: the bytes on their way, or none when the other side has ended;
  \<open>sj k\<close> and \<open>cj k\<close> are the indeterminate contents of the arrays into which the message of client \<open>k\<close> and the
  greeting to client \<open>k\<close> are received.
\<close>

definition server_gets :: "(nat \<Rightarrow> char list) \<Rightarrow> nat \<Rightarrow> result \<Rightarrow> office \<Rightarrow> bool" where
  "server_gets sj i r s \<longleftrightarrow> (case r of
     Data d junk \<Rightarrow> (case workers (server s) ! i of
        WRead fd \<Rightarrow> d = up s (peer s fd) \<and> junk = sj (peer s fd) \<and> (d \<noteq> [] \<or> gone (peer s fd) s) | _ \<Rightarrow> False)
   | _ \<Rightarrow> True)"

definition client_gets :: "(nat \<Rightarrow> char list) \<Rightarrow> nat \<Rightarrow> result \<Rightarrow> office \<Rightarrow> bool" where
  "client_gets cj k r s \<longleftrightarrow> (case r of
     Data d junk \<Rightarrow> d = down s k \<and> junk = cj k \<and> (d \<noteq> [] \<or> status (server s) \<noteq> Running)
   | Fail \<Rightarrow> True
   | _ \<Rightarrow> status (server s) = Running)"

text \<open>A worker, \<open>main\<close> or a client makes a call, with its effect on the sockets.\<close>

definition worker_does :: "nat \<Rightarrow> result \<Rightarrow> office \<Rightarrow> office option" where
  "worker_does i r s =
     do { t \<leftarrow> worker_step i r (server s);
          Some (if r = Fail then s\<lparr>server := t\<rparr>
            else (case workers (server s) ! i of
               WGreet fd \<Rightarrow> s\<lparr>server := t, down := (down s)(peer s fd := down s (peer s fd) @ greeting)\<rparr>
             | WRead fd \<Rightarrow> s\<lparr>server := t, up := (up s)(peer s fd := drop SIZE_BUF (up s (peer s fd))), heard := heard s @ [fd]\<rparr>
             | _ \<Rightarrow> s\<lparr>server := t\<rparr>)) }"

definition main_does :: "result \<Rightarrow> office \<Rightarrow> office option" where
  "main_does r s =
     do { t \<leftarrow> accept_step r (server s);
          (if main_pc (server s) = MWait \<and> r \<noteq> Fail
           then (case r of
               Conn fd \<Rightarrow> (case waiting s of
                  [] \<Rightarrow> None
                | k # ks \<Rightarrow> Some (s\<lparr>server := t, waiting := ks, peer := (peer s)(fd := k)\<rparr>))
             | _ \<Rightarrow> None)
           else Some (s\<lparr>server := t\<rparr>)) }"

definition client_does :: "(nat \<Rightarrow> string) \<Rightarrow> nat \<Rightarrow> result \<Rightarrow> office \<Rightarrow> office option" where
  "client_does clock k r s =
     do { c \<leftarrow> client_step (clock k) r (clients s ! k);
          let s' = s\<lparr>clients := (clients s)[k := c]\<rparr>;
          Some (if r = Fail then s'
            else (case client_at (clients s ! k) of
               CConnect \<Rightarrow> s'\<lparr>waiting := waiting s @ [k]\<rparr>
             | CRecv \<Rightarrow> s'\<lparr>down := (down s)(k := drop LINE (down s k))\<rparr>
             | CSend m \<Rightarrow> s'\<lparr>up := (up s)(k := up s k @ m)\<rparr>
             | _ \<Rightarrow> s')) }"

inductive office_step ::
  "(nat \<Rightarrow> string) \<Rightarrow> (nat \<Rightarrow> char list) \<Rightarrow> (nat \<Rightarrow> char list) \<Rightarrow> office \<Rightarrow> office \<Rightarrow> bool" for clock sj cj where
  a_worker: "status (server s) = Running \<Longrightarrow> i < COUNT_OF_THREADS \<Longrightarrow> server_gets sj i r s \<Longrightarrow> worker_does i r s = Some t \<Longrightarrow>
    office_step clock sj cj s t"
| the_main: "status (server s) = Running \<Longrightarrow> \<forall>fd. r = Conn fd \<longrightarrow> fd \<notin> set (accepted (server s)) \<Longrightarrow> main_does r s = Some t \<Longrightarrow>
    office_step clock sj cj s t"
| a_client: "k < length (clients s) \<Longrightarrow> client_gets cj k r s \<Longrightarrow> client_does clock k r s = Some t \<Longrightarrow> office_step clock sj cj s t"
| a_signal: "status (server s) = Running \<Longrightarrow> office_step clock sj cj s (s\<lparr>server := handle_signal (server s)\<rparr>)"

inductive_cases office_stepE: "office_step clock sj cj s t"

definition office_start :: "nat \<Rightarrow> office" where
  "office_start n = \<lparr>server = pool_start, clients = replicate n \<lparr>client_at = CConnect, out_c = []\<rparr>, waiting = [],
     peer = (\<lambda>_. 0), down = (\<lambda>_. []), up = (\<lambda>_. []), heard = []\<rparr>"

text \<open>No call has failed, no signal has come, and nothing undefined has happened.\<close>

definition calm :: "office \<Rightarrow> bool" where
  "calm s \<longleftrightarrow> status (server s) = Running \<and> (\<forall>c \<in> set (clients s). client_at c \<noteq> CEnd 1 \<and> client_at c \<noteq> CUndef)"

definition calm_step ::
  "(nat \<Rightarrow> string) \<Rightarrow> (nat \<Rightarrow> char list) \<Rightarrow> (nat \<Rightarrow> char list) \<Rightarrow> office \<Rightarrow> office \<Rightarrow> bool" where
  "calm_step clock sj cj s t \<longleftrightarrow> calm s \<and> office_step clock sj cj s t \<and> calm t"

section \<open>The server alone\<close>

text \<open>Seen from the server, its clients do nothing that it could not see without them.\<close>

interpretation office_pool: refinement "\<lambda>s. s = office_start n" "office_step clock sj cj" "\<lambda>_. True"
  server "\<lambda>s. s = pool_start" pool_step for n clock sj cj
proof
  fix s t assume "office_step clock sj cj s t"
  then show "server t = server s \<or> pool_step (server s) (server t)"
  proof (rule office_stepE)
    fix i r assume a: "status (server s) = Running" "i < COUNT_OF_THREADS" "worker_does i r s = Some t"
    then have "worker_step i r (server s) = Some (server t)"
      by (auto simp: worker_does_def bind_eq_Some_conv' split: if_splits worker.splits)
    then show ?thesis using a(1,2) by (blast intro: by_worker)
  next
    fix r assume a: "status (server s) = Running" "\<forall>fd. r = Conn fd \<longrightarrow> fd \<notin> set (accepted (server s))" "main_does r s = Some t"
    then have "accept_step r (server s) = Some (server t)"
      by (cases r; cases "waiting s") (auto simp: main_does_def bind_eq_Some_conv' split: if_splits)
    then show ?thesis using a(1,2) by (blast intro: by_main)
  next
    fix k r assume "client_does clock k r s = Some t"
    then have "server t = server s"
      by (auto simp: client_does_def Let_def bind_eq_Some_conv' split: if_splits client_at.splits)
    then show ?thesis ..
  next
    assume "status (server s) = Running" "t = s\<lparr>server := handle_signal (server s)\<rparr>"
    then show ?thesis by (simp add: by_signal)
  qed
qed (simp_all add: office_start_def)

end
