(* ===== verification/Office_Correct.thy ===== *)
theory Office_Correct
  imports Office
begin

text \<open>
  Server and clients of \<open>sokets2/3scheme\<close> together: when no call fails, every client is greeted, the server
  shows what every client sends, and then everything comes to rest.
\<close>

section \<open>Calm steps\<close>







section \<open>The invariant\<close>


















section \<open>The steps keep the invariant\<close>














section \<open>Everything comes to rest\<close>















end
