(* ===== verification/Exchange.thy ===== *)
theory Exchange
  imports Conversations
begin

text \<open>
  The servers that start a client as a child process and wait for it: one message each way through a
  queue (\<open>queue/SystemV\<close>, \<open>queue/Posix\<close>) or a shared string (\<open>shared_memory/SystemV\<close>, \<open>shared_memory/Posix\<close>);
  trees of processes (\<open>file_manager/process\<close>); the bot of \<open>sokets2\<close>; the counter of \<open>raw_socket/sniffer.c\<close>.
  The client may be found or not (\<open>launch\<close>); the terminal is taken to show every line when it is printed.
\<close>

section \<open>Queues\<close>

text \<open>
  A System V queue: messages with their types.  \<open>msgrcv\<close> takes the first of the type, any for 0; it fails
  when there is none and the array keeps its indeterminate contents.
\<close>

type_synonym sysv_queue = "(int \<times> char list) list"

definition msgrcv :: "int \<Rightarrow> char list \<Rightarrow> sysv_queue \<Rightarrow> char list \<times> sysv_queue" where
  "msgrcv ty junk q =
     (case filter (\<lambda>m. ty = 0 \<or> fst m = ty) q of
        [] \<Rightarrow> (junk, q)
      | m # _ \<Rightarrow> (recv_buf junk (snd m), remove1 m q))"

definition sysv_client :: "char list \<Rightarrow> char list \<Rightarrow> sysv_queue \<Rightarrow> (string \<times> sysv_queue) option" where
  "sysv_client rcv snd0 q =
     (let (m, q1) = msgrcv 0 rcv q in
      do { t \<leftarrow> rd_str m;
           b \<leftarrow> strcpy snd0 (lit (''Hi, I'' @ [CHR 0x27] @ ''m Maksi %)''));
           Some (''sent message: '' @ t @ [NL], q1 @ [(3, b)]) })"

text \<open>
  The rest of the server after the branches: it takes an answer and removes the queue; for the process that comes
  second the queue is gone, and nothing is received.
\<close>

definition sysv_report :: "char list \<Rightarrow> sysv_queue \<Rightarrow> string option" where
  "sysv_report rcv q = do { t \<leftarrow> rd_str (fst (msgrcv 3 rcv q)); Some (''received message: '' @ t @ [NL]) }"

definition sysv_server :: "launch \<Rightarrow> char list \<Rightarrow> char list \<Rightarrow> char list \<Rightarrow> char list \<Rightarrow> sysv_queue \<Rightarrow> string option" where
  "sysv_server l buf rcv crcv csnd q0 =
     do { b \<leftarrow> strcpy buf (lit (''Hello, I'' @ [CHR 0x27] @ ''m Lilo ^-^''));
          let q = q0 @ [(1, b)];
          (o1, q1) \<leftarrow> (case l of
              Started \<Rightarrow> sysv_client crcv csnd q
            | Not_found \<Rightarrow> do { o1 \<leftarrow> sysv_report rcv q; Some (o1, []) }
            | Not_forked \<Rightarrow> Some ([], q));
          o2 \<leftarrow> sysv_report rcv q1;
          Some (o1 @ o2) }"

text \<open>
  A POSIX queue of messages of one priority, none longer than its \<open>size\<close>, which is 255 where the server makes the
  queue.  Receiving waits on an empty queue, which is no result; it is an error when the array is smaller than the size.
\<close>

definition mq_send :: "nat \<Rightarrow> char list \<Rightarrow> char list list \<Rightarrow> char list list" where
  "mq_send msz m q = (if length m \<le> msz then q @ [m] else q)"

definition mq_receive :: "nat \<Rightarrow> char list \<Rightarrow> char list list \<Rightarrow> (bool \<times> char list \<times> char list list) option" where
  "mq_receive msz buf q =
     (if length buf < msz then Some (False, buf, q)
      else case q of [] \<Rightarrow> None | d # q' \<Rightarrow> Some (True, recv_buf buf d, q'))"

definition posix_client :: "nat \<Rightarrow> char list \<Rightarrow> char list list \<Rightarrow> (string \<times> char list list) option" where
  "posix_client msz buf q =
     do { (_, b, q1) \<leftarrow> mq_receive msz buf q;
          t \<leftarrow> rd_str b;
          Some (''sent message: '' @ t @ [NL], mq_send msz (lit (''I'' @ [CHR 0x27] @ ''m OK!'')) q1) }"

text \<open>
  The rest of the server; the flag tells whether the process ends: on an empty queue it waits for ever.  The
  queue stays usable for the processes that have it open when one of them has unlinked it.
\<close>

definition posix_report :: "nat \<Rightarrow> char list \<Rightarrow> char list list \<Rightarrow> (string \<times> bool \<times> char list list) option" where
  "posix_report msz receive_buf q =
     (case mq_receive msz receive_buf q of None \<Rightarrow> Some ([], False, [])
      | Some (ok, b, q') \<Rightarrow>
          do { t \<leftarrow> rd_str b; Some ((if ok then [] else ''mq_receive'') @ ''recieve message: '' @ t @ [NL], True, q') })"

definition posix_server :: "nat \<Rightarrow> launch \<Rightarrow> char list \<Rightarrow> char list \<Rightarrow> char list list \<Rightarrow> (string \<times> bool) option" where
  "posix_server msz l receive_buf cbuf q0 =
     do { let q = mq_send msz (lit ''Heeeey, how are U??'') q0;
          (o1, ended, q1) \<leftarrow> (case l of
              Started \<Rightarrow>
                (case mq_receive msz cbuf q of None \<Rightarrow> Some ([], False, [])
                 | Some _ \<Rightarrow> do { (o1, q1) \<leftarrow> posix_client msz cbuf q; Some (o1, True, q1) })
            | Not_found \<Rightarrow> posix_report msz receive_buf q
            | Not_forked \<Rightarrow> Some ([], True, q));
          if ended then do { (o2, e, _) \<leftarrow> posix_report msz receive_buf q1; Some (o1 @ o2, e) } else Some (o1, False) }"

section \<open>Shared strings\<close>

text \<open>The servers are the same up to their texts; the array is the segment, the clients are the first argument.\<close>

definition show_string :: "char list \<Rightarrow> string option" where
  "show_string m = do { t \<leftarrow> rd_str m; Some (t @ [NL]) }"

definition posix_shm_client :: "char list \<Rightarrow> (string \<times> char list) option" where
  "posix_shm_client m = do { t \<leftarrow> show_string m; m' \<leftarrow> strcpy m (lit ''OMG, awesome!''); Some (t, m') }"

definition sysv_shm_client :: "char list \<Rightarrow> (string \<times> char list) option" where
  "sysv_shm_client m = do { t \<leftarrow> show_string m; m' \<leftarrow> strcpy m (lit ''Hi! Have a good day)''); Some (t, m') }"

definition string_server :: "(char list \<Rightarrow> (string \<times> char list) option) \<Rightarrow> string \<Rightarrow> launch \<Rightarrow> char list \<Rightarrow> string option" where
  "string_server client text l m0 =
     do { m \<leftarrow> strcpy m0 (lit text);
          (o1, m') \<leftarrow> (case l of
              Started \<Rightarrow> client m
            | Not_found \<Rightarrow> do { t \<leftarrow> show_string m; Some (t, m) }
            | Not_forked \<Rightarrow> Some ([], m));
          o2 \<leftarrow> show_string m';
          Some (o1 @ o2) }"

definition posix_shm :: "launch \<Rightarrow> char list \<Rightarrow> string option" where
  "posix_shm = string_server posix_shm_client ''Today is 19th of July''"

definition sysv_shm :: "launch \<Rightarrow> char list \<Rightarrow> string option" where
  "sysv_shm = string_server sysv_shm_client ''Hello''"

section \<open>Trees of processes\<close>

text \<open>
  The possible outputs as sets of sequences of lines: a parent and its child print in any order until
  the parent waits.
\<close>

definition exit_status :: "int \<Rightarrow> int" where
  "exit_status n = (n mod 256) * 256"

definition WEXITSTATUS :: "int \<Rightarrow> int" where
  "WEXITSTATUS s = (s div 256) mod 256"

definition fork1_outputs :: "int \<Rightarrow> int \<Rightarrow> string list set" where
  "fork1_outputs parent child =
     (\<lambda>ls. ls @ [''Status = '' @ show_int (WEXITSTATUS (exit_status 5))]) `
       shuffles [''Child pid = '' @ show_int child] [''Parent pid = '' @ show_int parent]"

definition pid_line :: "int \<Rightarrow> int \<Rightarrow> string" where
  "pid_line pid ppid = ''pid='' @ show_int pid @ '' ppid='' @ show_int ppid"

definition fork2_outputs :: "int \<Rightarrow> int \<Rightarrow> int \<Rightarrow> int \<Rightarrow> int \<Rightarrow> int \<Rightarrow> string list set" where
  "fork2_outputs src c1 c2 c3 c4 c5 =
     (\<lambda>ls. ls @ [pid_line c4 src, pid_line c5 c4]) `
       shuffles [''source Pid='' @ show_int src] [pid_line c1 src, pid_line c2 c1, pid_line c3 c1]"

section \<open>The bot and the counter\<close>

text \<open>\<open>argv\<close>: the words of the command line; the result holds the paths of the programs started.\<close>

definition bot_main :: "char list list \<Rightarrow> (int \<times> string \<times> string list) option" where
  "bot_main argv =
     (if length argv \<noteq> 2
      then Some (0, ''You started programm Wrong!'' @ [NL] @ ''Example: ./bot '' @ [CHR 0x27] @ ''path to client'' @ [CHR 0x27] @ [NL], [])
      else do { b \<leftarrow> strcpy (replicate 255 NUL) (argv ! 1); p \<leftarrow> rd_str b; Some (0, [], replicate 1000 p) })"

text \<open>The loop over what \<open>recvfrom\<close> gives: \<open>None\<close> is an error; the second result is the exit status.\<close>

fun sniff :: "int \<Rightarrow> char list option list \<Rightarrow> string list \<times> int option" where
  "sniff n [] = ([], None)"
| "sniff n (None # ps) = ([''recvfrom''], Some 1)"
| "sniff n (Some p # ps) = (let (ls, r) = sniff (n + 1) ps in ((''Received udp packets: '' @ show_int (n + 1)) # ls, r))"

definition sniffer_main :: "bool \<Rightarrow> char list option list \<Rightarrow> string list \<times> int option" where
  "sniffer_main made ps = (if made then sniff 0 ps else ([''socket''], Some 1))"

section \<open>Signals\<close>

text \<open>
  \<open>signals/1tsk\<close>: what is printed, and how the first program ends: with a status, or killed by \<open>SIGINT\<close>.
  \<open>signals/2tsk/cln.c\<close>: what is printed before and after the signal, and the process it is sent to.
\<close>

datatype ending = Status int | Killed int

definition signal_task :: "bool \<Rightarrow> string list \<times> ending" where
  "signal_task forked =
     (if forked
      then ([''Program 1 started.'', ''Program 2 started.'', ''Program 2 sends signal to program 1.'', ''Program 2 finished.''], Killed 2)
      else ([''Program 1 started.'', ''fork failed''], Status 1))"

definition signal_client :: "char list list \<Rightarrow> (string list \<times> (int \<times> string list) option) option" where
  "signal_client argv =
     (if length argv \<noteq> 2
      then Some ([''Starting programm Wrong'', ''After name of programm you should wrote a PID''], None)
      else do { pid \<leftarrow> atoi (argv ! 1); Some ([''Program 2 started.''], Some (pid, [''Program 2 finished.''])) })"

section \<open>Properties\<close>

lemma strcpy_text:
  assumes "NUL \<notin> set t" "length t < length dst"
  obtains b where "strcpy dst (lit t) = Some b" "length b = length dst" "NUL \<in> set b" "cstr b = t" "rd_str b = Some t"
proof -
  have "NUL \<in> set (lit t)" "cstr (lit t) = t" using assms(1) by (simp_all add: lit_def cstr_lit)
  then show thesis using strcpy_returns [of "lit t" dst] assms(2) that by (auto simp: cmem elim!: returnsE)
qed

lemma recv_array: "length b = length junk \<Longrightarrow> recv_buf junk b = b"
  by (simp add: recv_buf_def)

lemma recv_lit:
  assumes "NUL \<notin> set t" "length t < length junk"
  shows "rd_str (recv_buf junk (lit t)) = Some t"
  using assms by (simp add: recv_buf_def lit_def rd_str_def cstr_lit)

text \<open>A shared segment of 100 bytes, with a client that shows the text and leaves \<open>y\<close>.\<close>

lemma string_server_shows:
  assumes "\<And>m. client m = do { t \<leftarrow> show_string m; m' \<leftarrow> strcpy m (lit y); Some (t, m') }" "length m = 100"
    and "NUL \<notin> set x" "length x < 100" "NUL \<notin> set y" "length y < 100"
  shows "string_server client x l m = Some (case l of
    Started \<Rightarrow> x @ [NL] @ y @ [NL] | Not_found \<Rightarrow> x @ [NL] @ x @ [NL] | Not_forked \<Rightarrow> x @ [NL])"
proof -
  obtain b where b: "strcpy m (lit x) = Some b" "length b = length m" "rd_str b = Some x"
    using strcpy_text [OF assms(3)] assms(2,4) by metis
  obtain c where "strcpy b (lit y) = Some c" "rd_str c = Some y" using strcpy_text [OF assms(5), of b] assms(2,6) b(2) by metis
  then show ?thesis by (cases l) (simp_all add: string_server_def show_string_def assms(1) b)
qed

lemma shm_texts:
  assumes "length m = 100"
  shows "posix_shm l m = Some (case l of Started \<Rightarrow> ''Today is 19th of July'' @ [NL] @ ''OMG, awesome!'' @ [NL]
      | Not_found \<Rightarrow> ''Today is 19th of July'' @ [NL] @ ''Today is 19th of July'' @ [NL] | Not_forked \<Rightarrow> ''Today is 19th of July'' @ [NL])"
    "sysv_shm l m = Some (case l of Started \<Rightarrow> ''Hello'' @ [NL] @ ''Hi! Have a good day)'' @ [NL]
      | Not_found \<Rightarrow> ''Hello'' @ [NL] @ ''Hello'' @ [NL] | Not_forked \<Rightarrow> ''Hello'' @ [NL])"
  unfolding posix_shm_def sysv_shm_def
  by (rule string_server_shows [OF posix_shm_client_def assms] string_server_shows [OF sysv_shm_client_def assms], simp_all add: NUL_def)+

lemma sysv_first:
  assumes "length buf = 255"
  obtains b where "strcpy buf (lit (''Hello, I'' @ [CHR 0x27] @ ''m Lilo ^-^'')) = Some b" "length b = 255"
    "rd_str b = Some (''Hello, I'' @ [CHR 0x27] @ ''m Lilo ^-^'')"
  by (rule strcpy_text [of "''Hello, I'' @ [CHR 0x27] @ ''m Lilo ^-^''" buf]) (use assms in \<open>simp_all add: NUL_def\<close>)

lemma posix_sends:
  "mq_send 255 (lit ''Heeeey, how are U??'') q = q @ [lit ''Heeeey, how are U??'']"
  "mq_send 255 (lit (''I'' @ [CHR 0x27] @ ''m OK!'')) q = q @ [lit (''I'' @ [CHR 0x27] @ ''m OK!'')]"
  by (simp_all add: mq_send_def lit_def)

lemma posix_texts:
  assumes "length junk = 255"
  shows "rd_str (recv_buf junk (lit ''Heeeey, how are U??'')) = Some ''Heeeey, how are U??''"
    "rd_str (recv_buf junk (lit (''I'' @ [CHR 0x27] @ ''m OK!''))) = Some (''I'' @ [CHR 0x27] @ ''m OK!'')"
  by (rule recv_lit, simp add: NUL_def, simp add: assms)+

text \<open>
  A server and the client it starts exchange their texts: with an empty queue of either kind, and with
  any contents of the shared segment, the output is the server's text shown by the client and then
  the client's text shown by the server.
\<close>

theorem exchange_sessions:
  assumes "length buf = 255" "length rcv = 255" "length crcv = 255" "length csnd = 255" "length m = 100"
  shows "sysv_server Started buf rcv crcv csnd [] = Some (''sent message: Hello, I'' @ [CHR 0x27] @ ''m Lilo ^-^'' @ [NL] @
      ''received message: Hi, I'' @ [CHR 0x27] @ ''m Maksi %)'' @ [NL]) \<and>
    posix_server 255 Started rcv crcv [] = Some (''sent message: Heeeey, how are U??'' @ [NL] @ ''recieve message: I'' @ [CHR 0x27] @ ''m OK!'' @ [NL], True) \<and>
    posix_shm Started m = Some (''Today is 19th of July'' @ [NL] @ ''OMG, awesome!'' @ [NL]) \<and>
    sysv_shm Started m = Some (''Hello'' @ [NL] @ ''Hi! Have a good day)'' @ [NL])"
proof (intro conjI)
  let ?h = "''Hello, I'' @ [CHR 0x27] @ ''m Lilo ^-^''" and ?a = "''Hi, I'' @ [CHR 0x27] @ ''m Maksi %)''"
  obtain b where b: "strcpy buf (lit ?h) = Some b" "length b = 255" "rd_str b = Some ?h" by (rule sysv_first [OF assms(1)])
  obtain c where c: "strcpy csnd (lit ?a) = Some c" "length c = 255" "rd_str c = Some ?a"
    by (rule strcpy_text [of ?a csnd]) (use assms(4) in \<open>simp_all add: NUL_def\<close>)
  have "sysv_client crcv csnd [(1, b)] = Some (''sent message: '' @ ?h @ [NL], [(3, c)])"
    unfolding sysv_client_def msgrcv_def using b(2,3) c(1) assms(3) recv_array [of b crcv] by simp
  then show "sysv_server Started buf rcv crcv csnd [] = Some (''sent message: Hello, I'' @ [CHR 0x27] @ ''m Lilo ^-^'' @ [NL] @
      ''received message: Hi, I'' @ [CHR 0x27] @ ''m Maksi %)'' @ [NL])"
    unfolding sysv_server_def sysv_report_def msgrcv_def using b(1) c(2,3) assms(2) recv_array [of c rcv] by simp
  show "posix_server 255 Started rcv crcv [] = Some (''sent message: Heeeey, how are U??'' @ [NL] @ ''recieve message: I'' @ [CHR 0x27] @ ''m OK!'' @ [NL], True)"
    using posix_texts [OF assms(2)] posix_texts [OF assms(3)] 
    by (simp add: posix_server_def posix_client_def posix_report_def mq_receive_def posix_sends posix_sends [simplified] assms)
qed (simp_all add: shm_texts [OF assms(5)])

theorem exchange_sessions_witness:
  "posix_shm Started (replicate 100 (CHR ''x'')) = Some (''Today is 19th of July'' @ [NL] @ ''OMG, awesome!'' @ [NL])"
  using exchange_sessions [of "replicate 255 NUL" "replicate 255 NUL" "replicate 255 NUL" "replicate 255 NUL" "replicate 100 (CHR ''x'')"]
  by (simp only: length_replicate simp_thms)

text \<open>
  Where the client is not found the child goes on as if it were the server.  With the System V queue both show what
  the array happens to hold; with the POSIX queue the child takes the server's own message, and the parent waits
  for another for ever; the shared text is shown twice.
\<close>

theorem exchange_without_client:
  assumes "length buf = 255" "length rcv = 255" "NUL \<in> set rcv" "length m = 100"
  shows "sysv_server Not_found buf rcv crcv csnd [] =
      Some (''received message: '' @ cstr rcv @ [NL] @ ''received message: '' @ cstr rcv @ [NL]) \<and>
    posix_server 255 Not_found rcv cbuf [] = Some (''recieve message: Heeeey, how are U??'' @ [NL], False) \<and>
    posix_shm Not_found m = Some (''Today is 19th of July'' @ [NL] @ ''Today is 19th of July'' @ [NL]) \<and>
    sysv_shm Not_found m = Some (''Hello'' @ [NL] @ ''Hello'' @ [NL])"
proof (intro conjI)
  obtain b where b: "strcpy buf (lit (''Hello, I'' @ [CHR 0x27] @ ''m Lilo ^-^'')) = Some b" by (rule sysv_first [OF assms(1)])
  then show "sysv_server Not_found buf rcv crcv csnd [] = Some (''received message: '' @ cstr rcv @ [NL] @ ''received message: '' @ cstr rcv @ [NL])"
    using assms(3) by (simp add: sysv_server_def sysv_report_def msgrcv_def cmem)
  show "posix_server 255 Not_found rcv cbuf [] = Some (''recieve message: Heeeey, how are U??'' @ [NL], False)"
    using posix_texts [OF assms(2)] by (simp add: posix_server_def posix_report_def mq_receive_def posix_sends posix_sends [simplified] assms)
qed (simp_all add: shm_texts [OF assms(4)])

theorem exchange_without_client_witness:
  "posix_server 255 Not_found (replicate 255 NUL) [] [] = Some (''recieve message: Heeeey, how are U??'' @ [NL], False)"
  using exchange_without_client [of "replicate 255 NUL" "replicate 255 NUL" "replicate 100 NUL" _ _ "[]"] by (simp only: length_replicate) simp

text \<open>A queue that is there already with longer messages: nothing is received, and both show what their arrays hold.\<close>

lemma posix_other_queue:
  assumes "length rcv = 255" "length cbuf = 255" "NUL \<in> set rcv" "NUL \<in> set cbuf" "255 < msz"
  shows "posix_server msz Started rcv cbuf q0 =
    Some (''sent message: '' @ cstr cbuf @ [NL] @ ''mq_receive'' @ ''recieve message: '' @ cstr rcv @ [NL], True)"
  using assms by (simp add: posix_server_def posix_client_def posix_report_def mq_receive_def cmem)

text \<open>A message left in the queue is shown instead of the server's.\<close>

lemma sysv_stale:
  assumes "length crcv = 255" "length d = 255" "NUL \<in> set d" "length csnd = 255"
  shows "\<exists>q. sysv_client crcv csnd ((ty, d) # q0) = Some (''sent message: '' @ cstr d @ [NL], q)"
proof -
  let ?a = "''Hi, I'' @ [CHR 0x27] @ ''m Maksi %)''"
  obtain c where "strcpy csnd (lit ?a) = Some c" by (rule strcpy_text [of ?a csnd]) (use assms(4) in \<open>simp_all add: NUL_def\<close>)
  then show ?thesis using assms recv_array [of d crcv] by (simp add: sysv_client_def msgrcv_def cmem)
qed

text \<open>The trees: the status of the child is 5, and the lines of one process come in their order.\<close>

lemma fork1_lines:
  "fork1_outputs p c = {[''Child pid = '' @ show_int c, ''Parent pid = '' @ show_int p, ''Status = 5''],
     [''Parent pid = '' @ show_int p, ''Child pid = '' @ show_int c, ''Status = 5'']}"
proof -
  have "show_int (WEXITSTATUS (exit_status 5)) = ''5''"
    by (simp add: WEXITSTATUS_def exit_status_def show_int_def show_nat.simps char_of_def bit_0)
  then show ?thesis by (auto simp: fork1_outputs_def)
qed

lemma fork2_lines:
  assumes "ls \<in> fork2_outputs src c1 c2 c3 c4 c5"
  shows "length ls = 6 \<and> drop 4 ls = [pid_line c4 src, pid_line c5 c4] \<and>
    mset ls = {#''source Pid='' @ show_int src, pid_line c1 src, pid_line c2 c1, pid_line c3 c1, pid_line c4 src, pid_line c5 c4#}"
  using assms by (auto simp: fork2_outputs_def)

lemma bot_bounds:
  "NUL \<in> set path \<Longrightarrow> bot_main [prog, path] = (if length (cstr path) < 255 then Some (0, [], replicate 1000 (cstr path)) else None)"
proof -
  assume n: "NUL \<in> set path"
  show ?thesis
  proof (cases "length (cstr path) < 255")
    case True
    obtain b where "strcpy (replicate 255 NUL) path = Some b" "rd_str b = Some (cstr path)"
      using strcpy_returns [OF n, of "replicate 255 NUL"] True by (auto simp: cmem elim!: returnsE)
    then show ?thesis using True by (simp add: bot_main_def)
  next
    case False
    then show ?thesis using strcpy_None [OF n, of "replicate 255 NUL"] by (simp add: bot_main_def)
  qed
qed

text \<open>The counter numbers the packets from 1 on and goes on until an error.\<close>

lemma sniff_counts: "sniff n (map Some ps) = (map (\<lambda>k. ''Received udp packets: '' @ show_int (n + int k + 1)) [0..<length ps], None)"
proof (induction ps arbitrary: n)
  case (Cons p ps)
  have "[0..<length (p # ps)] = 0 # map Suc [0..<length ps]" by (simp add: upt_conv_Cons map_Suc_upt del: upt_Suc)
  then show ?case using Cons.IH [of "n + 1"] by (simp add: comp_def algebra_simps del: upt_Suc)
qed simp

text \<open>
  A word that is no number is taken for the process 0, which means the group of the program itself.
\<close>

lemma signal_client_no_number:
  assumes "NUL \<notin> set w" "w \<noteq> []" "\<not> isdigit (w ! 0)" "\<not> isspace (w ! 0)" "w ! 0 \<noteq> CHR ''-''" "w ! 0 \<noteq> CHR ''+''"
  shows "signal_client [prog, lit w] = Some ([''Program 2 started.''], Some (0, [''Program 2 finished.'']))"
proof -
  obtain c cs where w: "w = c # cs" using assms(2) by (cases w) auto
  show ?thesis using assms by (simp add: signal_client_def atoi_def rd_str_lit w Let_def digits_val_def)
qed

end
