(* ===== verification/Signals.thy ===== *)
theory Signals
  imports Exchange Numbers Transition
begin

text \<open>
  The two programs of \<open>signals/2tsk\<close> together: \<open>srv.c\<close> prints its number and sleeps for ever, \<open>cln.c\<close> sends
  \<open>SIGINT\<close> to the process whose number it is given.  A step is one statement of either program.
\<close>

text \<open>
  \<open>srv_at\<close>, \<open>cln_at\<close>: the next statement; \<open>SEnd\<close> is the line behind the loop of the server, which it never
  reaches.
\<close>

datatype srv_at = SPid | SDefault | SStart | SSleep | SEnd

datatype cln_at = CStart | CKill int | CFinish | CEnd

datatype disposition = Default | Ignored

record two_progs =
  srv_at :: srv_at
  sigint :: disposition
  alive :: bool
  srv_out :: "string list"
  cln_at :: cln_at
  cln_out :: "string list"

text \<open>
  What the system decides: the disposition of \<open>SIGINT\<close> that the server inherits from the program that started it,
  whether \<open>kill\<close> with a given number is allowed and reaches the server, and whether it ends the client itself
  (with the number 0 or a negative one it goes to a group).
\<close>

record signals =
  inherited :: disposition
  reaches :: "int \<Rightarrow> bool"
  ends_self :: "int \<Rightarrow> bool"

text \<open>\<open>pid\<close> is the number of the server; \<open>signal(SIGINT, SIG_DFL)\<close> sets the disposition.\<close>

definition srv_step :: "int \<Rightarrow> two_progs \<Rightarrow> two_progs option" where
  "srv_step pid s =
     (if \<not> alive s then None
      else case srv_at s of
        SPid \<Rightarrow> Some (s\<lparr>srv_at := SDefault, srv_out := srv_out s @ [''My PID = '' @ show_int pid]\<rparr>)
      | SDefault \<Rightarrow> Some (s\<lparr>srv_at := SStart, sigint := Default\<rparr>)
      | SStart \<Rightarrow> Some (s\<lparr>srv_at := SSleep, srv_out := srv_out s @ [''Program 1 started.'']\<rparr>)
      | SSleep \<Rightarrow> Some s
      | SEnd \<Rightarrow> Some (s\<lparr>srv_out := srv_out s @ [''Program 1 finished.'']\<rparr>))"

text \<open>A signal with the disposition \<open>Default\<close> ends the server, one that is ignored does nothing.\<close>

definition deliver :: "two_progs \<Rightarrow> two_progs" where
  "deliver s = (if sigint s = Default then s\<lparr>alive := False\<rparr> else s)"

text \<open>\<open>argv\<close>: the command line of the client; what \<open>kill\<close> returns is not looked at.\<close>

definition cln_step :: "signals \<Rightarrow> char list list \<Rightarrow> two_progs \<Rightarrow> two_progs option" where
  "cln_step sy argv s =
     (case cln_at s of
        CStart \<Rightarrow>
          (case signal_client argv of
             None \<Rightarrow> None
           | Some (before, None) \<Rightarrow> Some (s\<lparr>cln_at := CEnd, cln_out := cln_out s @ before\<rparr>)
           | Some (before, Some (p, _)) \<Rightarrow> Some (s\<lparr>cln_at := CKill p, cln_out := cln_out s @ before\<rparr>))
      | CKill p \<Rightarrow>
          (let s' = (if reaches sy p then deliver s else s)
           in Some (s'\<lparr>cln_at := (if ends_self sy p then CEnd else CFinish)\<rparr>))
      | CFinish \<Rightarrow> Some (s\<lparr>cln_at := CEnd, cln_out := cln_out s @ [''Program 2 finished.'']\<rparr>)
      | CEnd \<Rightarrow> None)"

inductive signal_step :: "signals \<Rightarrow> int \<Rightarrow> char list list \<Rightarrow> two_progs \<Rightarrow> two_progs \<Rightarrow> bool" for sy pid argv where
  by_srv: "srv_step pid s = Some t \<Longrightarrow> signal_step sy pid argv s t"
| by_cln: "cln_step sy argv s = Some t \<Longrightarrow> signal_step sy pid argv s t"

inductive_cases signal_stepE: "signal_step sy pid argv s t"

definition signal_start :: "signals \<Rightarrow> two_progs" where
  "signal_start sy = \<lparr>srv_at = SPid, sigint = inherited sy, alive = True, srv_out = [], cln_at = CStart, cln_out = []\<rparr>"

section \<open>The server is ended by the number it printed\<close>

definition srv_lines :: "int \<Rightarrow> srv_at \<Rightarrow> string list" where
  "srv_lines pid a = (case a of SPid \<Rightarrow> [] | SDefault \<Rightarrow> [''My PID = '' @ show_int pid] | SStart \<Rightarrow> [''My PID = '' @ show_int pid]
     | _ \<Rightarrow> [''My PID = '' @ show_int pid, ''Program 1 started.''])"

definition cln_lines :: "cln_at \<Rightarrow> string list" where
  "cln_lines a = (case a of CStart \<Rightarrow> [] | CEnd \<Rightarrow> [''Program 2 started.'', ''Program 2 finished.''] | _ \<Rightarrow> [''Program 2 started.''])"

text \<open>The disposition is the inherited one up to the call of \<open>signal\<close>.\<close>

definition signal_inv :: "signals \<Rightarrow> int \<Rightarrow> two_progs \<Rightarrow> bool" where
  "signal_inv sy pid s \<longleftrightarrow> srv_at s \<noteq> SEnd \<and> srv_out s = srv_lines pid (srv_at s) \<and> cln_out s = cln_lines (cln_at s) \<and>
     sigint s = (if srv_at s \<in> {SPid, SDefault} then inherited sy else Default) \<and>
     (case cln_at s of CStart \<Rightarrow> alive s | CKill p \<Rightarrow> alive s \<and> p = pid
      | _ \<Rightarrow> (reaches sy pid \<and> inherited sy = Default \<longrightarrow> \<not> alive s) \<and> (\<not> reaches sy pid \<longrightarrow> alive s))"

lemma signal_client_pid:
  assumes "0 < pid" "fits32 pid"
  shows "signal_client [prog, lit (show_int pid)] = Some ([''Program 2 started.''], Some (pid, [''Program 2 finished.'']))"
proof -
  have "show_int pid = show_nat (nat pid)" using assms(1) by (simp add: show_int_def)
  then have "NUL \<notin> set (show_int pid)" using show_nat_digits [of "nat pid"] digit_not_space by auto
  then have "NUL \<in> set (lit (show_int pid))" "cstr (lit (show_int pid)) = show_int pid" by (simp_all add: lit_def cstr_lit)
  from atoi_show [OF this _ assms(2)] assms(1) show ?thesis by (simp add: signal_client_def)
qed

interpretation signal_sys: inductive_invariant "\<lambda>s. s = signal_start sy \<and> 0 < pid \<and> fits32 pid \<and> \<not> ends_self sy pid"
  "signal_step sy pid [prog, lit (show_int pid)]" "\<lambda>s. signal_inv sy pid s \<and> 0 < pid \<and> fits32 pid \<and> \<not> ends_self sy pid" for sy pid prog
proof
  fix s t assume i: "signal_inv sy pid s \<and> 0 < pid \<and> fits32 pid \<and> \<not> ends_self sy pid" "signal_step sy pid [prog, lit (show_int pid)] s t"
  have c: "signal_client [prog, lit (show_int pid)] = Some ([''Program 2 started.''], Some (pid, [''Program 2 finished.'']))"
    using i(1) by (intro signal_client_pid) simp_all
  from i(2) have "signal_inv sy pid t"
  proof (rule signal_stepE)
    assume t: "srv_step pid s = Some t"
    have inv: "srv_at s \<noteq> SEnd" "srv_out s = srv_lines pid (srv_at s)" "alive s" "signal_inv sy pid s"
      using i(1) t by (simp_all add: signal_inv_def srv_step_def split: if_splits)
    have "sigint s = (if srv_at s \<in> {SPid, SDefault} then inherited sy else Default)" using i(1) by (simp add: signal_inv_def)
    then have "srv_at t \<noteq> SEnd \<and> srv_out t = srv_lines pid (srv_at t) \<and> cln_at t = cln_at s \<and> cln_out t = cln_out s \<and> alive t = alive s \<and>
        sigint t = (if srv_at t \<in> {SPid, SDefault} then inherited sy else Default)"
      using t inv(1-3) by (cases "srv_at s") (auto simp: srv_step_def srv_lines_def)
    then show ?thesis using inv(4) by (simp add: signal_inv_def split: cln_at.splits)
  next
    assume "cln_step sy [prog, lit (show_int pid)] s = Some t"
    then show ?thesis using i(1) c
      by (cases "cln_at s") (auto simp: cln_step_def deliver_def signal_inv_def cln_lines_def Let_def split: if_splits)
  qed
  then show "signal_inv sy pid t \<and> 0 < pid \<and> fits32 pid \<and> \<not> ends_self sy pid" using i(1) by simp
qed (auto simp: signal_inv_def signal_start_def srv_lines_def cln_lines_def)

text \<open>
  C28. The client that is given the number the server prints ends it, when \<open>kill\<close> is allowed: if the server was started with the
  default disposition of \<open>SIGINT\<close>, then whatever the order of the statements it is dead as soon as the signal is sent, and alive before;
  if it was started with \<open>SIGINT\<close> ignored, the signal ends it exactly when it comes behind the call of \<open>signal\<close>.
  When \<open>kill\<close> is not allowed the server lives on, and the client prints its lines all the same.  The server never prints its last line.
\<close>

theorem signal_ends_server:
  assumes "0 < pid" "fits32 pid" "\<not> ends_self sy pid"
    and "reach (\<lambda>s. s = signal_start sy \<and> 0 < pid \<and> fits32 pid \<and> \<not> ends_self sy pid) (signal_step sy pid [prog, lit (show_int pid)]) s"
  shows "(cln_at s \<notin> {CFinish, CEnd} \<longrightarrow> alive s) \<and>
    (cln_at s \<in> {CFinish, CEnd} \<and> reaches sy pid \<and> inherited sy = Default \<longrightarrow> \<not> alive s) \<and>
    (\<forall>p t. cln_at s = CKill p \<and> cln_step sy [prog, lit (show_int pid)] s = Some t \<longrightarrow>
       p = pid \<and> (alive t \<longleftrightarrow> \<not> reaches sy pid \<or> inherited sy = Ignored \<and> srv_at s \<in> {SPid, SDefault})) \<and>
    (\<not> reaches sy pid \<longrightarrow> alive s) \<and> ''Program 1 finished.'' \<notin> set (srv_out s) \<and>
    (cln_at s = CEnd \<longrightarrow> cln_out s = [''Program 2 started.'', ''Program 2 finished.''])"
proof -
  have i: "signal_inv sy pid s" using signal_sys.always [OF assms(4)] by simp
  have "''Program 1 finished.'' \<noteq> ''My PID = '' @ show_int pid" by simp
  then have "''Program 1 finished.'' \<notin> set (srv_out s)" using i by (auto simp: signal_inv_def srv_lines_def split: srv_at.splits)
  moreover have "\<forall>p t. cln_at s = CKill p \<and> cln_step sy [prog, lit (show_int pid)] s = Some t \<longrightarrow>
       p = pid \<and> (alive t \<longleftrightarrow> \<not> reaches sy pid \<or> inherited sy = Ignored \<and> srv_at s \<in> {SPid, SDefault})"
    using i by (auto simp: signal_inv_def cln_step_def deliver_def Let_def split: if_splits) (metis disposition.exhaust)+
  ultimately show ?thesis using i by (auto simp: signal_inv_def cln_lines_def split: cln_at.splits)
qed

text \<open>Runs in which the signal comes before the server has called \<open>signal\<close>, for either disposition.\<close>

definition any_signals :: "disposition \<Rightarrow> signals" where
  "any_signals d = \<lparr>inherited = d, reaches = (\<lambda>p. p = 7), ends_self = (\<lambda>p. p \<le> 0)\<rparr>"

lemma early_signal:
  "reach (\<lambda>s. s = signal_start (any_signals d) \<and> 0 < (7 :: int) \<and> fits32 7 \<and> \<not> ends_self (any_signals d) 7)
     (signal_step (any_signals d) 7 [[NUL], lit (show_int 7)])
     \<lparr>srv_at = SDefault, sigint = d, alive = True, srv_out = [''My PID = '' @ show_int 7], cln_at = CKill 7, cln_out = [''Program 2 started.'']\<rparr>"
proof -
  let ?R = "reach (\<lambda>s. s = signal_start (any_signals d) \<and> 0 < (7 :: int) \<and> fits32 7 \<and> \<not> ends_self (any_signals d) 7)
     (signal_step (any_signals d) 7 [[NUL], lit (show_int 7)])"
  have c: "signal_client [[NUL], lit (show_int 7)] = Some ([''Program 2 started.''], Some (7, [''Program 2 finished.'']))"
    by (rule signal_client_pid) simp_all
  have 0: "?R (signal_start (any_signals d))" by (rule reach_init) (simp add: any_signals_def)
  have 1: "?R \<lparr>srv_at = SDefault, sigint = d, alive = True, srv_out = [''My PID = '' @ show_int 7], cln_at = CStart, cln_out = []\<rparr>"
    by (rule reach_step [OF 0], rule by_srv) (simp add: signal_start_def srv_step_def any_signals_def)
  show ?thesis by (rule reach_step [OF 1], rule by_cln) (simp add: cln_step_def c)
qed

theorem signal_ends_server_witness:
  "\<forall>d. \<exists>s t. srv_at s = SDefault \<and> cln_step (any_signals d) [[NUL], lit (show_int 7)] s = Some t \<and> cln_at t = CFinish \<and> (alive t \<longleftrightarrow> d = Ignored)"
proof
  fix d
  let ?s = "\<lparr>srv_at = SDefault, sigint = d, alive = True, srv_out = [''My PID = '' @ show_int 7], cln_at = CKill 7, cln_out = [''Program 2 started.'']\<rparr>"
  obtain t where t: "cln_step (any_signals d) [[NUL], lit (show_int 7)] ?s = Some t" "cln_at t = CFinish"
    by (simp add: cln_step_def deliver_def any_signals_def Let_def)
  from signal_ends_server [OF _ _ _ early_signal] t(1) have "alive t \<longleftrightarrow> \<not> reaches (any_signals d) 7 \<or> inherited (any_signals d) = Ignored"
    by (simp add: any_signals_def)
  then have "alive t \<longleftrightarrow> d = Ignored" by (simp add: any_signals_def)
  with t show "\<exists>s t. srv_at s = SDefault \<and> cln_step (any_signals d) [[NUL], lit (show_int 7)] s = Some t \<and> cln_at t = CFinish \<and> (alive t \<longleftrightarrow> d = Ignored)"
    by (intro exI [of _ ?s] exI [of _ t]) simp
qed

end
