(* ===== verification/Spec2Isabelle.thy ===== *)
theory Spec2Isabelle
  imports ContactBook_Main ContactArray_Main Interpreter_Correct FileManager_Main Shop_Correct
    Calculator_Correct RawServers TwoPools_Correct Arrays_Correct Bits QueueChat ShmBytes
    Editor_Correct Locking Processes NamedPipes Office_Correct Signals
begin

text \<open>
  A model of the C programs of this repository and the theorems about them.

  \<^bold>\<open>The programs.\<close>  The repository is a collection of small programs for Linux, most of one or two source
  files, that share no code: contact books, matrices and bits, a command interpreter, a file manager
  and a text editor on curses, threads with mutexes, calculators with static and loaded functions,
  chats over queues and shared memory, servers with pools of threads and their clients, programs that write
  network headers themselves, pipes and signals, and kernel modules.  They interact in pairs: a client and a server
  over a socket, a queue, a segment of shared memory or a pipe.  Where there is such a pair the
  theorems are about both programs together, up to a server with any number of clients.

  \<^bold>\<open>Common ground.\<close>  \<open>Prelude\<close> has arrays with bounds, general lemmas on lists and the predicate
  \<open>returns\<close> for total correctness.  \<open>CLib\<close> is what the programs use of the C library: strings in arrays,
  \<open>scanf\<close>, \<open>fgets\<close>, \<open>atoi\<close>.  \<open>Console\<close> has the interface \<open>command_shell\<close> of a command loop, whose theorem on whole sessions is
  proved once and interpreted by the two contact books, whose menu is in \<open>CommandShell\<close>, and by the calculator.  \<open>Transition\<close> has reachable states, interleavings, and two interfaces: \<open>inductive_invariant\<close>, which the
  threads, servers, chats, pipes, signals and modules interpret, and its extension \<open>refinement\<close> of a specification, which the servers
  with pools interpret on the desk of \<open>Dispatch\<close>, the server with its clients on the server alone, and the two chats on the wall of \<open>Chat\<close>;
  and the exploration of a finite system, by which the kernel computes all states of the named pipes.  \<open>Bubble\<close> has the bubble sort both contact books use,
  \<open>Numbers\<close> the 32-bit arithmetic of the calculators, \<open>Bytes\<close> words as bytes in either order, \<open>Keys\<close> the keys of curses.

  \<^bold>\<open>Conventions.\<close>  A computation without defined behaviour in C is \<open>None\<close>: an access outside an array, a
  string without terminator, signed overflow, division by zero.  Where a counter is an unbounded \<open>int\<close> instead, that is said below.
  The contents of memory that the
  program does not initialise are parameters, and the theorems hold for all of them, with one exception:
  \<open>dl_main_calls\<close>, on \<open>lib/calc.c\<close>, needs a zero byte behind the place of each name, as \<open>loaded_symbol\<close> shows.  A loop that may
  go on for ever takes fuel, the number of rounds, and the theorems say which fuel is enough (one more than the
  commands of the session, \<open>N + 1\<close> rounds for the spiral of size \<open>N\<close>); other loops are functions with a termination proof.
  Threads and processes are counters into their code; a step is one access to shared memory or one
  call of the system, and the theorems hold for every interleaving.  That every run ends is stated with \<open>endless\<close>
  of \<open>Transition\<close>: there is no infinite sequence of steps.

  \<^bold>\<open>The theories.\<close>
  \<^item> \<open>ContactBook\<close>, \<open>_Correct\<close>, \<open>_Main\<close>: \<open>heap/task.c\<close>.  Each function of the program is a definition of
    its name; the command loop is \<open>cmd_step\<close> and \<open>cmd_loop\<close>.  A whole run refines a specification on lists of contacts;
    sorting is stable, deletion removes the first match; what goes wrong without memory.
  \<^item> \<open>ContactArray\<close>, \<open>_Correct\<close>, \<open>_Main\<close>: \<open>structures/task.c\<close>, the same with an array of 100 contacts.
  \<^item> \<open>Interpreter\<close>, \<open>_Correct\<close>: \<open>pipes/command_interpreter/cmd.c\<close>: lines, words, the path and the
    working directory, the two kinds of children.
  \<^item> \<open>FileManager\<close>, \<open>_Correct\<close>, \<open>_Main\<close>: \<open>file_manager/file_manage.c\<close>: panes, pages, keys, the rows of the screen that the names take, files handed over with all outcomes of
    \<open>fork\<close> and \<open>execl\<close>, a whole session, and windows that change their size.
  \<^item> \<open>Editor\<close>, \<open>_Correct\<close>: \<open>work_with_file/text_editor.c\<close>: the keys as operations on a page of cells, which the program
    refines through the laws of curses; saving, whole sessions, windows of any size and a change of the size.
  \<^item> \<open>Shop\<close>, \<open>_Correct\<close>: \<open>threads/shop.c\<close>: mutual exclusion, conservation of goods up to the overflow of a stock, the lost update.
  \<^item> \<open>Calculator\<close>, \<open>_Correct\<close>: \<open>static_lib\<close>, \<open>dynamic_lib\<close> and \<open>lib/calc.c\<close>: sessions of the calculators.
  \<^item> \<open>RawUDP\<close>, \<open>_Correct\<close>, \<open>_Main\<close>: the clients of \<open>raw_socket\<close>: checksum, headers as bytes, the loop that waits.
    What is sent has its destination: two of the clients answer the sender of the packet they read last.
    \<open>RawServers\<close>: their servers, the receiving side of the protocols as a specification, the round trip of the
    frames and the three conversations, with a greeting from the server or from elsewhere.
  \<^item> \<open>Dispatch\<close>: the specification of a server with workers.  \<open>Pool\<close>, \<open>Pool_Correct\<close>: \<open>sokets2/3scheme/server.c\<close>; \<open>TwoPools\<close>, \<open>_Correct\<close>: \<open>sokets2/4scheme/server.c\<close>, whose state
    extends that of \<open>Pool\<close>, and \<open>sokets2/1-2scheme/server.c\<close>: refinement of the desk, progress, races.
  \<^item> \<open>Office\<close>, \<open>Office_Correct\<close>: the server of \<open>Pool\<close> with any number of its clients, \<open>sokets2/3scheme/client.c\<close>, and the sockets
    between them: every client is served, and the server shows the message of each once.
  \<^item> \<open>Chat\<close>, \<open>QueueChat\<close>: \<open>queue/chat\<close>: what writers send, refinement of the wall, the order of the messages, the end of
    a conversation.  \<open>ShmChat\<close>, \<open>ShmBytes\<close>: \<open>shared_memory/chat\<close>, what is typed, and the processes byte by byte: messages get mixed
    and lost, but stay within the rows, and rows and terminals refine the wall.
  \<^item> \<open>Conversations\<close>: \<open>sokets1\<close>, the clients of \<open>sokets2\<close>, \<open>data_exchange\<close>.  \<open>Processes\<close>: \<open>pipes/1tsk\<close>, with the ends
    of the pipe that each process has open.
    \<open>NamedPipes\<close>: \<open>pipes/2tsk\<close>: all runs, which end in a deadlock.  \<open>Exchange\<close>: \<open>queue\<close> and \<open>shared_memory\<close> without the chats, with
    a client that is found or not, \<open>file_manager/process\<close>,
    \<open>signals\<close>, the bot, the sniffer.  \<open>Signals\<close>: the two programs of \<open>signals/2tsk\<close> together, with the
    disposition of the signal.
  \<^item> \<open>Arrays\<close>, \<open>_Correct\<close>: \<open>arrays\<close>: the spiral fills every cell, and ends.  \<open>Bits\<close>: \<open>bit_operations\<close>, \<open>pointers\<close>.
  \<^item> \<open>Modules\<close>: \<open>modules\<close>: reading and writing the device, \<open>/proc\<close> and \<open>/sys\<close>, loading and unloading.  \<open>Locking\<close>: the same
    handlers byte by byte, with their lock: reads are atomic where all handlers lock, and torn where they do not; the calls on the
    device are linearizable, their sequential meaning being the handlers of \<open>Modules\<close>, which copy at once.

  \<^bold>\<open>Parameters.\<close>  The system and libraries that are not part of the repository appear as arguments: directory
  contents and executables, outcomes of system calls, packets that arrive, the loaded functions of
  \<open>lib/calc.c\<close>, curses (record \<open>curses\<close>, predicates \<open>curses_laws\<close> and \<open>resize_laws\<close>) and the copying functions of the
  kernel (record \<open>kernel\<close>, predicate \<open>kernel_laws\<close>).  The predicates state documented behaviour, and
  the theories give an instance of each.

  \<^bold>\<open>Server for TCP and UDP.\<close>  \<open>create_threads_undefined\<close> shows that starting its threads already writes
  outside an array.  \<open>server4_started\<close> is the start in which the memory behind the array, a parameter, can be written;
  with less than fifteen elements of it there is none, so the theorem on its loop says that they are there.
  The loop is modelled one call of the system at a time, and any of them may fail.

  \<^bold>\<open>Assumptions.\<close>
  \<^item> The queues of System V outlive the programs and are never removed; \<open>pool_start\<close>, \<open>server4_start\<close> and \<open>chat_start\<close> take them to be empty at
    first, and the calls of \<open>msgget\<close> in \<open>queue/chat/client.c\<close> to succeed.  The segments of \<open>shared_memory/chat\<close> may be old: \<open>byte_start\<close> has their rest as a
    parameter.
  \<^item> \<open>main\<close> of \<open>heap/task.c\<close>: the \<open>malloc\<close> of \<open>new_contact_book\<close> and \<open>fopen\<close> for writing succeed; the outcomes of the allocations in \<open>add_sub\<close> are
    parameters.  The counters of the contact books, of the spiral and of the sniffer are unbounded; the spiral
    has the size \<open>N\<close> as a parameter, which is 19 in the program.
  \<^item> \<open>copy_step\<close> fixes how the kernel copies, one byte after the other in ascending order; \<open>test_read\<close> and \<open>test_write\<close> of \<open>Modules\<close> leave out the
    lock, which \<open>Locking\<close> has, and \<open>calls_linearize\<close> joins both.
  \<^item> A line that is printed shows at once, as on a terminal; \<open>pipe_output\<close> is about other outputs too.
  \<^item> The programs and the editor that the file manager starts, and their keys, are not followed; the names it shows have printing
    characters only where the theorems speak of the screen, and the screen has at least the 32 rows of the frames; with fewer \<open>under_cursor\<close> says nothing.
  \<^item> \<open>dyn_calcul_main\<close> is \<open>calcul_main\<close>, because \<open>dynamic_lib/calcul.c\<close> has the text of \<open>static_lib/calcul.c\<close>.

  \<^bold>\<open>Not modelled.\<close>  Bold and blinking text; closing of descriptors where nothing depends on it, and the wording of \<open>perror\<close>
  behind the prefix; partial transfers of \<open>send\<close> and \<open>recv\<close>; the bound on the connections that wait for \<open>accept\<close>; a failing \<open>fork\<close> or \<open>exec\<close> in
  \<open>pipes/1tsk\<close> and the trees of processes, which do not test for it; \<open>work_with_file/hello.c\<close>, three lines to open in the editor.
\<close>

end
